(* ===== verification/Prelude.thy ===== *)
theory Prelude
  imports Main "HOL-Library.Word" "HOL-Library.List_Lexorder" "HOL-Library.Char_ord"
begin

text \<open>
  Shared vocabulary of the development: Rust's \<open>Result\<close> as a sum type with its
  combinators, the fold that stops at the first error (the loop of a derived
  \<open>visit_map\<close>), \<open>Iterator::position\<close>, and the generic lemmas the components
  use.  A Rust \<open>Result<T, E>\<close> is \<open>'e + 'a\<close> with \<open>Inl\<close> for \<open>Err\<close>.
\<close>

section \<open>Names of types\<close>

type_synonym byte = "8 word"
type_synonym i64 = "64 word"

section \<open>Collections of simplification rules\<close>

named_theorems result_simps \<open>combinators of Result\<close>
named_theorems serde_defs \<open>definitions of derived serializers and deserializers\<close>
named_theorems ctl_defs \<open>operations on the shared state of a connection\<close>

section \<open>Result\<close>

primrec and_then :: "'e + 'a \<Rightarrow> ('a \<Rightarrow> 'e + 'b) \<Rightarrow> 'e + 'b" where
  "and_then (Inl e) f = Inl e"
| "and_then (Inr x) f = f x"

primrec map_ok :: "('a \<Rightarrow> 'b) \<Rightarrow> 'e + 'a \<Rightarrow> 'e + 'b" where
  "map_ok f (Inl e) = Inl e"
| "map_ok f (Inr x) = Inr (f x)"

primrec map_err :: "('e \<Rightarrow> 'f) \<Rightarrow> 'e + 'a \<Rightarrow> 'f + 'a" where
  "map_err f (Inl e) = Inl (f e)"
| "map_err f (Inr x) = Inr x"

primrec ok_or :: "'e \<Rightarrow> 'a option \<Rightarrow> 'e + 'a" where
  "ok_or e None = Inl e"
| "ok_or e (Some x) = Inr x"

text \<open>\<open>Result::ok\<close>.\<close>

primrec ok_of :: "'e + 'a \<Rightarrow> 'a option" where
  "ok_of (Inl e) = None"
| "ok_of (Inr x) = Some x"

lemma ok_of_eq_Some [simp]: "ok_of r = Some x \<longleftrightarrow> r = Inr x"
  by (cases r) auto

lemma and_then_eq_Inr [result_simps]:
  "and_then r f = Inr y \<longleftrightarrow> (\<exists>x. r = Inr x \<and> f x = Inr y)"
  by (cases r) auto

lemma map_ok_eq_Inr [result_simps]:
  "map_ok f r = Inr y \<longleftrightarrow> (\<exists>x. r = Inr x \<and> y = f x)"
  by (cases r) auto

lemma map_err_eq_Inr [result_simps]:
  "map_err f r = Inr y \<longleftrightarrow> r = Inr y"
  by (cases r) auto

lemma map_err_eq_Inl [result_simps]:
  "map_err f r = Inl e \<longleftrightarrow> (\<exists>e'. r = Inl e' \<and> e = f e')"
  by (cases r) auto

lemma ok_or_eq_Inr [result_simps]: "ok_or e x = Inr y \<longleftrightarrow> x = Some y"
  by (cases x) auto

text \<open>A left fold that stops at the first error.\<close>

primrec fold_result :: "('x \<Rightarrow> 's \<Rightarrow> 'e + 's) \<Rightarrow> 'x list \<Rightarrow> 's \<Rightarrow> 'e + 's" where
  "fold_result f [] s = Inr s"
| "fold_result f (x # xs) s = and_then (f x s) (fold_result f xs)"

section \<open>Lists\<close>

lemma list_all2_member: "list_all2 P xs ys \<Longrightarrow> x \<in> set xs \<Longrightarrow> \<exists>y \<in> set ys. P x y"
  by (induction rule: list_all2_induct) auto

lemma list_all2_member': "list_all2 P xs ys \<Longrightarrow> y \<in> set ys \<Longrightarrow> \<exists>x \<in> set xs. P x y"
  by (induction rule: list_all2_induct) auto

section \<open>Iterator::position\<close>

primrec position_of :: "('a \<Rightarrow> bool) \<Rightarrow> 'a list \<Rightarrow> nat option" where
  "position_of P [] = None"
| "position_of P (x # xs) = (if P x then Some 0 else map_option Suc (position_of P xs))"

lemma position_of_None: "position_of P xs = None \<longleftrightarrow> (\<forall>x \<in> set xs. \<not> P x)"
  by (induction xs) auto

lemma position_of_SomeD:
  "position_of P xs = Some i \<Longrightarrow> i < length xs \<and> P (xs ! i) \<and> (\<forall>x \<in> set (take i xs). \<not> P x)"
  by (induction xs arbitrary: i) (auto split: if_splits)

lemma position_of_skip:
  "\<forall>x \<in> set xs. \<not> P x \<Longrightarrow>
   position_of P (xs @ ys) = map_option ((+) (length xs)) (position_of P ys)"
proof (induction xs)
  case Nil
  show ?case by (cases "position_of P ys") simp_all
next
  case (Cons x xs)
  then show ?case by (cases "position_of P ys") simp_all
qed

lemma position_of_found:
  "\<forall>x \<in> set xs. \<not> P x \<Longrightarrow> P y \<Longrightarrow> position_of P (xs @ y # ys) = Some (length xs)"
  by (simp add: position_of_skip)

end
