(* ===== verification/Json.thy ===== *)
theory Json
  imports Prelude
begin

text \<open>
  JSON as the program sees it.  A \<open>value\<close> is both the type \<open>serde_json::Value\<close>
  the sources match on, and the tree of a parsed document that the derived
  deserializers walk: there the members of an object stand in document order and a key may
  occur twice.  \<open>canon\<close> is what reading a document into a \<open>Value\<close> does: its
  objects become \<open>BTreeMap\<close>s, built by inserting the members in document order, so the
  last of several members with one key stays.  A \<open>Value\<close> of the program satisfies
  \<open>wf_value\<close>: object keys are strictly increasing.

  Strings are their UTF-8 bytes (a HOL \<open>char\<close> is a byte), integers are the 64-bit
  words of \<open>serde_json::Number\<close>, and a float is its IEEE bit pattern.
\<close>

section \<open>Values\<close>

datatype number =
    PosInt "64 word"
  | NegInt i64
  | Float "64 word"

datatype "value" =
    Null
  | Bool bool
  | Number number
  | String string
  | Array "value list"
  | Object "(string \<times> value) list"

text \<open>\<open>Value::as_str\<close>.\<close>

fun as_str :: "value \<Rightarrow> string option" where
  "as_str (String s) = Some s"
| "as_str _ = None"

lemma as_str_Some [simp]: "as_str v = Some s \<longleftrightarrow> v = String s"
  by (cases v) auto

section \<open>BTreeMap with string keys\<close>

text \<open>
  The map of an object is its list of members, sorted by key.  Rust orders strings by their
  bytes, which is the lexicographic order on \<open>char list\<close>.
\<close>

type_synonym 'v btree_map = "(string \<times> 'v) list"

primrec btree_insert :: "string \<Rightarrow> 'v \<Rightarrow> 'v btree_map \<Rightarrow> 'v btree_map" where
  "btree_insert k v [] = [(k, v)]"
| "btree_insert k v (p # ps) =
     (if k < fst p then (k, v) # p # ps
      else if k = fst p then (k, v) # ps
      else p # btree_insert k v ps)"

abbreviation btree_get :: "'v btree_map \<Rightarrow> string \<Rightarrow> 'v option" where
  "btree_get \<equiv> map_of"

definition btree_inv :: "'v btree_map \<Rightarrow> bool" where
  "btree_inv m \<longleftrightarrow> sorted_wrt (<) (map fst m)"

lemma btree_inv_Nil [simp]: "btree_inv []"
  by (simp add: btree_inv_def)

lemma btree_inv_Cons [simp]:
  "btree_inv (p # ps) \<longleftrightarrow> (\<forall>q \<in> set ps. fst p < fst q) \<and> btree_inv ps"
  by (auto simp: btree_inv_def)

lemma set_btree_insert: "set (btree_insert k v m) \<subseteq> insert (k, v) (set m)"
  by (induction m) auto

lemma btree_inv_insert: "btree_inv m \<Longrightarrow> btree_inv (btree_insert k v m)"
proof (induction m)
  case Nil
  then show ?case by simp
next
  case (Cons p ps)
  have "fst p < fst q" if "q \<in> set (btree_insert k v ps)" "fst p < k" for q
    using set_btree_insert [of k v ps] that Cons.prems by auto
  with Cons show ?case by (auto dest: order.strict_trans)
qed

lemma btree_get_insert: "btree_get (btree_insert k v m) = (btree_get m)(k \<mapsto> v)"
  by (induction m) (auto simp: fun_eq_iff)

lemma btree_get_absent: "\<forall>q \<in> set m. k < fst q \<Longrightarrow> btree_get m k = None"
  by (induction m) auto

text \<open>
  The contract of a map, as a client of \<open>serde_json::Map\<close> relies on it: lookups after an
  insertion, and extensionality, which is what makes structural equality of two objects mean
  equality of the maps.
\<close>

locale string_map =
  fixes empty :: "'m"
    and insert_key :: "string \<Rightarrow> 'v \<Rightarrow> 'm \<Rightarrow> 'm"
    and get :: "'m \<Rightarrow> string \<Rightarrow> 'v option"
    and inv :: "'m \<Rightarrow> bool"
  assumes get_empty: "get empty k = None"
    and inv_empty: "inv empty"
    and get_insert: "inv m \<Longrightarrow> get (insert_key k v m) = (get m)(k \<mapsto> v)"
    and inv_insert: "inv m \<Longrightarrow> inv (insert_key k v m)"
    and ext: "inv m \<Longrightarrow> inv n \<Longrightarrow> get m = get n \<Longrightarrow> m = n"
begin

definition collect :: "(string \<times> 'v) list \<Rightarrow> 'm" where
  "collect kvs = fold (\<lambda>(k, v). insert_key k v) kvs empty"

lemma inv_fold: "inv m \<Longrightarrow> inv (fold (\<lambda>(k, v). insert_key k v) kvs m)"
  by (induction kvs arbitrary: m) (auto simp: inv_insert)

lemma get_fold:
  "inv m \<Longrightarrow>
   get (fold (\<lambda>(k, v). insert_key k v) kvs m) = get m ++ map_of (rev kvs)"
  by (induction kvs arbitrary: m)
     (auto simp: get_insert inv_insert map_add_upd_left fun_eq_iff map_add_def split: option.splits)

lemma inv_collect: "inv (collect kvs)"
  by (simp add: collect_def inv_fold inv_empty)

lemma get_collect: "get (collect kvs) = map_of (rev kvs)"
  using get_fold [of empty kvs] inv_empty get_empty
  by (auto simp: collect_def fun_eq_iff map_add_def split: option.splits)

lemma collect_get:
  assumes "inv m" and "get m = map_of (rev kvs)"
  shows "collect kvs = m"
  using assms by (intro ext) (simp_all add: inv_collect get_collect)

end

lemma btree_ext: "btree_inv m \<Longrightarrow> btree_inv n \<Longrightarrow> btree_get m = btree_get n \<Longrightarrow> m = n"
proof (induction m arbitrary: n)
  case Nil
  then show ?case by (cases n) (auto simp: fun_eq_iff split: if_splits)
next
  case (Cons p m)
  obtain k v where p: "p = (k, v)" by (cases p)
  show ?case
  proof (cases n)
    case Nil
    with fun_cong [OF Cons.prems(3), of k] p show ?thesis by simp
  next
    case (Cons q n')
    obtain l w where q: "q = (l, w)" by (cases q)
    have get: "btree_get ((k, v) # m) x = btree_get ((l, w) # n') x" for x
      using Cons.prems(3) p q Cons by (simp add: fun_eq_iff)
    have m: "\<forall>q \<in> set m. k < fst q" "btree_inv m" and n: "\<forall>q \<in> set n'. l < fst q" "btree_inv n'"
      using Cons.prems(1,2) p q Cons by auto
    have "k = l"
    proof (rule linorder_cases)
      assume "k < l"
      with n(1) have "\<forall>q \<in> set n'. k < fst q" by (auto dest: order.strict_trans)
      then have "btree_get n' k = None" by (rule btree_get_absent)
      with get [of k] \<open>k < l\<close> show ?thesis by (auto split: if_splits)
    next
      assume "l < k"
      with m(1) have "\<forall>q \<in> set m. l < fst q" by (auto dest: order.strict_trans)
      then have "btree_get m l = None" by (rule btree_get_absent)
      with get [of l] \<open>l < k\<close> show ?thesis by (auto split: if_splits)
    qed
    moreover from this get [of k] have "v = w" by simp
    moreover have "btree_get m = btree_get n'"
    proof
      fix x
      show "btree_get m x = btree_get n' x"
        using get [of x] \<open>k = l\<close> m(1) n(1)
        by (cases "x = k") (auto simp: btree_get_absent)
    qed
    ultimately show ?thesis using Cons.IH [of n'] m(2) n(2) p q Cons by simp
  qed
qed

interpretation btree: string_map "[]" btree_insert btree_get btree_inv
  by unfold_locales (auto simp: btree_get_insert btree_inv_insert intro: btree_ext)

lemma map_of_rev_distinct: "distinct (map fst kvs) \<Longrightarrow> map_of (rev kvs) = map_of kvs"
proof (induction kvs)
  case Nil
  then show ?case by simp
next
  case (Cons p kvs)
  then have "map_of kvs (fst p) = None" by (simp add: map_of_eq_None_iff)
  with Cons show ?case by (auto simp: map_add_def fun_eq_iff split: option.splits)
qed

lemma btree_collect_sorted: "btree_inv kvs \<Longrightarrow> btree.collect kvs = kvs"
proof (rule btree.collect_get)
  assume inv: "btree_inv kvs"
  then have "distinct (map fst kvs)"
    by (simp add: btree_inv_def strict_sorted_iff)
  then show "btree_get kvs = map_of (rev kvs)" by (simp add: map_of_rev_distinct)
qed

section \<open>Reading a document into a Value\<close>

definition btree_from_members :: "(string \<times> 'v) list \<Rightarrow> 'v btree_map" where
  "btree_from_members kvs = fold (\<lambda>(k, v). btree_insert k v) kvs []"

lemma btree_from_members_eq: "btree_from_members kvs = btree.collect kvs"
  by (simp add: btree_from_members_def btree.collect_def)

primrec canon :: "value \<Rightarrow> value" where
  "canon Null = Null"
| "canon (Bool b) = Bool b"
| "canon (Number n) = Number n"
| "canon (String s) = String s"
| "canon (Array vs) = Array (map canon vs)"
| "canon (Object kvs) = Object (btree_from_members (map (map_prod (\<lambda>k. k) canon) kvs))"

primrec wf_value :: "value \<Rightarrow> bool" where
  "wf_value Null = True"
| "wf_value (Bool b) = True"
| "wf_value (Number n) = True"
| "wf_value (String s) = True"
| "wf_value (Array vs) = list_all wf_value vs"
| "wf_value (Object kvs) = (btree_inv kvs \<and> list_all (pred_prod (\<lambda>k. True) wf_value) kvs)"

lemma canon_wf [simp]: "wf_value v \<Longrightarrow> canon v = v"
proof (induction v)
  case (Array vs)
  then show ?case by (auto simp: list_all_iff intro: map_idI)
next
  case (Object kvs)
  have "map (map_prod (\<lambda>k. k) canon) kvs = kvs"
    using Object by (intro map_idI) (force simp: list_all_iff pred_prod_beta split: prod.splits)
  with Object.prems show ?case
    by (simp add: btree_from_members_eq btree_collect_sorted)
qed simp_all

lemma set_btree_from_members: "set (btree_from_members kvs) \<subseteq> set kvs"
proof -
  have "set (fold (\<lambda>(k, v). btree_insert k v) kvs m) \<subseteq> set kvs \<union> set m" for m :: "'a btree_map"
  proof (induction kvs arbitrary: m)
    case Nil
    then show ?case by simp
  next
    case (Cons p kvs)
    then show ?case using set_btree_insert [of "fst p" "snd p" m]
      by (fastforce simp: case_prod_beta)
  qed
  from this [of "[]"] show ?thesis by (simp add: btree_from_members_def)
qed

lemma wf_canon [simp]: "wf_value (canon v)"
proof (induction v)
  case (Array vs)
  then show ?case by (simp add: list_all_iff)
next
  case (Object kvs)
  let ?kvs = "map (map_prod (\<lambda>k. k) canon) kvs"
  have "wf_value (snd p)" if "p \<in> set ?kvs" for p
    using that Object by (force simp: snds.simps)
  then show ?case
    using set_btree_from_members [of ?kvs]
    by (fastforce simp: list_all_iff pred_prod_beta btree_from_members_eq btree.inv_collect)
qed simp_all

lemma canon_canon [simp]: "canon (canon v) = canon v"
  by simp

text \<open>
  What a client of an object sees after reading a document: the last member with a key wins.
\<close>

lemma get_canon_Object:
  "btree_get (btree_from_members (map (map_prod (\<lambda>k. k) canon) kvs)) k
     = map_option canon (map_of (rev kvs) k)"
proof -
  have "map_of (map (map_prod (\<lambda>k. k) canon) xs) k = map_option canon (map_of xs k)"
    for xs :: "(string \<times> value) list"
    by (induction xs) auto
  from this [of "rev kvs"] show ?thesis
    by (simp add: btree_from_members_eq btree.get_collect rev_map)
qed

end
