(* ===== verification/Message.thy ===== *)
theory Message
  imports Json
begin

text \<open>
  The messages of the protocol (\<open>src/src/message.rs\<close>): their types, the constructors of
  errors and replies, and the classification of a decoded document.

  The version marker is a unit struct, kept as a one-element type.  A result
  \<open>Result<Value, RpcError>\<close> is \<open>rpc_error + value\<close>.  The fresh id that
  \<open>Uuid::new_v4\<close> supplies is an argument.  \<open>expect\<close> on a failed
  \<open>to_value\<close> panics: the result is \<open>None\<close>.
\<close>

section \<open>Data\<close>

datatype version = Version

record request =
  req_jsonrpc :: version
  req_method :: string
  req_params :: "value option"
  req_id :: "value"

record rpc_error =
  err_code :: i64
  err_message :: string
  err_data :: "value option"

record response =
  resp_jsonrpc :: version
  resp_result :: "rpc_error + value"
  resp_id :: "value"

record notification =
  notif_jsonrpc :: version
  notif_method :: string
  notif_params :: "value option"

datatype message =
    Request request
  | Response response
  | Notification notification
  | Batch "message list"
  | UnmatchedSub "value"

datatype broken =
    Unmatched "value"
  | SyntaxError string

text \<open>\<open>type Parsed = Result<Message, Broken>\<close>.\<close>

type_synonym parsed = "broken + message"

section \<open>Errors\<close>

definition rpc_error_new :: "i64 \<Rightarrow> string \<Rightarrow> value option \<Rightarrow> rpc_error" where
  "rpc_error_new code msg data = \<lparr>err_code = code, err_message = msg, err_data = data\<rparr>"

definition invalid_params :: "string option \<Rightarrow> rpc_error" where
  "invalid_params msg = rpc_error_new (- 32602) ''Invalid params'' (map_option String msg)"

definition server_error :: "('e \<Rightarrow> 'x + value) \<Rightarrow> 'e option \<Rightarrow> rpc_error option" where
  "server_error to_value e =
     (case e of
        None \<Rightarrow> Some (rpc_error_new (- 32000) ''Server error'' None)
      | Some v \<Rightarrow>
          (case to_value v of
             Inl _ \<Rightarrow> None
           | Inr j \<Rightarrow> Some (rpc_error_new (- 32000) ''Server error'' (Some j))))"

definition invalid_request :: rpc_error where
  "invalid_request = rpc_error_new (- 32600) ''Invalid request'' None"

definition parse_error :: "string \<Rightarrow> rpc_error" where
  "parse_error e = rpc_error_new (- 32700) ''Parse error'' (Some (String e))"

definition method_not_found :: "string \<Rightarrow> rpc_error" where
  "method_not_found m = rpc_error_new (- 32601) ''Method not found'' (Some (String m))"

section \<open>Constructors\<close>

definition reply :: "request \<Rightarrow> value \<Rightarrow> message" where
  "reply req r = Response \<lparr>resp_jsonrpc = Version, resp_result = Inr r, resp_id = req_id req\<rparr>"

definition reply_error :: "request \<Rightarrow> rpc_error \<Rightarrow> message" where
  "reply_error req e =
     Response \<lparr>resp_jsonrpc = Version, resp_result = Inl e, resp_id = req_id req\<rparr>"

definition message_request :: "string \<Rightarrow> string \<Rightarrow> value option \<Rightarrow> message" where
  "message_request uuid m params =
     Request \<lparr>req_jsonrpc = Version, req_method = m, req_params = params, req_id = String uuid\<rparr>"

definition message_error :: "rpc_error \<Rightarrow> message" where
  "message_error e =
     Response \<lparr>resp_jsonrpc = Version, resp_result = Inl e, resp_id = Null\<rparr>"

definition message_notification :: "string \<Rightarrow> value option \<Rightarrow> message" where
  "message_notification m params =
     Notification \<lparr>notif_jsonrpc = Version, notif_method = m, notif_params = params\<rparr>"

fun broken_reply :: "broken \<Rightarrow> message" where
  "broken_reply (Unmatched _) = message_error invalid_request"
| "broken_reply (SyntaxError e) = message_error (parse_error e)"

lemmas error_defs = rpc_error_new_def invalid_params_def server_error_def invalid_request_def
  parse_error_def method_not_found_def

lemmas constructor_defs = reply_def reply_error_def message_request_def message_error_def
  message_notification_def

section \<open>What was decoded\<close>

text \<open>
  \<open>WireMessage\<close>: the untagged sum the decoder reads, a message or something broken.
\<close>

datatype wire_message =
    WireMessage message
  | WireBroken broken

fun decoded_to_parsed :: "string + wire_message \<Rightarrow> parsed" where
  "decoded_to_parsed (Inr (WireMessage (UnmatchedSub v))) = Inl (Unmatched v)"
| "decoded_to_parsed (Inr (WireMessage m)) = Inr m"
| "decoded_to_parsed (Inr (WireBroken b)) = Inl b"
| "decoded_to_parsed (Inl e) = Inl (SyntaxError e)"

lemma decoded_to_parsed_message:
  "decoded_to_parsed (Inr (WireMessage m)) =
     (case m of UnmatchedSub v \<Rightarrow> Inl (Unmatched v) | _ \<Rightarrow> Inr m)"
  by (cases m) auto

text \<open>\<open>UnmatchedSub\<close> never comes out at the top level.\<close>

lemma decoded_to_parsed_no_sub: "decoded_to_parsed r \<noteq> Inr (UnmatchedSub v)"
  by (cases r rule: decoded_to_parsed.cases) auto

section \<open>Observations on messages\<close>

fun is_response :: "message \<Rightarrow> bool" where
  "is_response (Response _) = True"
| "is_response _ = False"

fun response_of :: "message \<Rightarrow> response option" where
  "response_of (Response r) = Some r"
| "response_of _ = None"

lemma response_of_Some [simp]: "response_of m = Some r \<longleftrightarrow> m = Response r"
  by (cases m) auto

lemma response_of_reply [simp]:
  "response_of (reply req r) =
     Some \<lparr>resp_jsonrpc = Version, resp_result = Inr r, resp_id = req_id req\<rparr>"
  "response_of (reply_error req e) =
     Some \<lparr>resp_jsonrpc = Version, resp_result = Inl e, resp_id = req_id req\<rparr>"
  "response_of (message_error e) =
     Some \<lparr>resp_jsonrpc = Version, resp_result = Inl e, resp_id = Null\<rparr>"
  by (simp_all add: constructor_defs)

lemma is_response_broken_reply [simp]: "is_response (broken_reply b)"
  by (cases b) (simp_all add: constructor_defs)

lemma is_response_reply [simp]: "is_response (reply req r)" "is_response (reply_error req e)"
  by (simp_all add: constructor_defs)

text \<open>
  The JSON-RPC 2.0 codes the library reserves.  Each constructor uses its own, and a reader of
  the word as a signed number gets the number of the specification.
\<close>

lemma reserved_codes:
  "sint (err_code (invalid_params m)) = - 32602"
  "sint (err_code invalid_request) = - 32600"
  "sint (err_code (parse_error e)) = - 32700"
  "sint (err_code (method_not_found n)) = - 32601"
  by (simp_all add: error_defs)

end
