(* ===== verification/Serde.thy ===== *)
theory Serde
  imports Message
begin

text \<open>
  Serialization and deserialization of the messages: the hand-written implementations for
  \<open>Version\<close> and \<open>Response\<close> and the ones \<open>derive\<close> produces from the
  struct declarations and their \<open>serde\<close> attributes (\<open>src/src/message.rs\<close>).

  A serializer maps a message to the document tree it writes, members in the order they are
  written.  A deserializer reads a document tree.  A derived deserializer of a struct accepts
  an object (\<open>visit_map\<close>: members in document order, a second occurrence of a field is an
  error, so is an unknown one under \<open>deny_unknown_fields\<close>, a missing \<open>Option\<close>
  reads as \<open>None\<close>) and also an array of the fields in declaration order
  (\<open>visit_seq\<close>), which the crate's own documentation of \<open>jsonrpc_params!\<close> shows
  for a parameter struct.  A field of type \<open>Option\<close> reads \<open>null\<close> as \<open>None\<close>
  unless \<open>deserialize_with\<close> says otherwise.
\<close>

section \<open>Serializers\<close>

datatype ser_error = CannotSerialize string

fun ser_version :: "version \<Rightarrow> value" where
  "ser_version Version = String ''2.0''"

definition ser_i64 :: "i64 \<Rightarrow> value" where
  "ser_i64 c = Number (if sint c < 0 then NegInt c else PosInt c)"

primrec skip_none :: "string \<Rightarrow> value option \<Rightarrow> (string \<times> value) list" where
  "skip_none k None = []"
| "skip_none k (Some v) = [(k, v)]"

definition ser_request :: "request \<Rightarrow> value" where
  "ser_request r =
     Object ([(''jsonrpc'', ser_version (req_jsonrpc r)), (''method'', String (req_method r))]
             @ skip_none ''params'' (req_params r)
             @ [(''id'', req_id r)])"

definition ser_rpc_error :: "rpc_error \<Rightarrow> value" where
  "ser_rpc_error e =
     Object ([(''code'', ser_i64 (err_code e)), (''message'', String (err_message e))]
             @ skip_none ''data'' (err_data e))"

definition ser_response :: "response \<Rightarrow> value" where
  "ser_response r =
     Object [(''jsonrpc'', ser_version (resp_jsonrpc r)),
             (case resp_result r of
                Inr v \<Rightarrow> (''result'', v)
              | Inl e \<Rightarrow> (''error'', ser_rpc_error e)),
             (''id'', resp_id r)]"

definition ser_notification :: "notification \<Rightarrow> value" where
  "ser_notification n =
     Object ([(''jsonrpc'', ser_version (notif_jsonrpc n)),
              (''method'', String (notif_method n))]
             @ skip_none ''params'' (notif_params n))"

fun ser_message :: "message \<Rightarrow> ser_error + value"
and ser_messages :: "message list \<Rightarrow> ser_error + value list" where
  "ser_message (Request r) = Inr (ser_request r)"
| "ser_message (Response r) = Inr (ser_response r)"
| "ser_message (Notification n) = Inr (ser_notification n)"
| "ser_message (Batch ms) = map_ok Array (ser_messages ms)"
| "ser_message (UnmatchedSub v) = Inl (CannotSerialize ''UnmatchedSub'')"
| "ser_messages [] = Inr []"
| "ser_messages (m # ms) =
     and_then (ser_message m) (\<lambda>v. map_ok ((#) v) (ser_messages ms))"

section \<open>Pieces of the derived deserializers\<close>

datatype de_error =
    InvalidType string
  | InvalidValue string string
  | InvalidLength nat
  | MissingField string
  | DuplicateField string
  | UnknownField string
  | Custom string

fun de_version :: "value \<Rightarrow> de_error + version" where
  "de_version (String s) =
     (if s = ''2.0'' then Inr Version else Inl (InvalidValue s ''value 2.0''))"
| "de_version _ = Inl (InvalidType ''a version string'')"

fun de_string :: "value \<Rightarrow> de_error + string" where
  "de_string (String s) = Inr s"
| "de_string _ = Inl (InvalidType ''a string'')"

fun de_i64 :: "value \<Rightarrow> de_error + i64" where
  "de_i64 (Number (PosInt n)) =
     (if uint n < 2 ^ 63 then Inr n else Inl (InvalidValue ''integer'' ''i64''))"
| "de_i64 (Number (NegInt n)) = Inr n"
| "de_i64 _ = Inl (InvalidType ''i64'')"

fun de_u64 :: "value \<Rightarrow> de_error + 64 word" where
  "de_u64 (Number (PosInt n)) = Inr n"
| "de_u64 (Number (NegInt n)) = (if 0 \<le> sint n then Inr n else Inl (InvalidValue ''integer'' ''u64''))"
| "de_u64 _ = Inl (InvalidType ''u64'')"

fun de_u32 :: "value \<Rightarrow> de_error + 32 word" where
  "de_u32 (Number (PosInt n)) =
     (if uint n < 2 ^ 32 then Inr (ucast n) else Inl (InvalidValue ''integer'' ''u32''))"
| "de_u32 (Number (NegInt n)) =
     (if 0 \<le> sint n \<and> sint n < 2 ^ 32 then Inr (ucast n) else Inl (InvalidValue ''integer'' ''u32''))"
| "de_u32 _ = Inl (InvalidType ''u32'')"

definition de_value :: "value \<Rightarrow> de_error + value" where
  "de_value v = Inr (canon v)"

definition de_option :: "(value \<Rightarrow> de_error + 'a) \<Rightarrow> value \<Rightarrow> de_error + 'a option" where
  "de_option f v = (if v = Null then Inr None else map_ok Some (f v))"

text \<open>The deserializer the field \<open>result\<close> of \<open>WireResponse\<close> is read with.\<close>

definition some_value :: "value \<Rightarrow> de_error + value option" where
  "some_value v = map_ok Some (de_value v)"

text \<open>One member of a struct: reject a second occurrence, otherwise read and store it.\<close>

definition store_field ::
  "string \<Rightarrow> 'x option \<Rightarrow> de_error + 'x \<Rightarrow> ('x option \<Rightarrow> 's) \<Rightarrow> de_error + 's" where
  "store_field k old new upd =
     (if old \<noteq> None then Inl (DuplicateField k) else map_ok (\<lambda>x. upd (Some x)) new)"

definition required :: "string \<Rightarrow> 'x option \<Rightarrow> de_error + 'x" where
  "required k x = ok_or (MissingField k) x"

text \<open>A missing \<open>Option\<close> field, or one with \<open>default\<close>, reads as \<open>None\<close>.\<close>

primrec or_none :: "'x option option \<Rightarrow> 'x option" where
  "or_none None = None"
| "or_none (Some x) = x"

text \<open>The \<open>i\<close>-th element of an array read as a struct, and the check that none is left.\<close>

fun next_element ::
  "nat \<Rightarrow> (value \<Rightarrow> de_error + 'x) \<Rightarrow> value list \<Rightarrow> ('x \<Rightarrow> value list \<Rightarrow> de_error + 's) \<Rightarrow> de_error + 's"
where
  "next_element i f [] k = Inl (InvalidLength i)"
| "next_element i f (v # vs) k = and_then (f v) (\<lambda>x. k x vs)"

fun no_more :: "nat \<Rightarrow> value list \<Rightarrow> 's \<Rightarrow> de_error + 's" where
  "no_more i [] x = Inr x"
| "no_more i (v # vs) x = Inl (InvalidLength (i + length (v # vs)))"

section \<open>Request\<close>

record request_fields =
  rf_jsonrpc :: "version option"
  rf_method :: "string option"
  rf_params :: "value option option"
  rf_id :: "value option"

definition no_request_fields :: request_fields where
  "no_request_fields =
     \<lparr>rf_jsonrpc = None, rf_method = None, rf_params = None, rf_id = None\<rparr>"

fun request_field :: "string \<times> value \<Rightarrow> request_fields \<Rightarrow> de_error + request_fields" where
  "request_field (k, v) acc =
     (if k = ''jsonrpc'' then
        store_field k (rf_jsonrpc acc) (de_version v) (\<lambda>x. acc\<lparr>rf_jsonrpc := x\<rparr>)
      else if k = ''method'' then
        store_field k (rf_method acc) (de_string v) (\<lambda>x. acc\<lparr>rf_method := x\<rparr>)
      else if k = ''params'' then
        store_field k (rf_params acc) (de_option de_value v) (\<lambda>x. acc\<lparr>rf_params := x\<rparr>)
      else if k = ''id'' then
        store_field k (rf_id acc) (de_value v) (\<lambda>x. acc\<lparr>rf_id := x\<rparr>)
      else Inl (UnknownField k))"

definition request_of_fields :: "request_fields \<Rightarrow> de_error + request" where
  "request_of_fields acc =
     and_then (required ''jsonrpc'' (rf_jsonrpc acc)) (\<lambda>j.
     and_then (required ''method'' (rf_method acc)) (\<lambda>m.
     and_then (required ''id'' (rf_id acc)) (\<lambda>i.
       Inr \<lparr>req_jsonrpc = j, req_method = m, req_params = or_none (rf_params acc),
            req_id = i\<rparr>)))"

fun de_request :: "value \<Rightarrow> de_error + request" where
  "de_request (Object kvs) =
     and_then (fold_result request_field kvs no_request_fields) request_of_fields"
| "de_request (Array vs) =
     next_element 0 de_version vs (\<lambda>j vs.
     next_element 1 de_string vs (\<lambda>m vs.
     next_element 2 (de_option de_value) vs (\<lambda>p vs.
     next_element 3 de_value vs (\<lambda>i vs.
       no_more 4 vs \<lparr>req_jsonrpc = j, req_method = m, req_params = p, req_id = i\<rparr>))))"
| "de_request _ = Inl (InvalidType ''struct Request'')"

section \<open>RpcError\<close>

record rpc_error_fields =
  ef_code :: "i64 option"
  ef_message :: "string option"
  ef_data :: "value option option"

definition no_rpc_error_fields :: rpc_error_fields where
  "no_rpc_error_fields = \<lparr>ef_code = None, ef_message = None, ef_data = None\<rparr>"

fun rpc_error_field :: "string \<times> value \<Rightarrow> rpc_error_fields \<Rightarrow> de_error + rpc_error_fields" where
  "rpc_error_field (k, v) acc =
     (if k = ''code'' then
        store_field k (ef_code acc) (de_i64 v) (\<lambda>x. acc\<lparr>ef_code := x\<rparr>)
      else if k = ''message'' then
        store_field k (ef_message acc) (de_string v) (\<lambda>x. acc\<lparr>ef_message := x\<rparr>)
      else if k = ''data'' then
        store_field k (ef_data acc) (de_option de_value v) (\<lambda>x. acc\<lparr>ef_data := x\<rparr>)
      else Inl (UnknownField k))"

definition rpc_error_of_fields :: "rpc_error_fields \<Rightarrow> de_error + rpc_error" where
  "rpc_error_of_fields acc =
     and_then (required ''code'' (ef_code acc)) (\<lambda>c.
     and_then (required ''message'' (ef_message acc)) (\<lambda>m.
       Inr \<lparr>err_code = c, err_message = m, err_data = or_none (ef_data acc)\<rparr>))"

fun de_rpc_error :: "value \<Rightarrow> de_error + rpc_error" where
  "de_rpc_error (Object kvs) =
     and_then (fold_result rpc_error_field kvs no_rpc_error_fields) rpc_error_of_fields"
| "de_rpc_error (Array vs) =
     next_element 0 de_i64 vs (\<lambda>c vs.
     next_element 1 de_string vs (\<lambda>m vs.
     next_element 2 (de_option de_value) vs (\<lambda>d vs.
       no_more 3 vs \<lparr>err_code = c, err_message = m, err_data = d\<rparr>)))"
| "de_rpc_error _ = Inl (InvalidType ''struct RpcError'')"

section \<open>Response\<close>

record wire_response =
  wr_jsonrpc :: version
  wr_result :: "value option"
  wr_error :: "rpc_error option"
  wr_id :: "value"

record wire_response_fields =
  wf_jsonrpc :: "version option"
  wf_result :: "value option option"
  wf_error :: "rpc_error option option"
  wf_id :: "value option"

definition no_wire_response_fields :: wire_response_fields where
  "no_wire_response_fields =
     \<lparr>wf_jsonrpc = None, wf_result = None, wf_error = None, wf_id = None\<rparr>"

fun wire_response_field ::
  "string \<times> value \<Rightarrow> wire_response_fields \<Rightarrow> de_error + wire_response_fields"
where
  "wire_response_field (k, v) acc =
     (if k = ''jsonrpc'' then
        store_field k (wf_jsonrpc acc) (de_version v) (\<lambda>x. acc\<lparr>wf_jsonrpc := x\<rparr>)
      else if k = ''result'' then
        store_field k (wf_result acc) (some_value v) (\<lambda>x. acc\<lparr>wf_result := x\<rparr>)
      else if k = ''error'' then
        store_field k (wf_error acc) (de_option de_rpc_error v) (\<lambda>x. acc\<lparr>wf_error := x\<rparr>)
      else if k = ''id'' then
        store_field k (wf_id acc) (de_value v) (\<lambda>x. acc\<lparr>wf_id := x\<rparr>)
      else Inl (UnknownField k))"

definition wire_response_of_fields :: "wire_response_fields \<Rightarrow> de_error + wire_response" where
  "wire_response_of_fields acc =
     and_then (required ''jsonrpc'' (wf_jsonrpc acc)) (\<lambda>j.
     and_then (required ''id'' (wf_id acc)) (\<lambda>i.
       Inr \<lparr>wr_jsonrpc = j, wr_result = or_none (wf_result acc),
            wr_error = or_none (wf_error acc), wr_id = i\<rparr>))"

text \<open>In an array, \<open>result\<close> has a default where the array has ended.\<close>

fun de_wire_response :: "value \<Rightarrow> de_error + wire_response" where
  "de_wire_response (Object kvs) =
     and_then (fold_result wire_response_field kvs no_wire_response_fields)
       wire_response_of_fields"
| "de_wire_response (Array vs) =
     next_element 0 de_version vs (\<lambda>j vs.
     (if vs = [] then Inl (InvalidLength 2)
      else next_element 1 some_value vs (\<lambda>r vs.
           next_element 2 (de_option de_rpc_error) vs (\<lambda>e vs.
           next_element 3 de_value vs (\<lambda>i vs.
             no_more 4 vs \<lparr>wr_jsonrpc = j, wr_result = r, wr_error = e, wr_id = i\<rparr>)))))"
| "de_wire_response _ = Inl (InvalidType ''struct WireResponse'')"

definition response_of_wire :: "wire_response \<Rightarrow> de_error + response" where
  "response_of_wire wr =
     and_then
       (case (wr_result wr, wr_error wr) of
          (Some res, None) \<Rightarrow> Inr (Inr res)
        | (None, Some err) \<Rightarrow> Inr (Inl err)
        | _ \<Rightarrow> Inl (Custom ''Either 'error' or 'result' is expected, but not both''))
       (\<lambda>result. Inr \<lparr>resp_jsonrpc = Version, resp_result = result, resp_id = wr_id wr\<rparr>)"

definition de_response :: "value \<Rightarrow> de_error + response" where
  "de_response v = and_then (de_wire_response v) response_of_wire"

section \<open>Notification\<close>

record notification_fields =
  nf_jsonrpc :: "version option"
  nf_method :: "string option"
  nf_params :: "value option option"

definition no_notification_fields :: notification_fields where
  "no_notification_fields = \<lparr>nf_jsonrpc = None, nf_method = None, nf_params = None\<rparr>"

fun notification_field ::
  "string \<times> value \<Rightarrow> notification_fields \<Rightarrow> de_error + notification_fields"
where
  "notification_field (k, v) acc =
     (if k = ''jsonrpc'' then
        store_field k (nf_jsonrpc acc) (de_version v) (\<lambda>x. acc\<lparr>nf_jsonrpc := x\<rparr>)
      else if k = ''method'' then
        store_field k (nf_method acc) (de_string v) (\<lambda>x. acc\<lparr>nf_method := x\<rparr>)
      else if k = ''params'' then
        store_field k (nf_params acc) (de_option de_value v) (\<lambda>x. acc\<lparr>nf_params := x\<rparr>)
      else Inl (UnknownField k))"

definition notification_of_fields :: "notification_fields \<Rightarrow> de_error + notification" where
  "notification_of_fields acc =
     and_then (required ''jsonrpc'' (nf_jsonrpc acc)) (\<lambda>j.
     and_then (required ''method'' (nf_method acc)) (\<lambda>m.
       Inr \<lparr>notif_jsonrpc = j, notif_method = m, notif_params = or_none (nf_params acc)\<rparr>))"

fun de_notification :: "value \<Rightarrow> de_error + notification" where
  "de_notification (Object kvs) =
     and_then (fold_result notification_field kvs no_notification_fields)
       notification_of_fields"
| "de_notification (Array vs) =
     next_element 0 de_version vs (\<lambda>j vs.
     next_element 1 de_string vs (\<lambda>m vs.
     next_element 2 (de_option de_value) vs (\<lambda>p vs.
       no_more 3 vs \<lparr>notif_jsonrpc = j, notif_method = m, notif_params = p\<rparr>)))"
| "de_notification _ = Inl (InvalidType ''struct Notification'')"

section \<open>Message, Broken and WireMessage\<close>

text \<open>
  Untagged enums: the variants in declaration order, the first that reads wins.
\<close>

fun de_message :: "value \<Rightarrow> de_error + message"
and de_batch :: "value \<Rightarrow> de_error + message list"
and de_messages :: "value list \<Rightarrow> de_error + message list" where
  "de_message v =
     (case de_request v of Inr r \<Rightarrow> Inr (Request r) | Inl _ \<Rightarrow>
     (case de_response v of Inr r \<Rightarrow> Inr (Response r) | Inl _ \<Rightarrow>
     (case de_notification v of Inr n \<Rightarrow> Inr (Notification n) | Inl _ \<Rightarrow>
     (case de_batch v of Inr ms \<Rightarrow> Inr (Batch ms) | Inl _ \<Rightarrow>
     map_ok UnmatchedSub (de_value v)))))"
| "de_batch (Array vs) = de_messages vs"
| "de_batch _ = Inl (InvalidType ''a sequence'')"
| "de_messages [] = Inr []"
| "de_messages (v # vs) =
     and_then (de_message v) (\<lambda>m. map_ok ((#) m) (de_messages vs))"

definition de_broken :: "value \<Rightarrow> de_error + broken" where
  "de_broken v = map_ok Unmatched (de_value v)"

definition de_wire_message :: "value \<Rightarrow> de_error + wire_message" where
  "de_wire_message v =
     (case de_message v of Inr m \<Rightarrow> Inr (WireMessage m) | Inl _ \<Rightarrow> map_ok WireBroken (de_broken v))"

end
