(* ===== verification/Serde_Laws.thy ===== *)
theory Serde_Laws
  imports Serde
begin

text \<open>
  What serialization and deserialization promise each other: reading back what was written
  gives the message up to the one thing the format cannot say (an optional member that is
  present with \<open>null\<close>), and whatever a deserializer accepts survives another round.
  The contract is the locale \<open>wire_format\<close>, interpreted for every struct on the wire.
\<close>

section \<open>The contract\<close>

locale wire_format =
  fixes ser :: "'a \<Rightarrow> value"
    and de :: "value \<Rightarrow> de_error + 'a"
    and ok :: "'a \<Rightarrow> bool"
    and norm :: "'a \<Rightarrow> 'a"
  assumes de_ser: "ok x \<Longrightarrow> de (ser x) = Inr (norm x)"
    and de_ok: "de v = Inr x \<Longrightarrow> ok x"
    and de_norm: "de v = Inr x \<Longrightarrow> norm x = x"
begin

lemma reencode: "de v = Inr x \<Longrightarrow> de (ser x) = Inr x"
  using de_ser [of x] de_ok [of v x] de_norm [of v x] by simp

lemma ser_inj: "ok x \<Longrightarrow> ok y \<Longrightarrow> ser x = ser y \<Longrightarrow> norm x = norm y"
  using de_ser [of x] de_ser [of y] by simp

lemma norm_stable: "ok x \<Longrightarrow> ok (norm x) \<and> norm (norm x) = norm x"
  using de_ser [of x] de_ok de_norm by blast

end

section \<open>Rules for the pieces\<close>

lemma store_field_eq_Inr [result_simps]:
  "store_field k old new upd = Inr s \<longleftrightarrow> old = None \<and> (\<exists>x. new = Inr x \<and> s = upd (Some x))"
  by (auto simp: store_field_def result_simps)

lemma required_eq_Inr [result_simps]: "required k x = Inr y \<longleftrightarrow> x = Some y"
  by (simp add: required_def result_simps)

lemma next_element_eq_Inr [result_simps]:
  "next_element i f vs k = Inr s \<longleftrightarrow> (\<exists>v vs' x. vs = v # vs' \<and> f v = Inr x \<and> k x vs' = Inr s)"
  by (cases vs) (auto simp: result_simps)

lemma no_more_eq_Inr [result_simps]: "no_more i vs x = Inr y \<longleftrightarrow> vs = [] \<and> y = x"
  by (cases vs) auto

lemma de_version_eq_Inr [simp]: "de_version v = Inr x \<longleftrightarrow> v = String ''2.0'' \<and> x = Version"
  by (cases v) (auto intro: version.exhaust)

lemma de_string_eq_Inr [simp]: "de_string v = Inr s \<longleftrightarrow> v = String s"
  by (cases v) auto

lemma de_value_eq_Inr [simp]: "de_value v = Inr x \<longleftrightarrow> x = canon v"
  by (auto simp: de_value_def)

lemma some_value_eq_Inr [simp]: "some_value v = Inr x \<longleftrightarrow> x = Some (canon v)"
  by (auto simp: some_value_def result_simps)

lemma de_option_Null [simp]: "de_option f Null = Inr None"
  by (simp add: de_option_def)

lemma de_option_eq_Inr:
  "de_option f v = Inr x \<longleftrightarrow>
     (if v = Null then x = None else (\<exists>y. f v = Inr y \<and> x = Some y))"
  by (auto simp: de_option_def result_simps)

lemma store_field_succeeds:
  "(\<exists>s. store_field k old new upd = Inr s) \<longleftrightarrow> old = None \<and> (\<exists>x. new = Inr x)"
  by (auto simp: store_field_eq_Inr)

lemma de_option_succeeds: "(\<exists>x. de_option f v = Inr x) \<longleftrightarrow> v = Null \<or> (\<exists>y. f v = Inr y)"
  by (auto simp: de_option_eq_Inr)

lemma canon_eq_Null [simp]: "canon v = Null \<longleftrightarrow> v = Null"
  by (cases v) auto

lemma ser_version_eq [simp]: "ser_version v = String ''2.0''"
  by (cases v) simp

lemma version_eq [simp]: "(v :: version) = w"
  by (cases v; cases w) simp

section \<open>i64\<close>

lemma uint_less_of_sint_nonneg:
  assumes "0 \<le> sint (c :: i64)"
  shows "uint c < 2 ^ 63"
proof -
  have "\<not> bit (uint c) 63"
    using assms bit_last_iff [of c] by (simp add: bit_uint_iff)
  then have "take_bit 64 (uint c) = take_bit 63 (uint c)"
    using take_bit_Suc_from_most [of 63 "uint c"] by simp
  moreover have "take_bit 64 (uint c) = uint c"
    using take_bit_int_eq_self [of "uint c" 64] uint_lt2p [of c] by simp
  moreover have "take_bit 63 (uint c) < (2 :: int) ^ 63"
    by (rule take_bit_int_less_exp)
  ultimately show ?thesis by simp
qed

lemma de_i64_ser: "de_i64 (ser_i64 c) = Inr c"
  using uint_less_of_sint_nonneg [of c] by (cases "sint c < 0") (simp_all add: ser_i64_def)

interpretation i64_wire: wire_format ser_i64 de_i64 "\<lambda>_. True" "\<lambda>c. c"
  by unfold_locales (auto simp: de_i64_ser)

section \<open>The loop of a derived visit_map\<close>

text \<open>
  One field of a struct: \<open>get\<close> is its slot among the fields read so far.  A member with its
  name must find the slot empty and fills it; other members leave it alone.  Then the whole
  loop fills the slot from the one member with that name.
\<close>

locale struct_slot =
  fixes step :: "string \<times> value \<Rightarrow> 's \<Rightarrow> de_error + 's"
    and name :: string
    and read :: "value \<Rightarrow> de_error + 'x"
    and get :: "'s \<Rightarrow> 'x option"
  assumes hit: "step (name, v) s = Inr t \<Longrightarrow> get s = None \<and> (\<exists>x. read v = Inr x \<and> get t = Some x)"
    and miss: "step (k, v) s = Inr t \<Longrightarrow> k \<noteq> name \<Longrightarrow> get t = get s"
begin

lemma get_fold:
  "fold_result step kvs s = Inr t \<Longrightarrow>
   (case map_of kvs name of
      None \<Rightarrow> get t = get s
    | Some v \<Rightarrow> get s = None \<and> (\<exists>x. read v = Inr x \<and> get t = Some x))"
proof (induction kvs arbitrary: s)
  case Nil
  then show ?case by simp
next
  case (Cons kv kvs)
  obtain k v where kv: "kv = (k, v)" by (cases kv)
  from Cons.prems kv obtain u where u: "step (k, v) s = Inr u" and t: "fold_result step kvs u = Inr t"
    by (auto simp: result_simps)
  show ?case
  proof (cases "k = name")
    case True
    with u hit [of v s u] obtain x where "get s = None" "read v = Inr x" "get u = Some x" by auto
    with Cons.IH [OF t] kv True show ?thesis by (auto split: option.splits)
  next
    case False
    with u miss have "get u = get s" by blast
    with Cons.IH [OF t] kv False show ?thesis by (auto split: option.splits)
  qed
qed

end

text \<open>
  All fields of a struct under \<open>deny_unknown_fields\<close>: \<open>filled\<close> are the names already
  read.  The loop succeeds exactly when the member names are distinct, known, not yet read,
  and every member is readable.
\<close>

locale struct_reader =
  fixes step :: "string \<times> value \<Rightarrow> 's \<Rightarrow> de_error + 's"
    and names :: "string set"
    and readable :: "string \<Rightarrow> value \<Rightarrow> bool"
    and filled :: "'s \<Rightarrow> string \<Rightarrow> bool"
  assumes step_iff: "(\<exists>t. step (k, v) s = Inr t) \<longleftrightarrow> k \<in> names \<and> \<not> filled s k \<and> readable k v"
    and filled_step: "step (k, v) s = Inr t \<Longrightarrow> filled t l \<longleftrightarrow> l = k \<or> filled s l"
begin

lemma fold_iff:
  "(\<exists>t. fold_result step kvs s = Inr t) \<longleftrightarrow>
     distinct (map fst kvs) \<and> (\<forall>(k, v) \<in> set kvs. k \<in> names \<and> \<not> filled s k \<and> readable k v)"
proof (induction kvs arbitrary: s)
  case Nil
  then show ?case by simp
next
  case (Cons kv kvs)
  obtain k v where kv: "kv = (k, v)" by (cases kv)
  show ?case
  proof (cases "step (k, v) s")
    case (Inl e)
    then show ?thesis using step_iff [of k v s] kv by auto
  next
    case (Inr u)
    have u: "filled u l \<longleftrightarrow> l = k \<or> filled s l" for l using Inr by (rule filled_step)
    have k: "k \<in> names \<and> \<not> filled s k \<and> readable k v" using Inr step_iff [of k v s] by auto
    have "(\<exists>t. fold_result step (kv # kvs) s = Inr t) \<longleftrightarrow> (\<exists>t. fold_result step kvs u = Inr t)"
      by (simp add: kv Inr)
    also have "\<dots> \<longleftrightarrow> distinct (map fst kvs) \<and>
        (\<forall>(k', v') \<in> set kvs. k' \<in> names \<and> k' \<noteq> k \<and> \<not> filled s k' \<and> readable k' v')"
      by (simp only: Cons.IH u de_Morgan_disj conj_assoc)
    also have "\<dots> \<longleftrightarrow> k \<notin> fst ` set kvs \<and> distinct (map fst kvs) \<and>
        (\<forall>(k', v') \<in> set kvs. k' \<in> names \<and> \<not> filled s k' \<and> readable k' v')"
      by (fastforce simp: image_iff)
    finally show ?thesis using k by (simp add: kv)
  qed
qed

end

section \<open>Optional members\<close>

definition norm_option :: "value option \<Rightarrow> value option" where
  "norm_option x = (if x = Some Null then None else x)"

definition ok_option :: "value option \<Rightarrow> bool" where
  "ok_option x = pred_option wf_value x"

lemma de_option_value_ok:
  "de_option de_value v = Inr x \<Longrightarrow> ok_option x \<and> norm_option x = x"
  by (auto simp: de_option_eq_Inr ok_option_def norm_option_def split: if_splits)

lemma de_option_value_wf: "wf_value v \<Longrightarrow> de_option de_value v = Inr (norm_option (Some v))"
  by (simp add: de_option_def norm_option_def de_value_def)

lemma ok_option_simps [simp]: "ok_option None" "ok_option (Some v) \<longleftrightarrow> wf_value v"
  by (simp_all add: ok_option_def)

lemma norm_option_None [simp]: "norm_option None = None"
  by (simp add: norm_option_def)

text \<open>An optional member of an object, as its field is read.\<close>

definition opt_member :: "value option \<Rightarrow> value option" where
  "opt_member x = (case x of None \<Rightarrow> None | Some v \<Rightarrow> if v = Null then None else Some (canon v))"

lemma opt_member_eq: "or_none (map_option (\<lambda>v. if v = Null then None else Some (canon v)) x) = opt_member x"
  by (cases x) (auto simp: opt_member_def)

lemma opt_member_ok: "ok_option (opt_member x) \<and> norm_option (opt_member x) = opt_member x"
  by (auto simp: opt_member_def ok_option_def norm_option_def split: option.splits)

section \<open>Request\<close>

definition ok_request :: "request \<Rightarrow> bool" where
  "ok_request r \<longleftrightarrow> ok_option (req_params r) \<and> wf_value (req_id r)"

definition norm_request :: "request \<Rightarrow> request" where
  "norm_request r = r\<lparr>req_params := norm_option (req_params r)\<rparr>"

text \<open>The fields of \<open>Request\<close>, one slot each.\<close>

interpretation request_jsonrpc: struct_slot request_field "''jsonrpc''" de_version rf_jsonrpc
  by unfold_locales (auto simp: store_field_eq_Inr split: if_split_asm)

interpretation request_method: struct_slot request_field "''method''" de_string rf_method
  by unfold_locales (auto simp: store_field_eq_Inr split: if_split_asm)

interpretation request_params: struct_slot request_field "''params''" "de_option de_value" rf_params
  by unfold_locales (auto simp: store_field_eq_Inr split: if_split_asm)

interpretation request_id: struct_slot request_field "''id''" de_value rf_id
  by unfold_locales (auto simp: store_field_eq_Inr split: if_split_asm)

definition request_readable :: "string \<Rightarrow> value \<Rightarrow> bool" where
  "request_readable k v \<longleftrightarrow>
     (k = ''jsonrpc'' \<longrightarrow> v = String ''2.0'') \<and> (k = ''method'' \<longrightarrow> as_str v \<noteq> None)"

definition request_filled :: "request_fields \<Rightarrow> string \<Rightarrow> bool" where
  "request_filled s k \<longleftrightarrow>
     (if k = ''jsonrpc'' then rf_jsonrpc s \<noteq> None
      else if k = ''method'' then rf_method s \<noteq> None
      else if k = ''params'' then rf_params s \<noteq> None
      else k = ''id'' \<and> rf_id s \<noteq> None)"

abbreviation request_names :: "string set" where
  "request_names \<equiv> {''jsonrpc'', ''method'', ''params'', ''id''}"

interpretation request_reader:
  struct_reader request_field request_names request_readable request_filled
proof
  fix k v s
  show "(\<exists>t. request_field (k, v) s = Inr t) \<longleftrightarrow>
    k \<in> request_names \<and> \<not> request_filled s k \<and> request_readable k v"
  proof (cases "k \<in> request_names")
    case True
    then show ?thesis
      by (elim insertE emptyE)
         (simp_all add: store_field_succeeds de_option_succeeds request_readable_def request_filled_def)
  qed simp
next
  fix k v s t l
  assume "request_field (k, v) s = Inr t"
  moreover from this have "k \<in> request_names" by (simp split: if_split_asm)
  ultimately show "request_filled t l \<longleftrightarrow> l = k \<or> request_filled s l"
    by (elim insertE emptyE) (clarsimp simp: store_field_eq_Inr request_filled_def)+
qed

lemma request_filled_none [simp]: "\<not> request_filled no_request_fields k"
  by (simp add: request_filled_def no_request_fields_def)

lemma fold_no_request_fields:
  "(\<exists>t. fold_result request_field kvs no_request_fields = Inr t) \<longleftrightarrow>
     distinct (map fst kvs) \<and> (\<forall>(k, v) \<in> set kvs. k \<in> request_names \<and> request_readable k v)"
  by (simp only: request_reader.fold_iff request_filled_none simp_thms)

text \<open>
  Which objects are requests, and which request each is: the loop against its meaning.
\<close>

lemma de_request_fields:
  assumes "fold_result request_field kvs no_request_fields = Inr t"
  shows "rf_jsonrpc t = map_option (\<lambda>_. Version) (map_of kvs ''jsonrpc'')"
    and "rf_method t = Option.bind (map_of kvs ''method'') as_str"
    and "rf_params t = map_option (\<lambda>v. if v = Null then None else Some (canon v)) (map_of kvs ''params'')"
    and "rf_id t = map_option canon (map_of kvs ''id'')"
  using request_jsonrpc.get_fold [OF assms] request_method.get_fold [OF assms]
    request_params.get_fold [OF assms] request_id.get_fold [OF assms]
  by (auto simp: no_request_fields_def de_option_eq_Inr split: option.splits if_splits)

lemma de_request_Object:
  "de_request (Object kvs) = Inr r \<longleftrightarrow>
     distinct (map fst kvs) \<and> fst ` set kvs \<subseteq> request_names \<and>
     map_of kvs ''jsonrpc'' = Some (String ''2.0'') \<and>
     map_of kvs ''method'' = Some (String (req_method r)) \<and>
     map_option canon (map_of kvs ''id'') = Some (req_id r) \<and>
     req_params r = opt_member (map_of kvs ''params'')"
  (is "?L \<longleftrightarrow> ?R")
proof
  assume ?L
  then obtain t where t: "fold_result request_field kvs no_request_fields = Inr t"
    and r: "request_of_fields t = Inr r" by (auto simp: result_simps)
  from t have ok: "distinct (map fst kvs)"
    "\<forall>(k, v) \<in> set kvs. k \<in> request_names \<and> request_readable k v"
    using fold_no_request_fields [of kvs] by blast+
  then have "map_of kvs ''jsonrpc'' = Some v \<Longrightarrow> v = String ''2.0''" for v
    by (auto simp: request_readable_def dest!: map_of_SomeD)
  with ok r de_request_fields [OF t] show ?R
    by (auto simp: request_of_fields_def result_simps opt_member_eq bind_eq_Some_conv)
next
  assume R: ?R
  then have "\<forall>(k, v) \<in> set kvs. k \<in> request_names \<and> request_readable k v"
    by (auto simp: request_readable_def dest: map_of_is_SomeI)
  with R obtain t where t: "fold_result request_field kvs no_request_fields = Inr t"
    using fold_no_request_fields [of kvs] by blast
  from R de_request_fields [OF t] show ?L
    by (cases r) (auto simp: t request_of_fields_def required_def opt_member_eq)
qed


lemma de_request_ok: "de_request v = Inr r \<Longrightarrow> ok_request r \<and> norm_request r = r"
proof (cases v)
  case (Array vs)
  moreover assume "de_request v = Inr r"
  ultimately show ?thesis
    by (auto simp: result_simps ok_request_def norm_request_def dest: de_option_value_ok)
next
  case (Object kvs)
  moreover assume "de_request v = Inr r"
  ultimately have "map_option canon (map_of kvs ''id'') = Some (req_id r)"
    "req_params r = opt_member (map_of kvs ''params'')"
    by (auto simp only: de_request_Object)
  moreover from this(1) have "wf_value (req_id r)" by (metis map_option_eq_Some wf_canon)
  ultimately show ?thesis
    using opt_member_ok by (auto simp: ok_request_def norm_request_def)
qed simp_all

lemma de_request_ser: "ok_request r \<Longrightarrow> de_request (ser_request r) = Inr (norm_request r)"
  by (cases r; cases "req_params r")
     (simp_all add: ser_request_def ok_request_def norm_request_def no_request_fields_def
        store_field_def request_of_fields_def required_def de_value_def de_option_value_wf)

interpretation request_wire: wire_format ser_request de_request ok_request norm_request
  by unfold_locales (auto simp: de_request_ser dest: de_request_ok)

section \<open>RpcError\<close>

interpretation rpc_error_code: struct_slot rpc_error_field "''code''" de_i64 ef_code
  by unfold_locales (auto simp: store_field_eq_Inr split: if_split_asm)

interpretation rpc_error_message: struct_slot rpc_error_field "''message''" de_string ef_message
  by unfold_locales (auto simp: store_field_eq_Inr split: if_split_asm)

interpretation rpc_error_data: struct_slot rpc_error_field "''data''" "de_option de_value" ef_data
  by unfold_locales (auto simp: store_field_eq_Inr split: if_split_asm)

definition rpc_error_readable :: "string \<Rightarrow> value \<Rightarrow> bool" where
  "rpc_error_readable k v \<longleftrightarrow>
     (k = ''code'' \<longrightarrow> (\<exists>c. de_i64 v = Inr c)) \<and> (k = ''message'' \<longrightarrow> as_str v \<noteq> None)"

definition rpc_error_filled :: "rpc_error_fields \<Rightarrow> string \<Rightarrow> bool" where
  "rpc_error_filled s k \<longleftrightarrow>
     (if k = ''code'' then ef_code s \<noteq> None
      else if k = ''message'' then ef_message s \<noteq> None
      else k = ''data'' \<and> ef_data s \<noteq> None)"

abbreviation rpc_error_names :: "string set" where
  "rpc_error_names \<equiv> {''code'', ''message'', ''data''}"

interpretation rpc_error_reader:
  struct_reader rpc_error_field rpc_error_names rpc_error_readable rpc_error_filled
proof
  fix k v s
  show "(\<exists>t. rpc_error_field (k, v) s = Inr t) \<longleftrightarrow>
    k \<in> rpc_error_names \<and> \<not> rpc_error_filled s k \<and> rpc_error_readable k v"
  proof (cases "k \<in> rpc_error_names")
    case True
    then show ?thesis
      by (elim insertE emptyE)
         (simp_all add: store_field_succeeds de_option_succeeds rpc_error_readable_def rpc_error_filled_def)
  qed simp
next
  fix k v s t l
  assume "rpc_error_field (k, v) s = Inr t"
  moreover from this have "k \<in> rpc_error_names" by (simp split: if_split_asm)
  ultimately show "rpc_error_filled t l \<longleftrightarrow> l = k \<or> rpc_error_filled s l"
    by (elim insertE emptyE) (clarsimp simp: store_field_eq_Inr rpc_error_filled_def)+
qed

lemma rpc_error_filled_none [simp]: "\<not> rpc_error_filled no_rpc_error_fields k"
  by (simp add: rpc_error_filled_def no_rpc_error_fields_def)

lemma fold_no_rpc_error_fields:
  "(\<exists>t. fold_result rpc_error_field kvs no_rpc_error_fields = Inr t) \<longleftrightarrow>
     distinct (map fst kvs) \<and> (\<forall>(k, v) \<in> set kvs. k \<in> rpc_error_names \<and> rpc_error_readable k v)"
  by (simp only: rpc_error_reader.fold_iff rpc_error_filled_none simp_thms)

lemma de_rpc_error_fields:
  assumes "fold_result rpc_error_field kvs no_rpc_error_fields = Inr t"
  shows "ef_code t = Option.bind (map_of kvs ''code'') (\<lambda>v. ok_of (de_i64 v))"
    and "ef_message t = Option.bind (map_of kvs ''message'') as_str"
    and "ef_data t = map_option (\<lambda>v. if v = Null then None else Some (canon v)) (map_of kvs ''data'')"
  using rpc_error_code.get_fold [OF assms] rpc_error_message.get_fold [OF assms]
    rpc_error_data.get_fold [OF assms]
  by (auto simp: no_rpc_error_fields_def de_option_eq_Inr split: option.splits if_splits)

lemma de_rpc_error_Object:
  "de_rpc_error (Object kvs) = Inr e \<longleftrightarrow>
     distinct (map fst kvs) \<and> fst ` set kvs \<subseteq> rpc_error_names \<and>
     (\<exists>v. map_of kvs ''code'' = Some v \<and> de_i64 v = Inr (err_code e)) \<and>
     map_of kvs ''message'' = Some (String (err_message e)) \<and>
     err_data e = opt_member (map_of kvs ''data'')"
  (is "?L \<longleftrightarrow> ?R")
proof
  assume ?L
  then obtain t where t: "fold_result rpc_error_field kvs no_rpc_error_fields = Inr t"
    and e: "rpc_error_of_fields t = Inr e" by (auto simp: result_simps)
  from t have "distinct (map fst kvs)"
    "\<forall>(k, v) \<in> set kvs. k \<in> rpc_error_names \<and> rpc_error_readable k v"
    using fold_no_rpc_error_fields [of kvs] by blast+
  with e de_rpc_error_fields [OF t] show ?R
    by (auto simp: rpc_error_of_fields_def result_simps opt_member_eq bind_eq_Some_conv)
next
  assume R: ?R
  then have "\<forall>(k, v) \<in> set kvs. k \<in> rpc_error_names \<and> rpc_error_readable k v"
    by (auto simp: rpc_error_readable_def dest: map_of_is_SomeI)
  with R obtain t where t: "fold_result rpc_error_field kvs no_rpc_error_fields = Inr t"
    using fold_no_rpc_error_fields [of kvs] by blast
  from R de_rpc_error_fields [OF t] show ?L
    by (cases e) (auto simp: t rpc_error_of_fields_def required_def opt_member_eq)
qed

definition ok_rpc_error :: "rpc_error \<Rightarrow> bool" where
  "ok_rpc_error e \<longleftrightarrow> ok_option (err_data e)"

definition norm_rpc_error :: "rpc_error \<Rightarrow> rpc_error" where
  "norm_rpc_error e = e\<lparr>err_data := norm_option (err_data e)\<rparr>"

lemma de_rpc_error_ok: "de_rpc_error v = Inr e \<Longrightarrow> ok_rpc_error e \<and> norm_rpc_error e = e"
proof (cases v)
  case (Array vs)
  moreover assume "de_rpc_error v = Inr e"
  ultimately show ?thesis
    by (auto simp: result_simps ok_rpc_error_def norm_rpc_error_def dest: de_option_value_ok)
next
  case (Object kvs)
  moreover assume "de_rpc_error v = Inr e"
  ultimately have "err_data e = opt_member (map_of kvs ''data'')"
    by (auto simp only: de_rpc_error_Object)
  then show ?thesis
    using opt_member_ok by (auto simp: ok_rpc_error_def norm_rpc_error_def)
qed simp_all

lemma de_rpc_error_ser: "ok_rpc_error e \<Longrightarrow> de_rpc_error (ser_rpc_error e) = Inr (norm_rpc_error e)"
  by (cases e; cases "err_data e")
     (simp_all add: ser_rpc_error_def ok_rpc_error_def norm_rpc_error_def no_rpc_error_fields_def
        store_field_def rpc_error_of_fields_def required_def de_i64_ser de_option_value_wf)

interpretation rpc_error_wire: wire_format ser_rpc_error de_rpc_error ok_rpc_error norm_rpc_error
  by unfold_locales (auto simp: de_rpc_error_ser dest: de_rpc_error_ok)


section \<open>Response\<close>

interpretation response_jsonrpc: struct_slot wire_response_field "''jsonrpc''" de_version wf_jsonrpc
  by unfold_locales (auto simp: store_field_eq_Inr split: if_split_asm)

interpretation response_result: struct_slot wire_response_field "''result''" some_value wf_result
  by unfold_locales (auto simp: store_field_eq_Inr split: if_split_asm)

interpretation response_error:
  struct_slot wire_response_field "''error''" "de_option de_rpc_error" wf_error
  by unfold_locales (auto simp: store_field_eq_Inr split: if_split_asm)

interpretation response_id: struct_slot wire_response_field "''id''" de_value wf_id
  by unfold_locales (auto simp: store_field_eq_Inr split: if_split_asm)

definition response_readable :: "string \<Rightarrow> value \<Rightarrow> bool" where
  "response_readable k v \<longleftrightarrow>
     (k = ''jsonrpc'' \<longrightarrow> v = String ''2.0'') \<and>
     (k = ''error'' \<longrightarrow> v = Null \<or> (\<exists>e. de_rpc_error v = Inr e))"

definition response_filled :: "wire_response_fields \<Rightarrow> string \<Rightarrow> bool" where
  "response_filled s k \<longleftrightarrow>
     (if k = ''jsonrpc'' then wf_jsonrpc s \<noteq> None
      else if k = ''result'' then wf_result s \<noteq> None
      else if k = ''error'' then wf_error s \<noteq> None
      else k = ''id'' \<and> wf_id s \<noteq> None)"

abbreviation response_names :: "string set" where
  "response_names \<equiv> {''jsonrpc'', ''result'', ''error'', ''id''}"

interpretation response_reader:
  struct_reader wire_response_field response_names response_readable response_filled
proof
  fix k v s
  show "(\<exists>t. wire_response_field (k, v) s = Inr t) \<longleftrightarrow>
    k \<in> response_names \<and> \<not> response_filled s k \<and> response_readable k v"
  proof (cases "k \<in> response_names")
    case True
    then show ?thesis
      by (elim insertE emptyE)
         (simp_all add: store_field_succeeds de_option_succeeds response_readable_def response_filled_def)
  qed simp
next
  fix k v s t l
  assume "wire_response_field (k, v) s = Inr t"
  moreover from this have "k \<in> response_names" by (simp split: if_split_asm)
  ultimately show "response_filled t l \<longleftrightarrow> l = k \<or> response_filled s l"
    by (elim insertE emptyE) (clarsimp simp: store_field_eq_Inr response_filled_def)+
qed

lemma response_filled_none [simp]: "\<not> response_filled no_wire_response_fields k"
  by (simp add: response_filled_def no_wire_response_fields_def)

lemma fold_no_wire_response_fields:
  "(\<exists>t. fold_result wire_response_field kvs no_wire_response_fields = Inr t) \<longleftrightarrow>
     distinct (map fst kvs) \<and> (\<forall>(k, v) \<in> set kvs. k \<in> response_names \<and> response_readable k v)"
  by (simp only: response_reader.fold_iff response_filled_none simp_thms)

text \<open>The error member, \<open>null\<close> read as absent.\<close>

definition error_member :: "value option \<Rightarrow> rpc_error option" where
  "error_member x = Option.bind x (\<lambda>v. ok_of (de_rpc_error v))"

lemma de_wire_response_fields:
  assumes "fold_result wire_response_field kvs no_wire_response_fields = Inr t"
  shows "wf_jsonrpc t = map_option (\<lambda>_. Version) (map_of kvs ''jsonrpc'')"
    and "or_none (wf_result t) = map_option canon (map_of kvs ''result'')"
    and "or_none (wf_error t) = error_member (map_of kvs ''error'')"
    and "wf_id t = map_option canon (map_of kvs ''id'')"
  using response_jsonrpc.get_fold [OF assms] response_result.get_fold [OF assms]
    response_error.get_fold [OF assms] response_id.get_fold [OF assms]
  by (auto simp: no_wire_response_fields_def de_option_eq_Inr error_member_def
      split: option.splits if_splits)

text \<open>Exactly one of result and error.\<close>

fun either_member :: "value option \<Rightarrow> rpc_error option \<Rightarrow> (rpc_error + value) option" where
  "either_member (Some v) None = Some (Inr v)"
| "either_member None (Some e) = Some (Inl e)"
| "either_member _ _ = None"

lemma response_of_wire_eq_Inr:
  "response_of_wire wr = Inr r \<longleftrightarrow>
     either_member (wr_result wr) (wr_error wr) = Some (resp_result r) \<and> resp_id r = wr_id wr"
  by (cases r) (auto simp: response_of_wire_def split: option.splits)

lemma wire_response_of_fields_eq_Inr:
  "wire_response_of_fields t = Inr wr \<longleftrightarrow>
     wf_jsonrpc t \<noteq> None \<and> wf_id t = Some (wr_id wr) \<and>
     wr_result wr = or_none (wf_result t) \<and> wr_error wr = or_none (wf_error t)"
  by (cases wr) (auto simp: wire_response_of_fields_def result_simps)

lemma response_of_fields_eq_Inr:
  "and_then (wire_response_of_fields t) response_of_wire = Inr r \<longleftrightarrow>
     wf_jsonrpc t \<noteq> None \<and> wf_id t = Some (resp_id r) \<and>
     either_member (or_none (wf_result t)) (or_none (wf_error t)) = Some (resp_result r)"
  (is "?L \<longleftrightarrow> ?R")
proof
  assume ?L
  then obtain wr where "wire_response_of_fields t = Inr wr" "response_of_wire wr = Inr r"
    by (auto simp: and_then_eq_Inr)
  then show ?R by (simp add: response_of_wire_eq_Inr wire_response_of_fields_eq_Inr)
next
  assume R: ?R
  define wr where "wr = \<lparr>wr_jsonrpc = Version, wr_result = or_none (wf_result t),
    wr_error = or_none (wf_error t), wr_id = resp_id r\<rparr>"
  have "wire_response_of_fields t = Inr wr" and "response_of_wire wr = Inr r"
    using R by (simp_all add: wr_def response_of_wire_eq_Inr wire_response_of_fields_eq_Inr)
  then show ?L by simp
qed

definition response_of_members :: "value option \<Rightarrow> value option \<Rightarrow> (rpc_error + value) option" where
  "response_of_members res err = either_member (map_option canon res) (error_member err)"

lemma de_response_Object:
  "de_response (Object kvs) = Inr r \<longleftrightarrow>
     distinct (map fst kvs) \<and> fst ` set kvs \<subseteq> response_names \<and>
     map_of kvs ''jsonrpc'' = Some (String ''2.0'') \<and>
     (\<forall>v. map_of kvs ''error'' = Some v \<longrightarrow> v = Null \<or> (\<exists>e. de_rpc_error v = Inr e)) \<and>
     response_of_members (map_of kvs ''result'') (map_of kvs ''error'') = Some (resp_result r) \<and>
     map_option canon (map_of kvs ''id'') = Some (resp_id r)"
  (is "?L \<longleftrightarrow> ?R")
proof
  assume ?L
  then obtain t where t: "fold_result wire_response_field kvs no_wire_response_fields = Inr t"
    and r: "and_then (wire_response_of_fields t) response_of_wire = Inr r"
    by (auto simp: de_response_def and_then_eq_Inr)
  from t have ok: "distinct (map fst kvs)"
    "\<forall>(k, v) \<in> set kvs. k \<in> response_names \<and> response_readable k v"
    using fold_no_wire_response_fields [of kvs] by blast+
  then have readable: "response_readable k v" if "map_of kvs k = Some v" for k v
    using map_of_SomeD [OF that] by blast
  have error: "\<forall>v. map_of kvs ''error'' = Some v \<longrightarrow> v = Null \<or> (\<exists>e. de_rpc_error v = Inr e)"
    using readable [of "''error''"] by (simp add: response_readable_def)
  have jsonrpc: "map_of kvs ''jsonrpc'' = None \<or> map_of kvs ''jsonrpc'' = Some (String ''2.0'')"
    using readable [of "''jsonrpc''"]
    by (cases "map_of kvs ''jsonrpc''") (simp_all add: response_readable_def)
  have names: "fst ` set kvs \<subseteq> response_names" using ok(2) by fastforce
  show ?R
    using ok(1) names error jsonrpc r
    unfolding response_of_fields_eq_Inr de_wire_response_fields [OF t] response_of_members_def
    by - (elim disjE; simp)
next
  assume R: ?R
  then have "\<forall>(k, v) \<in> set kvs. k \<in> response_names \<and> response_readable k v"
    by (auto simp: response_readable_def dest: map_of_is_SomeI)
  with R obtain t where t: "fold_result wire_response_field kvs no_wire_response_fields = Inr t"
    using fold_no_wire_response_fields [of kvs] by blast
  from R de_wire_response_fields [OF t]
  have "and_then (wire_response_of_fields t) response_of_wire = Inr r"
    by (auto simp: response_of_fields_eq_Inr response_of_members_def)
  then show ?L by (simp add: de_response_def t)
qed

definition ok_response :: "response \<Rightarrow> bool" where
  "ok_response r \<longleftrightarrow> pred_sum ok_rpc_error wf_value (resp_result r) \<and> wf_value (resp_id r)"

definition norm_response :: "response \<Rightarrow> response" where
  "norm_response r = r\<lparr>resp_result := map_sum norm_rpc_error (\<lambda>v. v) (resp_result r)\<rparr>"

lemma error_member_ok:
  "error_member x = Some e \<Longrightarrow> ok_rpc_error e \<and> norm_rpc_error e = e"
  by (auto simp: error_member_def bind_eq_Some_conv dest: de_rpc_error_ok)

lemma response_of_members_ok:
  "response_of_members a b = Some x \<Longrightarrow>
   pred_sum ok_rpc_error wf_value x \<and> map_sum norm_rpc_error (\<lambda>v. v) x = x"
  by (cases a; cases "error_member b") (auto simp: response_of_members_def dest: error_member_ok)

lemma de_response_ok: "de_response v = Inr r \<Longrightarrow> ok_response r \<and> norm_response r = r"
proof (cases v)
  case (Array vs)
  moreover assume "de_response v = Inr r"
  ultimately obtain wr where wr: "de_wire_response (Array vs) = Inr wr" "response_of_wire wr = Inr r"
    by (auto simp: de_response_def and_then_eq_Inr)
  from wr(1) have "ok_option (wr_result wr)" "wf_value (wr_id wr)"
    "pred_option (\<lambda>e. ok_rpc_error e \<and> norm_rpc_error e = e) (wr_error wr)"
    by (auto simp: result_simps de_option_eq_Inr dest: de_rpc_error_ok split: if_splits)
  with wr(2) show ?thesis
    by (cases r; cases "wr_result wr"; cases "wr_error wr")
       (auto simp: response_of_wire_eq_Inr ok_response_def norm_response_def)
next
  case (Object kvs)
  moreover assume "de_response v = Inr r"
  ultimately have "map_option canon (map_of kvs ''id'') = Some (resp_id r)"
    "response_of_members (map_of kvs ''result'') (map_of kvs ''error'') = Some (resp_result r)"
    by (auto simp only: de_response_Object)
  moreover from this(1) have "wf_value (resp_id r)" by (metis map_option_eq_Some wf_canon)
  ultimately show ?thesis
    using response_of_members_ok by (auto simp: ok_response_def norm_response_def)
qed (simp_all add: de_response_def)

lemma ser_rpc_error_not_Null [simp]: "ser_rpc_error e \<noteq> Null"
  by (simp add: ser_rpc_error_def)

lemma de_response_ser: "ok_response r \<Longrightarrow> de_response (ser_response r) = Inr (norm_response r)"
  by (cases r; cases "resp_result r")
     (simp_all add: ser_response_def ok_response_def norm_response_def no_wire_response_fields_def
        de_response_def response_of_wire_def store_field_def wire_response_of_fields_def
        required_def de_value_def
        some_value_def de_option_def de_rpc_error_ser)

interpretation response_wire: wire_format ser_response de_response ok_response norm_response
  by unfold_locales (auto simp: de_response_ser dest: de_response_ok)

section \<open>Notification\<close>

interpretation notification_jsonrpc:
  struct_slot notification_field "''jsonrpc''" de_version nf_jsonrpc
  by unfold_locales (auto simp: store_field_eq_Inr split: if_split_asm)

interpretation notification_method: struct_slot notification_field "''method''" de_string nf_method
  by unfold_locales (auto simp: store_field_eq_Inr split: if_split_asm)

interpretation notification_params:
  struct_slot notification_field "''params''" "de_option de_value" nf_params
  by unfold_locales (auto simp: store_field_eq_Inr split: if_split_asm)

definition notification_filled :: "notification_fields \<Rightarrow> string \<Rightarrow> bool" where
  "notification_filled s k \<longleftrightarrow>
     (if k = ''jsonrpc'' then nf_jsonrpc s \<noteq> None
      else if k = ''method'' then nf_method s \<noteq> None
      else k = ''params'' \<and> nf_params s \<noteq> None)"

abbreviation notification_names :: "string set" where
  "notification_names \<equiv> {''jsonrpc'', ''method'', ''params''}"

interpretation notification_reader:
  struct_reader notification_field notification_names request_readable notification_filled
proof
  fix k v s
  show "(\<exists>t. notification_field (k, v) s = Inr t) \<longleftrightarrow>
    k \<in> notification_names \<and> \<not> notification_filled s k \<and> request_readable k v"
  proof (cases "k \<in> notification_names")
    case True
    then show ?thesis
      by (elim insertE emptyE)
         (simp_all add: store_field_succeeds de_option_succeeds request_readable_def notification_filled_def)
  qed simp
next
  fix k v s t l
  assume "notification_field (k, v) s = Inr t"
  moreover from this have "k \<in> notification_names" by (simp split: if_split_asm)
  ultimately show "notification_filled t l \<longleftrightarrow> l = k \<or> notification_filled s l"
    by (elim insertE emptyE) (clarsimp simp: store_field_eq_Inr notification_filled_def)+
qed

lemma notification_filled_none [simp]: "\<not> notification_filled no_notification_fields k"
  by (simp add: notification_filled_def no_notification_fields_def)

lemma fold_no_notification_fields:
  "(\<exists>t. fold_result notification_field kvs no_notification_fields = Inr t) \<longleftrightarrow>
     distinct (map fst kvs) \<and>
     (\<forall>(k, v) \<in> set kvs. k \<in> notification_names \<and> request_readable k v)"
  by (simp only: notification_reader.fold_iff notification_filled_none simp_thms)

lemma de_notification_fields:
  assumes "fold_result notification_field kvs no_notification_fields = Inr t"
  shows "nf_jsonrpc t = map_option (\<lambda>_. Version) (map_of kvs ''jsonrpc'')"
    and "nf_method t = Option.bind (map_of kvs ''method'') as_str"
    and "nf_params t = map_option (\<lambda>v. if v = Null then None else Some (canon v)) (map_of kvs ''params'')"
  using notification_jsonrpc.get_fold [OF assms] notification_method.get_fold [OF assms]
    notification_params.get_fold [OF assms]
  by (auto simp: no_notification_fields_def de_option_eq_Inr split: option.splits if_splits)

lemma de_notification_Object:
  "de_notification (Object kvs) = Inr n \<longleftrightarrow>
     distinct (map fst kvs) \<and> fst ` set kvs \<subseteq> notification_names \<and>
     map_of kvs ''jsonrpc'' = Some (String ''2.0'') \<and>
     map_of kvs ''method'' = Some (String (notif_method n)) \<and>
     notif_params n = opt_member (map_of kvs ''params'')"
  (is "?L \<longleftrightarrow> ?R")
proof
  assume ?L
  then obtain t where t: "fold_result notification_field kvs no_notification_fields = Inr t"
    and n: "notification_of_fields t = Inr n" by (auto simp: result_simps)
  from t have ok: "distinct (map fst kvs)"
    "\<forall>(k, v) \<in> set kvs. k \<in> notification_names \<and> request_readable k v"
    using fold_no_notification_fields [of kvs] by blast+
  then have "map_of kvs ''jsonrpc'' = Some v \<Longrightarrow> v = String ''2.0''" for v
    by (auto simp: request_readable_def dest!: map_of_SomeD)
  with ok n de_notification_fields [OF t] show ?R
    by (auto simp: notification_of_fields_def result_simps opt_member_eq bind_eq_Some_conv)
next
  assume R: ?R
  then have "\<forall>(k, v) \<in> set kvs. k \<in> notification_names \<and> request_readable k v"
    by (auto simp: request_readable_def dest: map_of_is_SomeI)
  with R obtain t where t: "fold_result notification_field kvs no_notification_fields = Inr t"
    using fold_no_notification_fields [of kvs] by blast
  from R de_notification_fields [OF t] show ?L
    by (cases n) (auto simp: t notification_of_fields_def required_def opt_member_eq)
qed

definition ok_notification :: "notification \<Rightarrow> bool" where
  "ok_notification n \<longleftrightarrow> ok_option (notif_params n)"

definition norm_notification :: "notification \<Rightarrow> notification" where
  "norm_notification n = n\<lparr>notif_params := norm_option (notif_params n)\<rparr>"

lemma de_notification_ok:
  "de_notification v = Inr n \<Longrightarrow> ok_notification n \<and> norm_notification n = n"
proof (cases v)
  case (Array vs)
  moreover assume "de_notification v = Inr n"
  ultimately show ?thesis
    by (auto simp: result_simps ok_notification_def norm_notification_def dest: de_option_value_ok)
next
  case (Object kvs)
  moreover assume "de_notification v = Inr n"
  ultimately have "notif_params n = opt_member (map_of kvs ''params'')"
    by (auto simp only: de_notification_Object)
  then show ?thesis
    using opt_member_ok by (auto simp: ok_notification_def norm_notification_def)
qed simp_all

lemma de_notification_ser:
  "ok_notification n \<Longrightarrow> de_notification (ser_notification n) = Inr (norm_notification n)"
  by (cases n; cases "notif_params n")
     (simp_all add: ser_notification_def ok_notification_def norm_notification_def
        no_notification_fields_def store_field_def notification_of_fields_def required_def
        de_option_value_wf)

interpretation notification_wire:
  wire_format ser_notification de_notification ok_notification norm_notification
  by unfold_locales (auto simp: de_notification_ser dest: de_notification_ok)

end
