(* ===== verification/Decode.thy ===== *)
theory Decode
  imports Serde_Laws "HOL-Library.Multiset"
begin

text \<open>
  From bytes to messages and back (\<open>from_slice\<close>, \<open>from_str\<close> and the two
  \<open>Into\<close> implementations of \<open>src/src/message.rs\<close>), and what the decoder makes of a
  document: which variant it picks, that it always picks one, and the round trip.

  Text and trees are converted by \<open>serde_json\<close>, which is a parameter: \<open>parse_slice\<close>
  reads a whole slice as one document (an error is its displayed text), \<open>print_value\<close>
  writes a tree compactly, \<open>show_error\<close> is the text of an error of a deserializer.
\<close>

section \<open>Entry points\<close>

record json_lib =
  parse_slice :: "byte list \<Rightarrow> string + value"
  print_value :: "value \<Rightarrow> byte list"
  show_error :: "de_error \<Rightarrow> string"

definition as_bytes :: "string \<Rightarrow> byte list" where
  "as_bytes s = map (\<lambda>c. word_of_nat (of_char c)) s"

definition of_bytes :: "byte list \<Rightarrow> string" where
  "of_bytes bs = map (\<lambda>b. char_of (unat b)) bs"

text \<open>\<open>serde_json::de::from_slice::<WireMessage>\<close> for a parsed tree.\<close>

definition read_wire :: "json_lib \<Rightarrow> string + value \<Rightarrow> string + wire_message" where
  "read_wire lib doc = and_then doc (\<lambda>v. map_err (show_error lib) (de_wire_message v))"

definition from_slice :: "json_lib \<Rightarrow> byte list \<Rightarrow> parsed" where
  "from_slice lib s = decoded_to_parsed (read_wire lib (parse_slice lib s))"

definition from_str :: "json_lib \<Rightarrow> string \<Rightarrow> parsed" where
  "from_str lib s = from_slice lib (as_bytes s)"

text \<open>\<open>serde_json::ser::to_vec\<close> on a message.\<close>

definition to_vec :: "json_lib \<Rightarrow> message \<Rightarrow> ser_error + byte list" where
  "to_vec lib m = map_ok (print_value lib) (ser_message m)"

text \<open>The conversions unwrap, so they panic (\<open>None\<close>) where serialization fails.\<close>

definition into_string :: "json_lib \<Rightarrow> message \<Rightarrow> string option" where
  "into_string lib m = map_option of_bytes (ok_of (to_vec lib m))"

definition into_bytes :: "json_lib \<Rightarrow> message \<Rightarrow> byte list option" where
  "into_bytes lib m = ok_of (to_vec lib m)"

lemma as_bytes_of_bytes [simp]: "as_bytes (of_bytes bs) = bs"
proof -
  have "word_of_nat (of_char (char_of (unat b))) = b" for b :: byte
    using unsigned_less [of b, where ?'a = nat] by simp
  then show ?thesis by (simp add: as_bytes_def of_bytes_def o_def)
qed

section \<open>The decoder picks one variant\<close>

lemma de_message_total: "\<exists>m. de_message v = Inr m"
  by (auto simp: de_value_def split: sum.splits)

lemmas de_message_unfold = de_message.simps

declare de_message.simps [simp del]

definition decoded :: "value \<Rightarrow> message" where
  "decoded v = (case de_message v of Inr m \<Rightarrow> m | Inl _ \<Rightarrow> UnmatchedSub (canon v))"

lemma de_message_decoded: "de_message v = Inr (decoded v)"
  using de_message_total [of v] by (auto simp: decoded_def)

lemma de_messages_decoded: "de_messages vs = Inr (map decoded vs)"
  by (induction vs) (simp_all add: de_message_decoded)

lemma decoded_eq:
  "decoded v =
     (case ok_of (de_request v) of Some r \<Rightarrow> Request r | None \<Rightarrow>
      case ok_of (de_response v) of Some r \<Rightarrow> Response r | None \<Rightarrow>
      case ok_of (de_notification v) of Some n \<Rightarrow> Notification n | None \<Rightarrow>
      case v of Array vs \<Rightarrow> Batch (map decoded vs) | _ \<Rightarrow> UnmatchedSub (canon v))"
proof -
  have "de_batch v = (case v of Array vs \<Rightarrow> Inr (map decoded vs) | _ \<Rightarrow> Inl (InvalidType ''a sequence''))"
    by (cases v) (simp_all add: de_messages_decoded)
  then show ?thesis
    by (auto simp: decoded_def de_message_unfold [of v] de_value_def split: sum.splits "value.splits")
qed

text \<open>So the second variant of \<open>WireMessage\<close> is never read.\<close>

lemma de_wire_message_decoded: "de_wire_message v = Inr (WireMessage (decoded v))"
  by (simp add: de_wire_message_def de_message_decoded)

lemma from_slice_parse_ok:
  "parse_slice lib s = Inr v \<Longrightarrow>
   from_slice lib s = (case decoded v of UnmatchedSub j \<Rightarrow> Inl (Unmatched j) | m \<Rightarrow> Inr m)"
  by (simp add: from_slice_def read_wire_def de_wire_message_decoded decoded_to_parsed_message split: message.split)

lemma from_slice_parse_error:
  "parse_slice lib s = Inl e \<Longrightarrow> from_slice lib s = Inl (SyntaxError e)"
  by (simp add: from_slice_def read_wire_def)

text \<open>A document that is not an object or an array is never a message.\<close>

definition composite :: "value \<Rightarrow> bool" where
  "composite v \<longleftrightarrow> (\<exists>vs. v = Array vs) \<or> (\<exists>kvs. v = Object kvs)"

lemma decoded_scalar: "\<not> composite v \<Longrightarrow> decoded v = UnmatchedSub (canon v)"
  by (cases v) (simp_all add: decoded_eq composite_def de_response_def)

section \<open>Arrays\<close>

text \<open>An array is read as a struct only if its first element is the string \<open>2.0\<close>.\<close>

lemma struct_array_version:
  "de_request (Array vs) = Inr r \<Longrightarrow> vs \<noteq> [] \<and> hd vs = String ''2.0''"
  "de_wire_response (Array vs) = Inr w \<Longrightarrow> vs \<noteq> [] \<and> hd vs = String ''2.0''"
  "de_notification (Array vs) = Inr n \<Longrightarrow> vs \<noteq> [] \<and> hd vs = String ''2.0''"
  by (auto simp: result_simps)

lemma ok_of_eq_None: "ok_of r = None \<longleftrightarrow> (\<forall>x. r \<noteq> Inr x)"
  by (cases r) auto

lemma decoded_Array:
  assumes "vs = [] \<or> hd vs \<noteq> String ''2.0''"
  shows "decoded (Array vs) = Batch (map decoded vs)"
proof -
  have "ok_of (de_request (Array vs)) = None" "ok_of (de_response (Array vs)) = None"
    "ok_of (de_notification (Array vs)) = None"
    using assms struct_array_version [of vs]
    by (auto simp: ok_of_eq_None de_response_def and_then_eq_Inr simp del: de_request.simps
        de_wire_response.simps de_notification.simps)
  then show ?thesis by (subst decoded_eq) (simp del: de_request.simps de_notification.simps)
qed

section \<open>Objects\<close>

lemma Object_kinds_exclusive:
  "de_request (Object kvs) = Inr r \<Longrightarrow> de_response (Object kvs) \<noteq> Inr s"
  "de_request (Object kvs) = Inr r \<Longrightarrow> de_notification (Object kvs) \<noteq> Inr n"
  "de_response (Object kvs) = Inr s \<Longrightarrow> de_notification (Object kvs) \<noteq> Inr n"
proof -
  have mem: "map_of kvs k \<noteq> None \<Longrightarrow> k \<in> fst ` set kvs" for k
    by (simp add: map_of_eq_None_iff)
  have req: "''method'' \<in> fst ` set kvs \<and> ''id'' \<in> fst ` set kvs"
    if "de_request (Object kvs) = Inr r"
  proof -
    have "map_of kvs ''method'' \<noteq> None" "map_of kvs ''id'' \<noteq> None"
      using that unfolding de_request_Object by (metis option.distinct(1) option.map(1))+
    then show ?thesis using mem by blast
  qed
  have resp: "''id'' \<in> fst ` set kvs \<and> fst ` set kvs \<subseteq> response_names"
    if "de_response (Object kvs) = Inr s"
  proof -
    have "map_of kvs ''id'' \<noteq> None"
      using that unfolding de_response_Object by (metis option.distinct(1) option.map(1))
    then show ?thesis using mem that unfolding de_response_Object by blast
  qed
  have notif: "fst ` set kvs \<subseteq> notification_names" if "de_notification (Object kvs) = Inr n"
    using that unfolding de_notification_Object by blast
  show "de_request (Object kvs) = Inr r \<Longrightarrow> de_response (Object kvs) \<noteq> Inr s"
    using req resp by fastforce
  show "de_request (Object kvs) = Inr r \<Longrightarrow> de_notification (Object kvs) \<noteq> Inr n"
    using req notif by fastforce
  show "de_response (Object kvs) = Inr s \<Longrightarrow> de_notification (Object kvs) \<noteq> Inr n"
    using resp notif by fastforce
qed

lemma decoded_Object:
  "decoded (Object kvs) = Request r \<longleftrightarrow> de_request (Object kvs) = Inr r"
  "decoded (Object kvs) = Response s \<longleftrightarrow> de_response (Object kvs) = Inr s"
  "decoded (Object kvs) = Notification n \<longleftrightarrow> de_notification (Object kvs) = Inr n"
  "decoded (Object kvs) \<noteq> Batch ms"
  using Object_kinds_exclusive [of kvs] unfolding decoded_eq [of "Object kvs"]
  by (auto simp del: de_request.simps de_notification.simps split: option.splits)

section \<open>The round trip\<close>

primrec serializable :: "message \<Rightarrow> bool" where
  "serializable (Request r) = True"
| "serializable (Response r) = True"
| "serializable (Notification n) = True"
| "serializable (Batch ms) = list_all serializable ms"
| "serializable (UnmatchedSub v) = False"

primrec ok_message :: "message \<Rightarrow> bool" where
  "ok_message (Request r) = ok_request r"
| "ok_message (Response r) = ok_response r"
| "ok_message (Notification n) = ok_notification n"
| "ok_message (Batch ms) = list_all ok_message ms"
| "ok_message (UnmatchedSub v) = wf_value v"

text \<open>
  The one thing the wire does not keep: \<open>Some(Value::Null)\<close> in an optional member comes
  back as \<open>None\<close>.
\<close>

primrec norm_message :: "message \<Rightarrow> message" where
  "norm_message (Request r) = Request (norm_request r)"
| "norm_message (Response r) = Response (norm_response r)"
| "norm_message (Notification n) = Notification (norm_notification n)"
| "norm_message (Batch ms) = Batch (map norm_message ms)"
| "norm_message (UnmatchedSub v) = UnmatchedSub v"

lemma ser_message_serializable:
  "(\<exists>v. ser_message m = Inr v) \<longleftrightarrow> serializable m"
  "(\<exists>vs. ser_messages ms = Inr vs) \<longleftrightarrow> list_all serializable ms"
  by (induction m and ms rule: ser_message_ser_messages.induct)
     (auto simp: and_then_eq_Inr map_ok_eq_Inr)

lemma ser_message_composite: "ser_message m = Inr v \<Longrightarrow> composite v"
  by (cases m)
     (auto simp: composite_def map_ok_eq_Inr ser_request_def ser_response_def ser_notification_def)

lemma ser_messages_composite: "ser_messages ms = Inr vs \<Longrightarrow> v \<in> set vs \<Longrightarrow> composite v"
  by (induction ms arbitrary: vs) (auto simp: and_then_eq_Inr map_ok_eq_Inr ser_message_composite)

lemma decoded_ser_struct:
  "ok_request r \<Longrightarrow> decoded (ser_request r) = Request (norm_request r)"
  "ok_response s \<Longrightarrow> decoded (ser_response s) = Response (norm_response s)"
  "ok_notification n \<Longrightarrow> decoded (ser_notification n) = Notification (norm_notification n)"
  using request_wire.de_ser response_wire.de_ser notification_wire.de_ser
  by (simp_all add: ser_request_def ser_response_def ser_notification_def decoded_Object
      del: de_request.simps de_notification.simps)

lemma decoded_ser:
  "ser_message m = Inr v \<Longrightarrow> ok_message m \<Longrightarrow> decoded v = norm_message m"
  "ser_messages ms = Inr vs \<Longrightarrow> list_all ok_message ms \<Longrightarrow> map decoded vs = map norm_message ms"
proof (induction m and ms arbitrary: v and vs rule: ser_message_ser_messages.induct)
  case (4 ms)
  then obtain vs where vs: "ser_messages ms = Inr vs" "v = Array vs"
    by (auto simp: map_ok_eq_Inr)
  then have "vs = [] \<or> hd vs \<noteq> String ''2.0''"
    using ser_messages_composite [OF vs(1)] by (cases vs) (auto simp: composite_def)
  then show ?case using 4 vs by (simp add: decoded_Array)
qed (auto simp: decoded_ser_struct and_then_eq_Inr map_ok_eq_Inr)

lemma decoded_ok: "ok_message (decoded v) \<and> norm_message (decoded v) = decoded v"
proof (induction v)
  case (Array vs)
  then have "list_all ok_message (map decoded vs)" "map norm_message (map decoded vs) = map decoded vs"
    by (auto simp: list_all_iff)
  then show ?case
    by (subst (1 2 3) decoded_eq)
       (auto simp del: de_request.simps de_notification.simps split: option.splits
         dest: de_request_ok de_response_ok de_notification_ok)
next
  case (Object kvs)
  show ?case
    by (subst (1 2 3) decoded_eq)
       (auto simp del: de_request.simps de_notification.simps canon.simps split: option.splits
         dest: de_request_ok de_response_ok de_notification_ok)
qed (simp_all add: decoded_scalar composite_def)

lemma decoded_reencode:
  "ser_message (decoded v) = Inr w \<Longrightarrow> decoded w = decoded v"
  using decoded_ser(1) [of "decoded v" w] decoded_ok [of v] by simp

lemma from_slice_Inr:
  assumes "from_slice lib s = Inr m"
  obtains v where "parse_slice lib s = Inr v" and "m = decoded v"
  using assms from_slice_parse_ok [of lib s] from_slice_parse_error [of lib s]
  by (cases "parse_slice lib s") (auto split: message.splits)

lemma from_slice_decoded:
  "parse_slice lib s = Inr v \<Longrightarrow> serializable (decoded v) \<Longrightarrow> from_slice lib s = Inr (decoded v)"
  by (cases "decoded v") (simp_all add: from_slice_parse_ok)

lemma serializable_norm: "serializable m \<Longrightarrow> serializable (norm_message m)"
  by (induction m) (auto simp: list_all_iff)

lemma from_slice_norm:
  assumes "ser_message m = Inr w" and "ok_message m" and "parse_slice lib bs = Inr w"
  shows "from_slice lib bs = Inr (norm_message m)"
proof -
  have d: "decoded w = norm_message m" using assms(1,2) by (rule decoded_ser(1))
  have "serializable (norm_message m)"
    using ser_message_serializable(1) [of m] assms(1) serializable_norm by blast
  with d assms(3) show ?thesis by (metis from_slice_decoded)
qed

lemma ser_message_error:
  "ser_message m = Inl e \<Longrightarrow> e = CannotSerialize ''UnmatchedSub''"
  "ser_messages ms = Inl e \<Longrightarrow> e = CannotSerialize ''UnmatchedSub''"
proof (induction m and ms rule: ser_message_ser_messages.induct)
  case (4 ms)
  then show ?case by (cases "ser_messages ms") auto
next
  case (7 m ms)
  then show ?case by (cases "ser_message m"; cases "ser_messages ms") auto
qed auto

section \<open>Member order\<close>

lemma map_of_permuted:
  "distinct (map fst kvs) \<Longrightarrow> mset kvs' = mset kvs \<Longrightarrow> map_of kvs' = map_of kvs"
proof -
  assume d: "distinct (map fst kvs)" and p: "mset kvs' = mset kvs"
  from p have "mset (map fst kvs') = mset (map fst kvs)" by simp
  with d have "distinct (map fst kvs')" using mset_eq_imp_distinct_iff by blast
  with d mset_eq_setD [OF p] show ?thesis by (simp add: map_of_inject_set)
qed

lemma struct_permuted:
  assumes "mset kvs' = mset kvs"
  shows "de_request (Object kvs) = Inr r \<Longrightarrow> de_request (Object kvs') = Inr r"
    and "de_response (Object kvs) = Inr s \<Longrightarrow> de_response (Object kvs') = Inr s"
    and "de_notification (Object kvs) = Inr n \<Longrightarrow> de_notification (Object kvs') = Inr n"
proof -
  have "mset (map fst kvs') = mset (map fst kvs)" using assms by simp
  then have d: "distinct (map fst kvs') \<longleftrightarrow> distinct (map fst kvs)"
    by (rule mset_eq_imp_distinct_iff)
  note perm = d map_of_permuted [OF _ assms] mset_eq_setD [OF assms]
  show "de_request (Object kvs) = Inr r \<Longrightarrow> de_request (Object kvs') = Inr r"
    unfolding de_request_Object by (simp only: perm simp_thms)
  show "de_response (Object kvs) = Inr s \<Longrightarrow> de_response (Object kvs') = Inr s"
    unfolding de_response_Object by (elim conjE, intro conjI) (assumption | simp only: perm)+
  show "de_notification (Object kvs) = Inr n \<Longrightarrow> de_notification (Object kvs') = Inr n"
    unfolding de_notification_Object by (simp only: perm simp_thms)
qed

section \<open>Properties\<close>

text \<open>
  C14. Round trip of every message: what \<open>to_vec\<close> writes for a message whose values are
  proper \<open>Value\<close>s, \<open>from_slice\<close> reads back as that message, with the single
  exception the header of this theory names, an optional member holding \<open>null\<close>.  The
  hypothesis on \<open>serde_json\<close> is that it parses what it printed for this one tree.
\<close>

theorem message_round_trip:
  assumes "ser_message m = Inr w" and "ok_message m"
    and "parse_slice lib (print_value lib w) = Inr w"
    and "to_vec lib m = Inr bs"
  shows "from_slice lib bs = Inr (norm_message m)"
  using from_slice_norm [OF assms(1,2,3)] assms(1,4) by (simp add: to_vec_def)

definition notif_tree :: "value" where
  "notif_tree = Object [(''jsonrpc'', String ''2.0''), (''method'', String ''hi''), (''params'', Array [Null])]"

definition notif_text :: "byte list" where
  \<open>notif_text = as_bytes ''{"jsonrpc":"2.0","method":"hi","params":[null]}''\<close>

definition table_lib :: "(byte list \<times> value) list \<Rightarrow> json_lib" where
  "table_lib t =
     \<lparr>parse_slice = (\<lambda>s. case map_of t s of None \<Rightarrow> Inl ''expected value'' | Some v \<Rightarrow> Inr v),
      print_value = (\<lambda>v. case map_of (map (\<lambda>(s, v). (v, s)) t) v of None \<Rightarrow> [] | Some s \<Rightarrow> s),
      show_error = (\<lambda>_. ''data did not match'')\<rparr>"

theorem message_round_trip_witness:
  "from_slice (table_lib [(notif_text, notif_tree)]) notif_text
     = Inr (message_notification ''hi'' (Some (Array [Null])))"
  using message_round_trip [of "message_notification ''hi'' (Some (Array [Null]))" notif_tree
      "table_lib [(notif_text, notif_tree)]" notif_text]
  by (simp add: table_lib_def to_vec_def message_notification_def ser_notification_def notif_tree_def
      ok_notification_def norm_notification_def norm_option_def)

text \<open>
  A message that was received can be sent on: whatever message \<open>from_slice\<close> accepts
  serializes, unless it is a batch with unmatched entries, and reading the result gives the
  same message again, exactly.
\<close>

lemma received_message_survives:
  assumes "from_slice lib s = Inr m" and "serializable m"
    and "\<And>w. ser_message m = Inr w \<Longrightarrow> parse_slice lib (print_value lib w) = Inr w"
  shows "\<exists>bs. to_vec lib m = Inr bs \<and> from_slice lib bs = Inr m"
proof -
  from assms(1) obtain v where m: "m = decoded v" by (rule from_slice_Inr)
  from assms(2) obtain w where w: "ser_message m = Inr w"
    using ser_message_serializable(1) [of m] by blast
  with m have "decoded w = m" using decoded_reencode [of v w] by simp
  moreover have "parse_slice lib (print_value lib w) = Inr w" using assms(3) w by blast
  ultimately have "from_slice lib (print_value lib w) = Inr m"
    using from_slice_decoded assms(2) by metis
  then show ?thesis by (simp add: to_vec_def w)
qed

text \<open>What is left for \<open>UnmatchedSub\<close>: whatever none of the readers takes.\<close>

lemma decoded_unmatched:
  "decoded v = UnmatchedSub j \<longleftrightarrow> j = canon v \<and> (\<forall>vs. v \<noteq> Array vs) \<and>
     (\<forall>r. de_request v \<noteq> Inr r) \<and> (\<forall>r. de_response v \<noteq> Inr r) \<and>
     (\<forall>n. de_notification v \<noteq> Inr n)"
  by (subst decoded_eq)
     (auto simp: ok_of_eq_None simp del: de_request.simps de_notification.simps canon.simps
       split: option.splits "value.splits")

text \<open>
  C30. What \<open>from_slice\<close> reports: a syntax error exactly for text that is no JSON, with the
  parser's message; \<open>Unmatched\<close> exactly for JSON that is no array and that none of the three
  structs accepts, carrying the document; and never an \<open>UnmatchedSub\<close> as a message.
\<close>

theorem from_slice_classifies:
  "(from_slice lib s = Inl (SyntaxError e) \<longleftrightarrow> parse_slice lib s = Inl e) \<and>
   (from_slice lib s = Inl (Unmatched j) \<longleftrightarrow>
     (\<exists>v. parse_slice lib s = Inr v \<and> j = canon v \<and> (\<forall>vs. v \<noteq> Array vs) \<and>
          (\<forall>r. de_request v \<noteq> Inr r) \<and> (\<forall>r. de_response v \<noteq> Inr r) \<and>
          (\<forall>n. de_notification v \<noteq> Inr n))) \<and>
   from_slice lib s \<noteq> Inr (UnmatchedSub j)"
proof (intro conjI)
  show "from_slice lib s = Inl (SyntaxError e) \<longleftrightarrow> parse_slice lib s = Inl e"
    by (cases "parse_slice lib s")
       (auto simp: from_slice_parse_ok from_slice_parse_error split: message.splits)
  show "from_slice lib s = Inl (Unmatched j) \<longleftrightarrow>
     (\<exists>v. parse_slice lib s = Inr v \<and> j = canon v \<and> (\<forall>vs. v \<noteq> Array vs) \<and>
          (\<forall>r. de_request v \<noteq> Inr r) \<and> (\<forall>r. de_response v \<noteq> Inr r) \<and>
          (\<forall>n. de_notification v \<noteq> Inr n))"
  proof (cases "parse_slice lib s")
    case (Inl e)
    then show ?thesis by (simp add: from_slice_parse_error)
  next
    case (Inr v)
    have "from_slice lib s = Inl (Unmatched j) \<longleftrightarrow> decoded v = UnmatchedSub j"
      using Inr by (cases "decoded v") (auto simp: from_slice_parse_ok)
    then show ?thesis using Inr decoded_unmatched by simp
  qed
  show "from_slice lib s \<noteq> Inr (UnmatchedSub j)"
    by (simp add: from_slice_def decoded_to_parsed_no_sub)
qed

text \<open>What the members \<open>result\<close> and \<open>error\<close> of a response make of each other.\<close>

lemma response_of_members_exact:
  "(\<forall>v. err = Some v \<longrightarrow> v = Null \<or> (\<exists>e. de_rpc_error v = Inr e)) \<and> response_of_members res err = Some x \<longleftrightarrow>
   (case x of
      Inr v \<Rightarrow> map_option canon res = Some v \<and> err \<in> {None, Some Null}
    | Inl e \<Rightarrow> res = None \<and> (\<exists>v. err = Some v \<and> de_rpc_error v = Inr e))"
proof (cases err)
  case None
  then show ?thesis
    by (cases res) (auto simp: response_of_members_def error_member_def split: sum.splits)
next
  case (Some v)
  then show ?thesis
    by (cases res; cases "de_rpc_error v")
       (auto simp: response_of_members_def error_member_def de_rpc_error.simps(3)
         simp del: de_rpc_error.simps(1,2) split: sum.splits)
qed

text \<open>
  C31. Objects on the wire.  An object reads as a message exactly when its keys are distinct and among
  those of that message, the version is the string \<open>2.0\<close>, and: for a request the method is a string and
  an id is present (\<open>null\<close> included), its parameters being absent when they are \<open>null\<close>; for a response
  there are an id and exactly one of a result (\<open>null\<close> counts) and an error (\<open>null\<close> does not count,
  anything else must be a well-formed error object); for a notification the method is a string and
  there is no id.  No object reads as a batch.
\<close>

theorem message_objects:
  "(decoded (Object kvs) = Request q \<longleftrightarrow>
      distinct (map fst kvs) \<and> fst ` set kvs \<subseteq> {''jsonrpc'', ''method'', ''params'', ''id''} \<and>
      map_of kvs ''jsonrpc'' = Some (String ''2.0'') \<and>
      map_of kvs ''method'' = Some (String (req_method q)) \<and>
      map_option canon (map_of kvs ''id'') = Some (req_id q) \<and>
      req_params q = opt_member (map_of kvs ''params'')) \<and>
   (decoded (Object kvs) = Response r \<longleftrightarrow>
      distinct (map fst kvs) \<and> fst ` set kvs \<subseteq> {''jsonrpc'', ''result'', ''error'', ''id''} \<and>
      map_of kvs ''jsonrpc'' = Some (String ''2.0'') \<and>
      map_option canon (map_of kvs ''id'') = Some (resp_id r) \<and>
      (case resp_result r of
         Inr v \<Rightarrow> map_option canon (map_of kvs ''result'') = Some v \<and>
                  map_of kvs ''error'' \<in> {None, Some Null}
       | Inl e \<Rightarrow> map_of kvs ''result'' = None \<and>
                  (\<exists>v. map_of kvs ''error'' = Some v \<and> de_rpc_error v = Inr e))) \<and>
   (decoded (Object kvs) = Notification n \<longleftrightarrow>
      distinct (map fst kvs) \<and> fst ` set kvs \<subseteq> {''jsonrpc'', ''method'', ''params''} \<and>
      map_of kvs ''jsonrpc'' = Some (String ''2.0'') \<and>
      map_of kvs ''method'' = Some (String (notif_method n)) \<and>
      notif_params n = opt_member (map_of kvs ''params'')) \<and>
   decoded (Object kvs) \<noteq> Batch ms"
proof (intro conjI)
  show "decoded (Object kvs) = Response r \<longleftrightarrow>
      distinct (map fst kvs) \<and> fst ` set kvs \<subseteq> {''jsonrpc'', ''result'', ''error'', ''id''} \<and>
      map_of kvs ''jsonrpc'' = Some (String ''2.0'') \<and>
      map_option canon (map_of kvs ''id'') = Some (resp_id r) \<and>
      (case resp_result r of
         Inr v \<Rightarrow> map_option canon (map_of kvs ''result'') = Some v \<and>
                  map_of kvs ''error'' \<in> {None, Some Null}
       | Inl e \<Rightarrow> map_of kvs ''result'' = None \<and>
                  (\<exists>v. map_of kvs ''error'' = Some v \<and> de_rpc_error v = Inr e))"
    unfolding decoded_Object(2) de_response_Object response_of_members_exact [symmetric] by blast
qed (simp_all only: decoded_Object(1,3,4) de_request_Object de_notification_Object not_False_eq_True)

text \<open>
  The order of the members of an object does not matter: an object that reads as a message
  reads as the same message after any reordering, so no client depends on the order in which
  another writes its fields.
\<close>

lemma member_order_irrelevant:
  assumes "decoded (Object kvs) = m" and "serializable m" and "mset kvs' = mset kvs"
  shows "decoded (Object kvs') = m"
  using assms struct_permuted [OF assms(3)] decoded_Object [of kvs] decoded_Object [of kvs']
  by (cases m) auto

text \<open>
  C32. Batches: an array that does not start with the string \<open>2.0\<close> is read as a batch, entry by entry
  and in order, each entry as the message it would be by itself, whatever the others are; in
  particular the empty array is an empty batch.  An entry becomes \<open>UnmatchedSub\<close>, holding the entry,
  exactly when it is no array and none of the readers of a request, a response or a notification takes
  it.
\<close>

theorem batch_entrywise:
  assumes "vs = [] \<or> hd vs \<noteq> String ''2.0''"
  shows "\<exists>ms. de_message (Array vs) = Inr (Batch ms) \<and> length ms = length vs \<and>
    (\<forall>i < length vs. de_message (vs ! i) = Inr (ms ! i) \<and>
       (\<forall>j. ms ! i = UnmatchedSub j \<longleftrightarrow>
          j = canon (vs ! i) \<and> (\<forall>us. vs ! i \<noteq> Array us) \<and>
          (\<forall>r. de_request (vs ! i) \<noteq> Inr r) \<and> (\<forall>r. de_response (vs ! i) \<noteq> Inr r) \<and>
          (\<forall>n. de_notification (vs ! i) \<noteq> Inr n)))"
  using decoded_Array [OF assms]
  by (intro exI [of _ "map decoded vs"])
     (simp add: de_message_decoded decoded_unmatched del: de_request.simps de_notification.simps canon.simps)

text \<open>An object with a member too many, a scalar and an empty array.\<close>

definition odd_entry :: "value" where
  "odd_entry = Object [(''jsonrpc'', String ''2.0''), (''method'', String ''hi''), (''more'', Null)]"

lemma odd_entry_unread:
  "de_request odd_entry \<noteq> Inr r" "de_response odd_entry \<noteq> Inr s" "de_notification odd_entry \<noteq> Inr n"
  unfolding odd_entry_def de_request_Object de_response_Object de_notification_Object by simp_all

lemma canon_odd_entry: "canon odd_entry = odd_entry"
  by code_simp

theorem batch_entrywise_witness:
  "\<exists>m. de_message (Array [Null, odd_entry, Array []]) = Inr (Batch [UnmatchedSub Null, UnmatchedSub odd_entry, m])"
proof -
  have "Null \<noteq> Array us" "odd_entry \<noteq> Array us" "de_request Null \<noteq> Inr r" "de_response Null \<noteq> Inr s"
    "de_notification Null \<noteq> Inr n" for us r s n
    by (simp_all add: odd_entry_def de_response_def)
  note unread = this odd_entry_unread
  obtain ms where ms: "de_message (Array [Null, odd_entry, Array []]) = Inr (Batch ms)" "length ms = 3"
    and entry: "\<And>i j. i < 3 \<Longrightarrow> ms ! i = UnmatchedSub j \<longleftrightarrow>
      j = canon ([Null, odd_entry, Array []] ! i) \<and> (\<forall>us. [Null, odd_entry, Array []] ! i \<noteq> Array us) \<and>
      (\<forall>r. de_request ([Null, odd_entry, Array []] ! i) \<noteq> Inr r) \<and>
      (\<forall>r. de_response ([Null, odd_entry, Array []] ! i) \<noteq> Inr r) \<and>
      (\<forall>n. de_notification ([Null, odd_entry, Array []] ! i) \<noteq> Inr n)"
    using batch_entrywise [of "[Null, odd_entry, Array []]"] by force
  have entries: "ms ! 0 = UnmatchedSub Null" "ms ! 1 = UnmatchedSub odd_entry"
    using entry [of 0 Null] entry [of 1 odd_entry] unread canon_odd_entry by simp_all
  obtain k l m where "ms = [k, l, m]" using ms(2) by (auto simp: length_Suc_conv numeral_3_eq_3)
  with ms(1) entries show ?thesis by simp
qed

text \<open>
  An array is not always a batch or broken: the derived readers of the structs also
  accept arrays, so an array of four values that starts with the version and a string is
  answered as a request although no entry of it is a message.
\<close>

lemma array_read_as_request:
  "decoded (Array [String ''2.0'', String m, p, i]) =
     Request \<lparr>req_jsonrpc = Version, req_method = m,
              req_params = opt_member (Some p), req_id = canon i\<rparr>"
  by (subst decoded_eq) (simp add: opt_member_def de_option_def de_value_def)

end
