(* ===== verification/Utf8.thy ===== *)
theory Utf8
  imports Prelude
begin

text \<open>
  \<open>String::from_utf8_lossy\<close> of the standard library, which \<open>DirtyLine\<close> runs a line
  through (\<open>src/src/codec.rs\<close>): well-formed UTF-8 is kept, and each maximal ill-formed
  piece becomes one U+FFFD.  Continuation bytes past the end read as absent.
\<close>

definition is_cont :: "byte \<Rightarrow> bool" where
  "is_cont b \<longleftrightarrow> 0x80 \<le> b \<and> b \<le> 0xBF"

text \<open>The second byte a three or four byte sequence may have.\<close>

definition second3 :: "byte \<Rightarrow> byte \<Rightarrow> bool" where
  "second3 b c \<longleftrightarrow>
     (b = 0xE0 \<and> 0xA0 \<le> c \<and> c \<le> 0xBF) \<or>
     (0xE1 \<le> b \<and> b \<le> 0xEC \<and> is_cont c) \<or>
     (b = 0xED \<and> 0x80 \<le> c \<and> c \<le> 0x9F) \<or>
     (0xEE \<le> b \<and> b \<le> 0xEF \<and> is_cont c)"

definition second4 :: "byte \<Rightarrow> byte \<Rightarrow> bool" where
  "second4 b c \<longleftrightarrow>
     (b = 0xF0 \<and> 0x90 \<le> c \<and> c \<le> 0xBF) \<or>
     (0xF1 \<le> b \<and> b \<le> 0xF3 \<and> is_cont c) \<or>
     (b = 0xF4 \<and> 0x80 \<le> c \<and> c \<le> 0x8F)"

text \<open>How many further bytes of the list continue a sequence, at most \<open>n\<close>.\<close>

primrec conts :: "nat \<Rightarrow> byte list \<Rightarrow> nat" where
  "conts n [] = 0"
| "conts n (c # cs) = (case n of 0 \<Rightarrow> 0 | Suc m \<Rightarrow> if is_cont c then Suc (conts m cs) else 0)"

text \<open>
  The first piece of a nonempty byte list: its length and whether it is a character.
\<close>

definition utf8_piece :: "byte \<Rightarrow> byte list \<Rightarrow> nat \<times> bool" where
  "utf8_piece b cs =
     (if b < 0x80 then (1, True)
      else if 0xC2 \<le> b \<and> b \<le> 0xDF then (let k = conts 1 cs in (1 + k, k = 1))
      else if 0xE0 \<le> b \<and> b \<le> 0xEF then
        (case cs of
           c # cs' \<Rightarrow> if second3 b c then (let k = conts 1 cs' in (2 + k, k = 1)) else (1, False)
         | [] \<Rightarrow> (1, False))
      else if 0xF0 \<le> b \<and> b \<le> 0xF4 then
        (case cs of
           c # cs' \<Rightarrow> if second4 b c then (let k = conts 2 cs' in (2 + k, k = 2)) else (1, False)
         | [] \<Rightarrow> (1, False))
      else (1, False))"

definition replacement :: "byte list" where
  "replacement = [0xEF, 0xBF, 0xBD]"

lemma utf8_piece_pos: "utf8_piece b cs = (n, ok) \<Longrightarrow> 0 < n"
  by (auto simp: utf8_piece_def Let_def split: list.splits if_splits)

function utf8_lossy :: "byte list \<Rightarrow> byte list" where
  "utf8_lossy [] = []"
| "utf8_lossy (b # cs) =
     (let (n, ok) = utf8_piece b cs
      in (if ok then take n (b # cs) else replacement) @ utf8_lossy (drop n (b # cs)))"
  by pat_completeness auto
termination
  by (relation "measure length") (auto dest!: utf8_piece_pos [OF sym])

function utf8_valid :: "byte list \<Rightarrow> bool" where
  "utf8_valid [] = True"
| "utf8_valid (b # cs) =
     (let (n, ok) = utf8_piece b cs in ok \<and> utf8_valid (drop n (b # cs)))"
  by pat_completeness auto
termination
  by (relation "measure length") (auto dest!: utf8_piece_pos [OF sym])

declare utf8_lossy.simps(2) [simp del] utf8_valid.simps(2) [simp del]

lemma utf8_lossy_valid_id: "utf8_valid bs \<Longrightarrow> utf8_lossy bs = bs"
proof (induction bs rule: utf8_valid.induct)
  case 1
  then show ?case by simp
next
  case (2 b cs)
  obtain n where n: "utf8_piece b cs = (n, True)" and v: "utf8_valid (drop n (b # cs))"
    using "2.prems" by (cases "utf8_piece b cs") (simp add: utf8_valid.simps(2))
  with "2.IH" have "utf8_lossy (drop n (b # cs)) = drop n (b # cs)" by simp
  then show ?case by (simp add: utf8_lossy.simps(2) n)
qed

text \<open>A character reads the same whatever follows it.\<close>

lemma conts_zero [simp]: "conts 0 cs = 0"
  by (cases cs) auto

lemma conts_bounds: "conts n cs \<le> n \<and> conts n cs \<le> length cs"
proof (induction cs arbitrary: n)
  case Nil
  then show ?case by simp
next
  case (Cons c cs)
  then show ?case by (cases n) auto
qed

lemma conts_take: "conts n cs = n \<Longrightarrow> conts n (take n cs @ ds) = n"
proof (induction cs arbitrary: n)
  case Nil
  then show ?case by simp
next
  case (Cons c cs)
  then show ?case by (cases n) (auto split: if_splits)
qed

lemma utf8_piece_local:
  assumes "utf8_piece b cs = (n, True)"
  shows "n - 1 \<le> length cs \<and> utf8_piece b (take (n - 1) cs @ ds) = (n, True)"
proof -
  have one: "conts 1 cs = 1 \<Longrightarrow> 1 \<le> length cs" and two: "conts 2 cs = 2 \<Longrightarrow> 2 \<le> length cs" for cs
    using conts_bounds [of 1 cs] conts_bounds [of 2 cs] by auto
  show ?thesis
    using assms one two conts_take [of 1 cs ds] conts_take [of 1 "tl cs" ds] conts_take [of 2 "tl cs" ds]
    unfolding utf8_piece_def
    by (cases cs) (auto simp: Let_def numeral_2_eq_2 numeral_3_eq_3 split: if_splits)
qed

lemma utf8_valid_append:
  "utf8_piece b cs = (n, True) \<Longrightarrow> utf8_valid (take n (b # cs) @ ds) \<longleftrightarrow> utf8_valid ds"
proof -
  assume p: "utf8_piece b cs = (n, True)"
  then obtain m where n: "n = Suc m" using utf8_piece_pos by (cases n) auto
  have "m \<le> length cs" and q: "utf8_piece b (take m cs @ ds) = (n, True)"
    using utf8_piece_local [OF p, of ds] n by auto
  then show ?thesis by (simp add: n utf8_valid.simps(2))
qed

lemma utf8_valid_replacement: "utf8_valid (replacement @ ds) \<longleftrightarrow> utf8_valid ds"
  by (simp add: replacement_def utf8_valid.simps(2) utf8_piece_def second3_def is_cont_def)

lemma utf8_valid_lossy: "utf8_valid (utf8_lossy bs)"
proof (induction bs rule: utf8_lossy.induct)
  case 1
  then show ?case by simp
next
  case (2 b cs)
  obtain n ok where p: "utf8_piece b cs = (n, ok)" by fastforce
  with "2.IH" have IH: "utf8_valid (utf8_lossy (drop n (b # cs)))" by simp
  show ?case
  proof (cases ok)
    case True
    with p IH show ?thesis by (simp only: utf8_lossy.simps(2) Let_def prod.case if_True utf8_valid_append)
  next
    case False
    with p IH show ?thesis
      by (simp only: utf8_lossy.simps(2) Let_def prod.case if_False utf8_valid_replacement)
  qed
qed

text \<open>ASCII is well-formed.\<close>

lemma utf8_valid_ascii: "\<forall>b \<in> set bs. b < 128 \<Longrightarrow> utf8_valid bs"
  by (induction bs) (simp_all add: utf8_valid.simps(2) utf8_piece_def)

end
