(* ===== verification/Codec.thy ===== *)
theory Codec
  imports Decode Utf8
begin

text \<open>
  The codecs of \<open>src/src/codec.rs\<close>.  A \<open>BytesMut\<close> is its bytes; the codecs
  \<open>Line\<close> and \<open>DirtyLine\<close> are the position up to which the buffer has been scanned.
  A decoder returns the item, the new position and the new buffer.  Slicing the buffer past its
  end, or splitting it there, panics: the result is \<open>None\<close>.  No branch of
  \<open>decode_codec\<close> returns an I/O error, so decoding has none.

  The reading loop that \<open>Framed\<close> runs around a decoder is not part of the crate; \<open>drain\<close>
  and \<open>feed\<close> state its documented contract (decode until no item comes, then read more) in
  order to say what a decoder achieves over a whole stream.
\<close>

section \<open>I/O errors\<close>

text \<open>\<open>std::io::Error\<close>: of kind \<open>Other\<close> with a payload, or from the transport.\<close>

datatype io_error =
    OtherError string
  | TransportError string

fun err_map :: "ser_error \<Rightarrow> io_error" where
  "err_map (CannotSerialize v) = OtherError (''the enum variant Message::'' @ v @ '' cannot be serialized'')"

section \<open>Encoding\<close>

definition newline :: byte where
  "newline = 10"

text \<open>The result, and the buffer it leaves.\<close>

definition encode_codec :: "json_lib \<Rightarrow> message \<Rightarrow> byte list \<Rightarrow> (io_error + unit) \<times> byte list" where
  "encode_codec lib msg buf =
     (case map_err err_map (to_vec lib msg) of
        Inl e \<Rightarrow> (Inl e, buf)
      | Inr encoded \<Rightarrow> (Inr (), buf @ encoded @ [newline]))"

text \<open>The encoders of the three codecs do the same; none has a state that it uses.\<close>

definition line_encode :: "json_lib \<Rightarrow> message \<Rightarrow> byte list \<Rightarrow> (io_error + unit) \<times> byte list" where
  "line_encode lib msg buf = encode_codec lib msg buf"

definition dirty_line_encode :: "json_lib \<Rightarrow> message \<Rightarrow> byte list \<Rightarrow> (io_error + unit) \<times> byte list" where
  "dirty_line_encode lib msg buf = encode_codec lib msg buf"

definition boundary_encode :: "json_lib \<Rightarrow> message \<Rightarrow> byte list \<Rightarrow> (io_error + unit) \<times> byte list" where
  "boundary_encode lib msg buf = encode_codec lib msg buf"

lemmas [simp] = line_encode_def dirty_line_encode_def boundary_encode_def

section \<open>Decoding lines\<close>

definition decode_codec ::
  "nat \<Rightarrow> byte list \<Rightarrow> (byte list \<Rightarrow> 'f) \<Rightarrow> ('f option \<times> nat \<times> byte list) option"
where
  "decode_codec start_pos buf convert =
     (if length buf < start_pos then None
      else case position_of (\<lambda>b. b = newline) (drop start_pos buf) of
             Some i \<Rightarrow>
               (let end_pos = start_pos + i;
                    line = take end_pos buf;
                    rest = drop end_pos buf
                in Some (Some (convert line), 0, drop 1 rest))
           | None \<Rightarrow> Some (None, length buf, buf))"

definition line_new :: nat where
  "line_new = 0"

definition line_decode ::
  "json_lib \<Rightarrow> nat \<Rightarrow> byte list \<Rightarrow> (parsed option \<times> nat \<times> byte list) option"
where
  "line_decode lib pos src = decode_codec pos src (from_slice lib)"

definition dirty_line_new :: nat where
  "dirty_line_new = 0"

definition dirty_convert :: "json_lib \<Rightarrow> byte list \<Rightarrow> parsed" where
  "dirty_convert lib bytes = from_str lib (of_bytes (utf8_lossy bytes))"

definition dirty_line_decode ::
  "json_lib \<Rightarrow> nat \<Rightarrow> byte list \<Rightarrow> (parsed option \<times> nat \<times> byte list) option"
where
  "dirty_line_decode lib pos src = decode_codec pos src (dirty_convert lib)"

section \<open>Decoding by boundaries\<close>

text \<open>
  \<open>next_doc\<close> is \<open>next()\<close> of a fresh \<open>StreamDeserializer\<close> over the slice, with its
  \<open>byte_offset()\<close> afterwards.
\<close>

record stream_error =
  is_eof :: bool
  error_text :: string

record stream_lib = json_lib +
  next_doc :: "byte list \<Rightarrow> (stream_error + value) option \<times> nat"

definition boundary_decode :: "stream_lib \<Rightarrow> byte list \<Rightarrow> (parsed option \<times> byte list) option" where
  "boundary_decode lib src =
     (let (item, pos) = next_doc lib src;
          decoded =
            (case item of
               None \<Rightarrow> None
             | Some (Inl e) \<Rightarrow>
                 if is_eof e then None else Some (decoded_to_parsed (Inl (error_text e)))
             | Some (Inr v) \<Rightarrow>
                 Some (decoded_to_parsed (map_err (show_error lib) (de_wire_message v))))
      in if length src < pos then None else Some (decoded, drop pos src))"

section \<open>Lines, as they are meant\<close>

text \<open>The first line and what follows it; the complete lines and the unfinished rest.\<close>

primrec split_line :: "byte list \<Rightarrow> (byte list \<times> byte list) option" where
  "split_line [] = None"
| "split_line (b # bs) =
     (if b = newline then Some ([], bs)
      else map_option (\<lambda>(l, r). (b # l, r)) (split_line bs))"

primrec lines :: "byte list \<Rightarrow> byte list list \<times> byte list" where
  "lines [] = ([], [])"
| "lines (b # bs) =
     (case lines bs of
        (ls, r) \<Rightarrow>
          if b = newline then ([] # ls, r)
          else (case ls of [] \<Rightarrow> ([], b # r) | l # ls' \<Rightarrow> ((b # l) # ls', r)))"

lemma split_line_None: "split_line bs = None \<longleftrightarrow> newline \<notin> set bs"
  by (induction bs) auto

lemma split_line_Some:
  "split_line bs = Some (l, r) \<longleftrightarrow> bs = l @ newline # r \<and> newline \<notin> set l"
proof (induction bs arbitrary: l)
  case Nil
  then show ?case by simp
next
  case (Cons b bs)
  then show ?case by (cases l) auto
qed

lemma split_line_append [simp]: "newline \<notin> set l \<Longrightarrow> split_line (l @ newline # r) = Some (l, r)"
  by (simp add: split_line_Some)

lemma lines_no_newline: "newline \<notin> set bs \<Longrightarrow> lines bs = ([], bs)"
  by (induction bs) auto

lemma lines_line: "newline \<notin> set l \<Longrightarrow> lines (l @ newline # bs) = (l # fst (lines bs), snd (lines bs))"
  by (induction l) (auto split: prod.splits)

lemma lines_split_line:
  "lines bs =
     (case split_line bs of
        None \<Rightarrow> ([], bs)
      | Some (l, r) \<Rightarrow> (l # fst (lines r), snd (lines r)))"
proof (cases "split_line bs")
  case None
  then have "newline \<notin> set bs" by (simp add: split_line_None)
  with None show ?thesis by (simp add: lines_no_newline)
next
  case (Some lr)
  then show ?thesis by (cases lr) (simp add: split_line_Some lines_line)
qed

lemma lines_rest: "newline \<notin> set (snd (lines bs))"
  by (induction bs) (auto split: prod.splits list.splits if_splits)

lemma lines_append:
  "lines (xs @ ys) =
     (fst (lines xs) @ fst (lines (snd (lines xs) @ ys)), snd (lines (snd (lines xs) @ ys)))"
proof (induction xs rule: length_induct)
  case (1 xs)
  show ?case
  proof (cases "split_line xs")
    case None
    then show ?thesis by (simp add: split_line_None lines_no_newline)
  next
    case (Some lr)
    then obtain l r where xs: "xs = l @ newline # r" and l: "newline \<notin> set l"
      by (cases lr) (auto simp: split_line_Some)
    then have "lines (r @ ys) =
        (fst (lines r) @ fst (lines (snd (lines r) @ ys)), snd (lines (snd (lines r) @ ys)))"
      using "1.IH" by simp
    with l show ?thesis by (simp add: xs lines_line)
  qed
qed

section \<open>The contract of a caching line decoder\<close>

primrec drain ::
  "nat \<Rightarrow> (nat \<Rightarrow> byte list \<Rightarrow> ('f option \<times> nat \<times> byte list) option) \<Rightarrow> nat \<Rightarrow> byte list
   \<Rightarrow> ('f list \<times> nat \<times> byte list) option"
where
  "drain 0 decode pos buf = None"
| "drain (Suc n) decode pos buf =
     (case decode pos buf of
        None \<Rightarrow> None
      | Some (None, pos', buf') \<Rightarrow> Some ([], pos', buf')
      | Some (Some f, pos', buf') \<Rightarrow>
          map_option (\<lambda>(fs, s). (f # fs, s)) (drain n decode pos' buf'))"

primrec feed ::
  "(nat \<Rightarrow> byte list \<Rightarrow> ('f option \<times> nat \<times> byte list) option) \<Rightarrow> nat \<Rightarrow> byte list
   \<Rightarrow> byte list list \<Rightarrow> ('f list \<times> nat \<times> byte list) option"
where
  "feed decode pos buf [] = Some ([], pos, buf)"
| "feed decode pos buf (c # cs) =
     (case drain (Suc (length (buf @ c))) decode pos (buf @ c) of
        None \<Rightarrow> None
      | Some (fs, pos', buf') \<Rightarrow>
          map_option (\<lambda>(gs, s). (fs @ gs, s)) (feed decode pos' buf' cs))"

text \<open>The scanned part of the buffer holds no newline, and there is that much buffer.\<close>

definition scanned :: "nat \<Rightarrow> byte list \<Rightarrow> bool" where
  "scanned pos buf \<longleftrightarrow> pos \<le> length buf \<and> newline \<notin> set (take pos buf)"

lemma scanned_0 [simp]: "scanned 0 buf"
  by (simp add: scanned_def)

lemma scanned_append [simp]: "scanned pos buf \<Longrightarrow> scanned pos (buf @ c)"
  by (simp add: scanned_def)

lemma scanned_all [simp]: "newline \<notin> set buf \<Longrightarrow> scanned (length buf) buf"
  by (simp add: scanned_def)

locale line_decoder =
  fixes decode :: "nat \<Rightarrow> byte list \<Rightarrow> ('f option \<times> nat \<times> byte list) option"
    and convert :: "byte list \<Rightarrow> 'f"
  assumes decode_scanned:
    "scanned pos buf \<Longrightarrow>
     decode pos buf =
       Some (case split_line buf of
               None \<Rightarrow> (None, length buf, buf)
             | Some (l, r) \<Rightarrow> (Some (convert l), 0, r))"
begin

lemma drain_lines:
  "scanned pos buf \<Longrightarrow> length buf < n \<Longrightarrow>
   drain n decode pos buf =
     Some (map convert (fst (lines buf)), length (snd (lines buf)), snd (lines buf))"
proof (induction n arbitrary: pos buf)
  case 0
  then show ?case by simp
next
  case (Suc n)
  show ?case
  proof (cases "split_line buf")
    case None
    then show ?thesis using Suc.prems by (simp add: decode_scanned lines_split_line [of buf])
  next
    case (Some lr)
    then obtain l r where lr: "lr = (l, r)" and buf: "buf = l @ newline # r"
      by (cases lr) (auto simp: split_line_Some)
    with Suc.prems have "length r < n" by simp
    then have "drain n decode 0 r =
        Some (map convert (fst (lines r)), length (snd (lines r)), snd (lines r))"
      by (intro Suc.IH) simp_all
    with Suc.prems(1) Some lr show ?thesis
      by (simp add: decode_scanned lines_split_line [of buf])
  qed
qed

text \<open>
  However the bytes are cut into reads, the frames are those of the whole stream.
\<close>

lemma feed_lines:
  "scanned pos buf \<Longrightarrow> newline \<notin> set buf \<Longrightarrow>
   \<exists>pos'. feed decode pos buf cs =
     Some (map convert (fst (lines (buf @ concat cs))), pos', snd (lines (buf @ concat cs)))"
proof (induction cs arbitrary: pos buf)
  case Nil
  then show ?case by (simp add: lines_no_newline)
next
  case (Cons c cs)
  let ?r = "snd (lines (buf @ c))"
  have r: "newline \<notin> set ?r" by (rule lines_rest)
  have d: "drain (Suc (length (buf @ c))) decode pos (buf @ c) =
      Some (map convert (fst (lines (buf @ c))), length ?r, ?r)"
    using Cons.prems by (intro drain_lines) simp_all
  obtain pos' where "feed decode (length ?r) ?r cs =
      Some (map convert (fst (lines (?r @ concat cs))), pos', snd (lines (?r @ concat cs)))"
    using Cons.IH [of "length ?r" ?r] r by auto
  then show ?case
    using d lines_append [of "buf @ c" "concat cs"] by (auto simp del: drain.simps)
qed

lemma feed_stream:
  "\<exists>pos. feed decode 0 [] cs =
     Some (map convert (fst (lines (concat cs))), pos, snd (lines (concat cs)))"
  using feed_lines [of 0 "[]" cs] by simp

end

lemma decode_codec_scanned:
  assumes "scanned pos buf"
  shows "decode_codec pos buf convert =
    Some (case split_line buf of
            None \<Rightarrow> (None, length buf, buf)
          | Some (l, r) \<Rightarrow> (Some (convert l), 0, r))"
proof -
  from assms have pos: "\<not> length buf < pos" "\<forall>x \<in> set (take pos buf). x \<noteq> newline"
    by (auto simp: scanned_def)
  have skip: "position_of (\<lambda>b. b = newline) buf =
      map_option ((+) pos) (position_of (\<lambda>b. b = newline) (drop pos buf))"
    using position_of_skip [of "take pos buf" "\<lambda>b. b = newline" "drop pos buf"] pos by (simp add: min_def)
  show ?thesis
  proof (cases "split_line buf")
    case None
    then have "\<forall>x \<in> set (drop pos buf). x \<noteq> newline"
      by (auto simp: split_line_None dest: in_set_dropD)
    then have "position_of (\<lambda>b. b = newline) (drop pos buf) = None"
      by (simp add: position_of_None)
    with None pos(1) show ?thesis by (simp add: decode_codec_def)
  next
    case (Some lr)
    then obtain l r where lr: "lr = (l, r)" and buf: "buf = l @ newline # r" and l: "newline \<notin> set l"
      by (cases lr) (auto simp: split_line_Some)
    from l have "position_of (\<lambda>b. b = newline) buf = Some (length l)"
      unfolding buf by (intro position_of_found) auto
    with skip obtain i where "position_of (\<lambda>b. b = newline) (drop pos buf) = Some i" "pos + i = length l"
      by (cases "position_of (\<lambda>b. b = newline) (drop pos buf)") auto
    with pos(1) Some lr buf show ?thesis by (simp add: decode_codec_def Let_def)
  qed
qed

interpretation line: line_decoder "line_decode lib" "from_slice lib" for lib
  by unfold_locales (simp add: line_decode_def decode_codec_scanned)

interpretation dirty_line: line_decoder "dirty_line_decode lib" "dirty_convert lib" for lib
  by unfold_locales (simp add: dirty_line_decode_def decode_codec_scanned)

section \<open>Encoded streams\<close>

text \<open>Encoding several messages one after the other into one buffer.\<close>

primrec encode_all :: "json_lib \<Rightarrow> message list \<Rightarrow> byte list \<Rightarrow> byte list" where
  "encode_all lib [] buf = buf"
| "encode_all lib (m # ms) buf = encode_all lib ms (snd (line_encode lib m buf))"

text \<open>
  What the codecs need of \<open>serde_json\<close> for one message: its compact form has no newline,
  and parses back.
\<close>

definition line_safe :: "json_lib \<Rightarrow> message \<Rightarrow> bool" where
  "line_safe lib m \<longleftrightarrow>
     (\<exists>w. ser_message m = Inr w \<and> newline \<notin> set (print_value lib w) \<and>
          parse_slice lib (print_value lib w) = Inr w) \<and> ok_message m"

lemma line_safe_encode:
  assumes "line_safe lib m"
  obtains bs where "encode_codec lib m buf = (Inr (), buf @ bs @ [newline])"
    and "newline \<notin> set bs" and "from_slice lib bs = Inr (norm_message m)"
proof -
  from assms obtain w where w: "ser_message m = Inr w" "newline \<notin> set (print_value lib w)"
    "parse_slice lib (print_value lib w) = Inr w" "ok_message m"
    by (auto simp: line_safe_def)
  have "from_slice lib (print_value lib w) = Inr (norm_message m)"
    by (rule from_slice_norm) (use w in auto)
  then show ?thesis using w by (intro that [of "print_value lib w"]) (simp_all add: encode_codec_def to_vec_def)
qed

lemma encode_all_lines:
  "\<forall>m \<in> set ms. line_safe lib m \<Longrightarrow>
   \<exists>ls. lines (encode_all lib ms []) = (ls, []) \<and> map (from_slice lib) ls = map (Inr \<circ> norm_message) ms"
proof -
  have aux: "\<forall>m \<in> set ms. line_safe lib m \<Longrightarrow> lines buf = (ls, []) \<Longrightarrow>
      \<exists>ks. lines (encode_all lib ms buf) = (ls @ ks, []) \<and>
        map (from_slice lib) ks = map (Inr \<circ> norm_message) ms" for buf ls
  proof (induction ms arbitrary: buf ls)
    case Nil
    then show ?case by simp
  next
    case (Cons m ms)
    then have "line_safe lib m" by simp
    then obtain bs where bs: "encode_codec lib m buf = (Inr (), buf @ bs @ [newline])"
      "newline \<notin> set bs" "from_slice lib bs = Inr (norm_message m)"
      by (rule line_safe_encode)
    then have "lines (buf @ bs @ [newline]) = (ls @ [bs], [])"
      using Cons.prems(2) lines_line [of bs "[]"] by (simp add: lines_append [of buf])
    then obtain ks where "lines (encode_all lib ms (buf @ bs @ [newline])) = ((ls @ [bs]) @ ks, [])"
      "map (from_slice lib) ks = map (Inr \<circ> norm_message) ms"
      using Cons.IH [of "buf @ bs @ [newline]" "ls @ [bs]"] Cons.prems(1) by auto
    with bs show ?case by (intro exI [of _ "bs # ks"]) simp
  qed
  then show "\<forall>m \<in> set ms. line_safe lib m \<Longrightarrow>
   \<exists>ls. lines (encode_all lib ms []) = (ls, []) \<and> map (from_slice lib) ls = map (Inr \<circ> norm_message) ms"
    using aux [of "[]" "[]"] by simp
qed

text \<open>
  Two ends speak: messages encoded one after the other into a buffer, cut into any chunks on
  the way, come out of the \<open>Line\<close> codec as the same messages in the same order, with nothing
  left over.  Of \<open>serde_json\<close> this uses that the compact form of each message holds no
  newline and parses back.
\<close>

lemma feed_encoded:
  assumes "\<forall>m \<in> set ms. line_safe lib m" and "concat chunks = encode_all lib ms []"
  shows "\<exists>pos. feed (line_decode lib) line_new [] chunks =
    Some (map (Inr \<circ> norm_message) ms, pos, [])"
  using encode_all_lines [OF assms(1)] line.feed_stream [of lib chunks] assms(2)
  by (auto simp: line_new_def)

section \<open>Properties\<close>

text \<open>
  C15. Framing does not depend on how the transport cuts the bytes: for every sequence of reads,
  the \<open>Line\<close> codec, decoding until nothing comes after each read, never panics, yields
  exactly the complete lines of the whole stream, each converted once and in order, and keeps
  exactly the unfinished last line.
\<close>

theorem line_stream:
  "\<exists>pos. feed (line_decode lib) line_new [] chunks =
     Some (map (from_slice lib) (fst (lines (concat chunks))), pos, snd (lines (concat chunks)))"
  using line.feed_stream by (simp add: line_new_def)

text \<open>
  The same for \<open>DirtyLine\<close>, whose conversion hands the parser well-formed UTF-8 whatever
  the bytes of the line are.
\<close>

lemma dirty_line_stream:
  "\<exists>pos. feed (dirty_line_decode lib) dirty_line_new [] chunks =
     Some (map (\<lambda>l. from_slice lib (utf8_lossy l)) (fst (lines (concat chunks))), pos,
           snd (lines (concat chunks))) \<and>
   (\<forall>l. utf8_valid (utf8_lossy l))"
  using dirty_line.feed_stream [of lib chunks]
  by (simp add: dirty_line_new_def dirty_convert_def [abs_def] from_str_def utf8_valid_lossy)

text \<open>
  The scanned position is a cache only: in every state a decoder can reach, decoding from the
  cached position gives what scanning the whole buffer gives, does not panic, and leaves a
  position that is again right, also after the buffer has grown.
\<close>

lemma scan_position_is_cache:
  assumes "scanned pos buf"
  shows "decode_codec pos buf convert = decode_codec 0 buf convert \<and>
    (\<exists>item pos' buf'. decode_codec pos buf convert = Some (item, pos', buf') \<and>
       (\<forall>more. scanned pos' (buf' @ more)))"
proof -
  have d: "decode_codec p buf convert =
      Some (case split_line buf of
              None \<Rightarrow> (None, length buf, buf)
            | Some (l, r) \<Rightarrow> (Some (convert l), 0, r))" if "p \<in> {0, pos}" for p
    by (rule decode_codec_scanned) (use that assms in auto)
  show ?thesis
  proof (cases "split_line buf")
    case None
    then have "newline \<notin> set buf" by (simp add: split_line_None)
    then have "scanned (length buf) (buf @ more)" for more by simp
    with None show ?thesis by (simp add: d)
  next
    case (Some lr)
    then show ?thesis by (cases lr) (simp add: d)
  qed
qed

text \<open>
  \<open>encode_codec\<close> only appends: on success the buffer gains the serialized message and
  one newline, and where the message does not serialize (an \<open>UnmatchedSub\<close> in it) the error
  is returned and the buffer is untouched.
\<close>

lemma encode_appends:
  "encode_codec lib m buf =
     (if serializable m
      then (Inr (), buf @ the (into_bytes lib m) @ [newline])
      else (Inl (OtherError ''the enum variant Message::UnmatchedSub cannot be serialized''), buf))"
proof (cases "ser_message m")
  case (Inr w)
  then have "serializable m" using ser_message_serializable(1) [of m] by blast
  with Inr show ?thesis by (simp add: encode_codec_def to_vec_def into_bytes_def)
next
  case (Inl e)
  then have "\<not> serializable m" using ser_message_serializable(1) [of m] by auto
  with Inl ser_message_error(1) [OF Inl] show ?thesis by (simp add: encode_codec_def to_vec_def)
qed

text \<open>
  Where every line of the buffer is well-formed UTF-8 the two line codecs are the same
  decoder, state for state: \<open>DirtyLine\<close> differs from \<open>Line\<close> on malformed lines only.
\<close>

lemma dirty_line_agrees:
  assumes "\<And>l r. buf = l @ newline # r \<Longrightarrow> utf8_valid l"
  shows "dirty_line_decode lib pos buf = line_decode lib pos buf"
proof (cases "length buf < pos")
  case True
  then show ?thesis by (simp add: dirty_line_decode_def line_decode_def decode_codec_def)
next
  case False
  show ?thesis
  proof (cases "position_of (\<lambda>b. b = newline) (drop pos buf)")
    case None
    then show ?thesis by (simp add: dirty_line_decode_def line_decode_def decode_codec_def)
  next
    case (Some i)
    then have i: "i < length (drop pos buf)" "drop pos buf ! i = newline"
      using position_of_SomeD [OF Some] by auto
    then have "buf = take (pos + i) buf @ newline # drop (Suc (pos + i)) buf"
      using False id_take_nth_drop [of "pos + i" buf] by simp
    then have "utf8_valid (take (pos + i) buf)" by (rule assms)
    with Some show ?thesis
      by (simp add: dirty_line_decode_def line_decode_def decode_codec_def dirty_convert_def
          from_str_def utf8_lossy_valid_id)
  qed
qed

section \<open>Streams of documents\<close>

text \<open>The \<open>Boundary\<close> codec keeps no position.\<close>

definition boundary_step :: "stream_lib \<Rightarrow> nat \<Rightarrow> byte list \<Rightarrow> (parsed option \<times> nat \<times> byte list) option" where
  "boundary_step lib pos src = map_option (\<lambda>(item, rest). (item, pos, rest)) (boundary_decode lib src)"

definition boundary_convert :: "stream_lib \<Rightarrow> value \<Rightarrow> parsed" where
  "boundary_convert lib v = decoded_to_parsed (map_err (show_error lib) (de_wire_message v))"

text \<open>JSON's white space.\<close>

definition blank :: "byte \<Rightarrow> bool" where
  "blank b \<longleftrightarrow> b \<in> {9, 10, 13, 32}"

abbreviation blanks :: "byte list \<Rightarrow> bool" where
  "blanks ws \<equiv> list_all blank ws"

text \<open>
  What \<open>StreamDeserializer\<close> documents of one self-delimiting document: white space before it is
  skipped, the offset stands after it whatever follows, and a proper beginning of it is an
  end-of-file error with the offset before it.
\<close>

definition stream_doc :: "stream_lib \<Rightarrow> byte list \<Rightarrow> value \<Rightarrow> bool" where
  "stream_doc lib core v \<longleftrightarrow> core \<noteq> [] \<and>
     (\<forall>ws. blanks ws \<longrightarrow>
        (\<forall>rest. next_doc lib (ws @ core @ rest) = (Some (Inr v), length ws + length core)) \<and>
        (\<forall>p q. core = p @ q \<and> p \<noteq> [] \<and> q \<noteq> [] \<longrightarrow>
           (\<exists>e. is_eof e \<and> next_doc lib (ws @ p) = (Some (Inl e), length ws))))"

definition blank_end :: "stream_lib \<Rightarrow> bool" where
  "blank_end lib \<longleftrightarrow> (\<forall>ws. blanks ws \<longrightarrow> next_doc lib ws = (None, length ws))"

text \<open>Documents, each after some white space, and white space at the end.\<close>

primrec layout :: "(byte list \<times> byte list \<times> value) list \<Rightarrow> byte list \<Rightarrow> byte list" where
  "layout [] trail = trail"
| "layout (d # ds) trail = fst d @ fst (snd d) @ layout ds trail"

definition docs_ok :: "stream_lib \<Rightarrow> (byte list \<times> byte list \<times> value) list \<Rightarrow> bool" where
  "docs_ok lib ds \<longleftrightarrow> (\<forall>(ws, core, v) \<in> set ds. blanks ws \<and> stream_doc lib core v)"

lemma docs_ok_Nil [simp]: "docs_ok lib []"
  by (simp add: docs_ok_def)

lemma docs_ok_Cons [simp]:
  "docs_ok lib ((ws, core, v) # ds) \<longleftrightarrow> blanks ws \<and> stream_doc lib core v \<and> docs_ok lib ds"
  by (auto simp: docs_ok_def)

lemma boundary_step_doc:
  assumes "stream_doc lib core v" and "blanks ws"
  shows "boundary_step lib pos (ws @ core @ rest) = Some (Some (boundary_convert lib v), pos, rest)"
  using assms by (simp add: stream_doc_def boundary_step_def boundary_decode_def boundary_convert_def)

lemma boundary_step_partial:
  assumes "stream_doc lib (p @ q) v" and "blanks ws" and "p \<noteq> []" and "q \<noteq> []"
  shows "boundary_step lib pos (ws @ p) = Some (None, pos, p)"
proof -
  from assms obtain e where "is_eof e" "next_doc lib (ws @ p) = (Some (Inl e), length ws)"
    unfolding stream_doc_def by blast
  then show ?thesis by (simp add: boundary_step_def boundary_decode_def)
qed

lemma boundary_step_blank:
  "blank_end lib \<Longrightarrow> blanks ws \<Longrightarrow> boundary_step lib pos ws = Some (None, pos, [])"
  by (simp add: blank_end_def boundary_step_def boundary_decode_def)

text \<open>What is left when decoding stops: nothing, or the beginning of the next document.\<close>

definition partial_doc :: "byte list \<Rightarrow> (byte list \<times> byte list \<times> value) list \<Rightarrow> bool" where
  "partial_doc r ds \<longleftrightarrow> r = [] \<or>
     (\<exists>core v ds' q. ds = ([], core, v) # ds' \<and> core = r @ q \<and> q \<noteq> [])"

lemma drain_docs:
  assumes "blank_end lib"
  shows "x @ y = layout ds trail \<Longrightarrow> docs_ok lib ds \<Longrightarrow> blanks trail \<Longrightarrow> length x < n \<Longrightarrow>
   \<exists>ready rest trail' r.
     drain n (boundary_step lib) 0 x = Some (map (\<lambda>d. boundary_convert lib (snd (snd d))) ready, 0, r) \<and>
     r @ y = layout rest trail' \<and> docs_ok lib rest \<and> blanks trail' \<and> partial_doc r rest \<and>
     map (snd \<circ> snd) ds = map (snd \<circ> snd) (ready @ rest)"
proof (induction ds arbitrary: x n)
  case Nil
  then obtain m where n: "n = Suc m" by (cases n) auto
  from Nil have "blanks x" "blanks y" by (metis layout.simps(1) list_all_append)+
  then show ?case using n
    by (intro exI [of _ "[]"] exI [of _ y]) (simp add: boundary_step_blank assms partial_doc_def)
next
  case (Cons d ds)
  obtain ws core v where d: "d = (ws, core, v)" by (cases d) auto
  from Cons.prems obtain m where n: "n = Suc m" by (cases n) auto
  have ok: "blanks ws" "stream_doc lib core v" "docs_ok lib ds" using Cons.prems(2) d by auto
  have eq: "x @ y = ws @ core @ layout ds trail" using Cons.prems(1) d by simp
  consider (whole) x' where "x = ws @ core @ x'" "x' @ y = layout ds trail"
    | (blank) ws' where "ws = x @ ws'" "y = ws' @ core @ layout ds trail"
    | (part) p q where "x = ws @ p" "core = p @ q" "p \<noteq> []" "q \<noteq> []" "y = q @ layout ds trail"
  proof -
    from eq consider us where "x = ws @ us" "us @ y = core @ layout ds trail"
      | us where "ws = x @ us" "y = us @ core @ layout ds trail"
      by (auto simp: append_eq_append_conv2)
    then show thesis
    proof cases
      case 1
      then consider vs where "us = core @ vs" "vs @ y = layout ds trail"
        | vs where "core = us @ vs" "y = vs @ layout ds trail"
        by (auto simp: append_eq_append_conv2)
      then show ?thesis
      proof cases
        case 1
        with \<open>x = ws @ us\<close> show ?thesis by (intro whole) simp_all
      next
        case 2
        with 1 show ?thesis
          by (cases "us = []"; cases "vs = []")
            (use whole [of "[]"] blank [of "[]"] part [of us vs] in auto)
      qed
    next
      case 2
      then show ?thesis by (intro blank) simp_all
    qed
  qed
  then show ?case
  proof cases
    case whole
    have "length x' < m"
      using Cons.prems(4) n whole(1) ok(2) by (cases core) (auto simp: stream_doc_def)
    from Cons.IH [OF whole(2) ok(3) Cons.prems(3) this]
    obtain ready rest trail' r where ready:
      "drain m (boundary_step lib) 0 x' = Some (map (\<lambda>d. boundary_convert lib (snd (snd d))) ready, 0, r)"
      "r @ y = layout rest trail'" "docs_ok lib rest" "blanks trail'" "partial_doc r rest"
      "map (snd \<circ> snd) ds = map (snd \<circ> snd) (ready @ rest)"
      by blast
    show ?thesis
    proof (intro exI conjI)
      show "drain n (boundary_step lib) 0 x =
          Some (map (\<lambda>d. boundary_convert lib (snd (snd d))) (d # ready), 0, r)"
        using ready(1) whole(1) n d boundary_step_doc [OF ok(2,1)] by simp
      show "map (snd \<circ> snd) (d # ds) = map (snd \<circ> snd) ((d # ready) @ rest)"
        using ready(6) by simp
    qed (rule ready)+
  next
    case blank
    then have "blanks x" "blanks ws'" using ok(1) by auto
    then show ?thesis
      using blank(2) n d ok Cons.prems(3)
      by (intro exI [of _ "[]"] exI [of _ "(ws', core, v) # ds"] exI [of _ trail])
        (simp add: boundary_step_blank assms partial_doc_def)
  next
    case part
    then have "boundary_step lib 0 x = Some (None, 0, p)"
      using boundary_step_partial [of lib p q v ws] ok by simp
    then show ?thesis
      using part n d ok Cons.prems(3)
      by (intro exI [of _ "[]"] exI [of _ "([], core, v) # ds"] exI [of _ trail] exI [of _ p])
        (auto simp: partial_doc_def)
  qed
qed

lemma partial_doc_end:
  assumes "partial_doc r ds" and "docs_ok lib ds" and "r = layout ds trail"
  shows "ds = [] \<and> trail = [] \<and> r = []"
  using assms
proof (cases ds)
  case Nil
  then show ?thesis using assms by (auto simp: partial_doc_def)
next
  case (Cons d ds')
  then show ?thesis using assms by (cases d) (auto simp: partial_doc_def stream_doc_def)
qed

lemma feed_docs:
  assumes "blank_end lib"
  shows "buf @ concat cs = layout ds trail \<Longrightarrow> docs_ok lib ds \<Longrightarrow> blanks trail \<Longrightarrow> partial_doc buf ds \<Longrightarrow>
    feed (boundary_step lib) 0 buf cs = Some (map (\<lambda>d. boundary_convert lib (snd (snd d))) ds, 0, [])"
proof (induction cs arbitrary: buf ds trail)
  case Nil
  then show ?case using partial_doc_end [of buf ds lib trail] by auto
next
  case (Cons c cs)
  have "(buf @ c) @ concat cs = layout ds trail" using Cons.prems(1) by simp
  from drain_docs [OF assms this Cons.prems(2,3) lessI]
  obtain ready rest trail' r where
    drained: "drain (Suc (length (buf @ c))) (boundary_step lib) 0 (buf @ c) =
      Some (map (\<lambda>d. boundary_convert lib (snd (snd d))) ready, 0, r)"
    and rest: "r @ concat cs = layout rest trail'" "docs_ok lib rest" "blanks trail'" "partial_doc r rest"
    and split: "map (snd \<circ> snd) ds = map (snd \<circ> snd) (ready @ rest)"
    by blast
  from split have "map (boundary_convert lib) (map (snd \<circ> snd) ds) =
      map (boundary_convert lib) (map (snd \<circ> snd) (ready @ rest))" by simp
  then have "map (\<lambda>d. boundary_convert lib (snd (snd d))) ds =
      map (\<lambda>d. boundary_convert lib (snd (snd d))) (ready @ rest)" by (simp add: comp_def)
  with drained Cons.IH [OF rest] show ?case by (simp del: drain.simps)
qed

text \<open>
  C16. The \<open>Boundary\<close> codec separates documents without needing newlines: when the stream is
  self-delimiting documents, with or without white space between them, then however the
  transport cuts it the codec yields every document once and in order, classified as the line
  codecs would, and keeps nothing.
\<close>

theorem boundary_stream:
  assumes "blank_end lib" and "docs_ok lib ds" and "blanks trail" and "concat chunks = layout ds trail"
  shows "feed (boundary_step lib) 0 [] chunks =
    Some (map (\<lambda>(ws, core, v). decoded_to_parsed (map_err (show_error lib) (de_wire_message v))) ds, 0, [])"
  using feed_docs [OF assms(1), of "[]" chunks ds trail] assms
  by (simp add: partial_doc_def boundary_convert_def split_def)

text \<open>A stream parser that knows one document, for the witnesses.\<close>

definition one_doc :: "byte list \<Rightarrow> value \<Rightarrow> byte list \<Rightarrow> (stream_error + value) option \<times> nat" where
  "one_doc core v src =
     (let ws = takeWhile blank src;
          doc = dropWhile blank src
      in if doc = [] then (None, length ws)
         else if take (length core) doc = core then (Some (Inr v), length ws + length core)
         else (Some (Inl \<lparr>is_eof = (take (length doc) core = doc), error_text = ''expected value''\<rparr>),
               length ws))"

definition one_doc_lib :: "byte list \<Rightarrow> value \<Rightarrow> stream_lib" where
  "one_doc_lib core v =
     \<lparr>parse_slice = (\<lambda>bs. if bs = core then Inr v else Inl ''expected value''),
      print_value = (\<lambda>_. core), show_error = (\<lambda>_. ''error''), next_doc = one_doc core v\<rparr>"

lemma blanks_takeWhile:
  assumes "blanks ws" and "xs = [] \<or> \<not> blank (hd xs)"
  shows "takeWhile blank (ws @ xs) = ws \<and> dropWhile blank (ws @ xs) = xs"
proof -
  from assms(1) have "\<forall>b \<in> set ws. blank b" by (simp add: list_all_iff)
  with assms(2) show ?thesis by (cases xs) (simp_all add: takeWhile_append dropWhile_append)
qed

lemma one_doc_lib_ok:
  assumes "core \<noteq> []" and "\<not> blank (hd core)"
  shows "stream_doc (one_doc_lib core v) core v" and "blank_end (one_doc_lib core v)"
proof -
  have "next_doc (one_doc_lib core v) (ws @ core @ rest) = (Some (Inr v), length ws + length core)"
    if "blanks ws" for ws rest
    using blanks_takeWhile [OF that, of "core @ rest"] assms
    by (simp add: one_doc_lib_def one_doc_def)
  moreover have "next_doc (one_doc_lib core v) (ws @ p) =
      (Some (Inl \<lparr>is_eof = True, error_text = ''expected value''\<rparr>), length ws)"
    if "blanks ws" "core = p @ q" "p \<noteq> []" "q \<noteq> []" for ws p q
    using blanks_takeWhile [OF that(1), of p] that assms
    by (simp add: one_doc_lib_def one_doc_def)
  ultimately show "stream_doc (one_doc_lib core v) core v"
    using assms unfolding stream_doc_def by (metis stream_error.select_convs(1))
  show "blank_end (one_doc_lib core v)"
    using blanks_takeWhile [of _ "[]"]
    by (simp add: blank_end_def one_doc_lib_def one_doc_def list_all_iff takeWhile_eq_all_conv [THEN iffD2])
qed

lemma notif_text_starts: "notif_text \<noteq> []" "\<not> blank (hd notif_text)"
  by (simp_all add: notif_text_def as_bytes_def blank_def)

theorem boundary_stream_witness:
  "feed (boundary_step (one_doc_lib notif_text notif_tree)) 0 []
     [take 5 notif_text, drop 5 notif_text @ notif_text, [10, 32]] =
   Some ([Inr (message_notification ''hi'' (Some (Array [Null]))),
          Inr (message_notification ''hi'' (Some (Array [Null])))], 0, [])"
proof -
  let ?lib = "one_doc_lib notif_text notif_tree"
  let ?ds = "[([] :: byte list, notif_text, notif_tree), ([], notif_text, notif_tree)]"
  have "docs_ok ?lib ?ds" using one_doc_lib_ok(1) [OF notif_text_starts] by simp
  moreover have "blanks [10, 32]" by (simp add: blank_def)
  moreover have "concat [take 5 notif_text, drop 5 notif_text @ notif_text, [10, 32]] = layout ?ds [10, 32]"
    by simp
  ultimately have "feed (boundary_step ?lib) 0 []
     [take 5 notif_text, drop 5 notif_text @ notif_text, [10, 32]] =
     Some (map (\<lambda>(ws, core, v). decoded_to_parsed (map_err (show_error ?lib) (de_wire_message v))) ?ds, 0, [])"
    using one_doc_lib_ok(2) [OF notif_text_starts, of notif_tree] by (intro boundary_stream)
  moreover have "de_wire_message notif_tree =
      Inr (WireMessage (message_notification ''hi'' (Some (Array [Null]))))"
    by code_simp
  moreover have "decoded_to_parsed (Inr (WireMessage (message_notification ''hi'' (Some (Array [Null]))))) =
      Inr (message_notification ''hi'' (Some (Array [Null])))"
    by (simp add: message_notification_def)
  ultimately show ?thesis by (simp only: list.map prod.case map_err.simps)
qed

text \<open>
  A syntax error stops the \<open>Boundary\<close> codec for good: \<open>byte_offset\<close> counts only what
  was read successfully, so the bad bytes stay in the buffer, the same error comes out of every
  further call, and decoding until no item comes never finishes.  (The module's documentation
  says that the line codecs can recover and that this one ends the connection.)
\<close>

lemma boundary_syntax_error_repeats:
  assumes "next_doc lib src = (Some (Inl e), 0)" and "\<not> is_eof e"
  shows "boundary_decode lib src = Some (Some (Inl (SyntaxError (error_text e))), src) \<and>
    (\<forall>fuel. drain fuel (boundary_step lib) 0 src = None)"
proof -
  have dec: "boundary_decode lib src = Some (Some (Inl (SyntaxError (error_text e))), src)"
    using assms by (simp add: boundary_decode_def)
  then have "drain fuel (boundary_step lib) 0 src = None" for fuel
    by (induction fuel) (simp_all add: boundary_step_def)
  with dec show ?thesis by simp
qed

end
