(* ===== verification/Ctl.thy ===== *)
theory Ctl
  imports Message
begin

text \<open>
  The state a connection shares (\<open>src/src/endpoint.rs\<close>): what \<open>ServerCtlInternal\<close>
  holds, the reference-counted \<open>DropTerminator\<close>, the channel of outgoing messages with its
  \<open>Sender\<close>s, and the map from request ids to the oneshots that wake the callers.

  Everything here is behind \<open>Rc\<close> in the code, so there is one state per connection,
  passed explicitly.  An \<open>Option\<close> of a handle is whether the handle is there; the handles
  themselves are counted: \<open>term_refs\<close> is the strong count of \<open>Rc<DropTerminator>\<close>,
  \<open>senders\<close> the number of clones of the \<open>Sender\<close>, \<open>clients\<close> the number of
  \<open>Client\<close> values alive.  \<open>srv\<close> is the state of the server implementation, which
  its callbacks may change.  A \<open>ServerCtl\<close> is \<open>Clone\<close> and whoever is given one may keep it, so the control's
  own handles are taken to be there until they are given up; after the end of a connection nobody
  listens to its terminator any more.
\<close>

section \<open>State\<close>

text \<open>
  The oneshot of a call, seen from its receiver, and the future that waits for it: as long as that
  future is \<open>live\<close> it keeps a reference to the terminator.
\<close>

datatype slot =
    Waiting
  | Arrived response
  | Cancelled

record call =
  call_id :: string
  slot :: slot
  live :: bool
  timed :: bool

text \<open>
  The channel a batch collects its replies in: what it holds, how many senders there are, and
  whether its receiver is still there.
\<close>

record channel =
  capacity :: nat
  chan_queue :: "message list"
  chan_senders :: nat
  chan_open :: bool

record 's conn =
  stop :: bool
  terminator :: bool
  killer :: bool
  ctl_sender :: bool
  idmap :: "string \<rightharpoonup> nat"
  term_refs :: nat
  term_fired :: bool
  kill_fired :: bool
  senders :: nat
  outbox :: "message list"
  outbox_open :: bool
  clients :: nat
  calls :: "call list"
  chans :: "channel list"
  srv :: 's

datatype already_terminated = AlreadyTerminated

text \<open>\<open>#[derive(Ord, PartialOrd)]\<close>.\<close>

instantiation already_terminated :: linorder
begin

definition less_eq_already_terminated :: "already_terminated \<Rightarrow> already_terminated \<Rightarrow> bool" where
  "less_eq_already_terminated x y \<longleftrightarrow> True"

definition less_already_terminated :: "already_terminated \<Rightarrow> already_terminated \<Rightarrow> bool" where
  "less_already_terminated x y \<longleftrightarrow> False"

instance
proof
  fix x y :: already_terminated
  show "x = y" by (cases x; cases y) simp
qed (simp_all add: less_eq_already_terminated_def less_already_terminated_def)

end

fun display_already_terminated :: "already_terminated \<Rightarrow> string" where
  "display_already_terminated AlreadyTerminated = ''Connection already terminated''"

section \<open>The terminator\<close>

text \<open>Dropping the value sends on its oneshot; the other side may be gone.\<close>

definition drop_terminator :: "'s conn \<Rightarrow> 's conn" where
  "drop_terminator s = s\<lparr>term_fired := True\<rparr>"

text \<open>Cloning and dropping an \<open>RcDrop\<close>: the last drop drops the value.\<close>

definition rc_clone :: "'s conn \<Rightarrow> 's conn" where
  "rc_clone s = s\<lparr>term_refs := term_refs s + 1\<rparr>"

definition rc_drop :: "'s conn \<Rightarrow> 's conn" where
  "rc_drop s =
     (let s' = s\<lparr>term_refs := term_refs s - 1\<rparr>
      in if term_refs s' = 0 then drop_terminator s' else s')"

section \<open>Operations of ServerCtl\<close>

definition cleanup :: "('s conn \<Rightarrow> 's conn) \<Rightarrow> 's conn \<Rightarrow> 's conn" where
  "cleanup f s =
     (let s1 = s\<lparr>stop := True\<rparr>;
          s2 = (if ctl_sender s1 then s1\<lparr>ctl_sender := False, senders := senders s1 - 1\<rparr> else s1)
      in f s2)"

definition terminate :: "'s conn \<Rightarrow> 's conn" where
  "terminate = cleanup (\<lambda>s. if terminator s then rc_drop (s\<lparr>terminator := False\<rparr>) else s)"

definition kill :: "'s conn \<Rightarrow> 's conn" where
  "kill = cleanup (\<lambda>s. if killer s then s\<lparr>killer := False, kill_fired := True\<rparr> else s)"

text \<open>\<open>Client::new\<close> clones the sender and the terminator.\<close>

definition client_new :: "'s conn \<Rightarrow> 's conn" where
  "client_new s = rc_clone (s\<lparr>senders := senders s + 1, clients := clients s + 1\<rparr>)"

definition client :: "'s conn \<Rightarrow> (already_terminated + unit) \<times> 's conn" where
  "client s =
     (if \<not> terminator s then (Inl AlreadyTerminated, s)
      else if \<not> ctl_sender s then (Inl AlreadyTerminated, s)
      else (Inr (), client_new s))"

text \<open>\<open>#[derive(Clone)]\<close> on \<open>Client\<close> clones the same two handles; dropping one drops them.\<close>

definition client_clone :: "'s conn \<Rightarrow> 's conn" where
  "client_clone s = rc_clone (s\<lparr>senders := senders s + 1, clients := clients s + 1\<rparr>)"

definition client_drop :: "'s conn \<Rightarrow> 's conn" where
  "client_drop s = rc_drop (s\<lparr>senders := senders s - 1, clients := clients s - 1\<rparr>)"

lemmas [ctl_defs] = drop_terminator_def rc_clone_def rc_drop_def cleanup_def terminate_def kill_def
  client_new_def client_def client_clone_def client_drop_def

section \<open>The map of outstanding calls\<close>

text \<open>Dropping a oneshot's sender cancels the receiver that still waits.\<close>

fun cancel :: "slot \<Rightarrow> slot" where
  "cancel Waiting = Cancelled"
| "cancel x = x"

text \<open>Replacing the entry of an id, or removing it, drops the sender that was there.\<close>

definition drop_sender :: "nat \<Rightarrow> call list \<Rightarrow> call list" where
  "drop_sender i cs = (if i < length cs then cs[i := (cs ! i)\<lparr>slot := cancel (slot (cs ! i))\<rparr>] else cs)"

definition idmap_drop :: "string \<Rightarrow> 's conn \<Rightarrow> 's conn" where
  "idmap_drop k s =
     (case idmap s k of
        None \<Rightarrow> s
      | Some i \<Rightarrow> s\<lparr>idmap := (idmap s)(k := None), calls := drop_sender i (calls s)\<rparr>)"

text \<open>\<open>idmap.clear()\<close>: every entry's sender is dropped.\<close>

fun cancel_owned :: "(string \<rightharpoonup> nat) \<Rightarrow> nat \<Rightarrow> call list \<Rightarrow> call list" where
  "cancel_owned m i [] = []"
| "cancel_owned m i (c # cs) =
     (if m (call_id c) = Some i then c\<lparr>slot := cancel (slot c)\<rparr> else c) # cancel_owned m (Suc i) cs"

definition idmap_clear :: "'s conn \<Rightarrow> 's conn" where
  "idmap_clear s = s\<lparr>idmap := Map.empty, calls := cancel_owned (idmap s) 0 (calls s)\<rparr>"

lemma length_cancel_owned [simp]: "length (cancel_owned m i cs) = length cs"
  by (induction cs arbitrary: i) auto

lemma nth_cancel_owned:
  "j < length cs \<Longrightarrow>
   cancel_owned m i cs ! j =
     (if m (call_id (cs ! j)) = Some (i + j) then (cs ! j)\<lparr>slot := cancel (slot (cs ! j))\<rparr> else cs ! j)"
proof (induction cs arbitrary: i j)
  case Nil
  then show ?case by simp
next
  case (Cons c cs)
  then show ?case by (cases j) auto
qed

lemma live_cancel_owned [simp]: "length (filter live (cancel_owned m i cs)) = length (filter live cs)"
  by (induction cs arbitrary: i) auto

lemma length_drop_sender [simp]: "length (drop_sender i cs) = length cs"
  by (simp add: drop_sender_def)

lemma nth_drop_sender:
  "j < length cs \<Longrightarrow>
   drop_sender i cs ! j = (if i = j then (cs ! j)\<lparr>slot := cancel (slot (cs ! j))\<rparr> else cs ! j)"
  by (simp add: drop_sender_def nth_list_update)

lemma filter_update_same:
  assumes "i < length xs" and "P x \<longleftrightarrow> P (xs ! i)"
  shows "length (filter P (xs[i := x])) = length (filter P xs)"
  using assms
proof (induction xs arbitrary: i)
  case Nil
  then show ?case by simp
next
  case (Cons y ys)
  then show ?case by (cases i) auto
qed

lemma filter_update_drop:
  assumes "i < length xs" and "P (xs ! i)" and "\<not> P x"
  shows "length (filter P xs) = Suc (length (filter P (xs[i := x])))"
  using assms
proof (induction xs arbitrary: i)
  case Nil
  then show ?case by simp
next
  case (Cons y ys)
  then show ?case by (cases i) auto
qed

lemma live_drop_sender [simp]: "length (filter live (drop_sender i cs)) = length (filter live cs)"
  by (simp add: drop_sender_def filter_update_same)

lemma cancel_eq_Waiting [simp]: "cancel x \<noteq> Waiting" "Waiting \<noteq> cancel x"
  by (cases x; simp)+

section \<open>Invariants of a connection\<close>

text \<open>
  The reference counts count what holds the references, \<open>k\<close> of them local variables of
  \<open>start\<close>, and the terminator has fired when and only when none is left.
\<close>

definition live_calls :: "'s conn \<Rightarrow> nat" where
  "live_calls s = length (filter live (calls s))"

definition refs_ok :: "nat \<Rightarrow> 's conn \<Rightarrow> bool" where
  "refs_ok k s \<longleftrightarrow>
     term_refs s = (if terminator s then 1 else 0) + clients s + live_calls s + k \<and>
     senders s = (if ctl_sender s then 1 else 0) + clients s + k \<and>
     (term_fired s \<longleftrightarrow> term_refs s = 0)"

text \<open>The control handles are given up together with the request to stop, and only then.\<close>

definition ctl_ok :: "'s conn \<Rightarrow> bool" where
  "ctl_ok s \<longleftrightarrow>
     (ctl_sender s \<longleftrightarrow> \<not> stop s) \<and> (\<not> terminator s \<longrightarrow> stop s) \<and>
     (\<not> killer s \<longrightarrow> stop s) \<and> (kill_fired s \<longleftrightarrow> \<not> killer s)"

text \<open>The map holds exactly the senders of the calls whose receiver still waits.\<close>

definition ids_ok :: "'s conn \<Rightarrow> bool" where
  "ids_ok s \<longleftrightarrow>
     (\<forall>k i. idmap s k = Some i \<longrightarrow> i < length (calls s) \<and> call_id (calls s ! i) = k) \<and>
     (\<forall>i < length (calls s).
        slot (calls s ! i) = Waiting \<longleftrightarrow> idmap s (call_id (calls s ! i)) = Some i)"

definition conn_ok :: "nat \<Rightarrow> 's conn \<Rightarrow> bool" where
  "conn_ok k s \<longleftrightarrow> refs_ok k s \<and> ctl_ok s \<and> ids_ok s"

lemma conn_okD:
  "conn_ok k s \<Longrightarrow> refs_ok k s" "conn_ok k s \<Longrightarrow> ctl_ok s" "conn_ok k s \<Longrightarrow> ids_ok s"
  by (simp_all add: conn_ok_def)

lemma conn_okI: "refs_ok k s \<Longrightarrow> ctl_ok s \<Longrightarrow> ids_ok s \<Longrightarrow> conn_ok k s"
  by (simp add: conn_ok_def)

text \<open>Operations that leave the calls alone leave the map right.\<close>

lemma ids_ok_cong: "calls t = calls s \<Longrightarrow> idmap t = idmap s \<Longrightarrow> ids_ok t = ids_ok s"
  by (simp add: ids_ok_def)

text \<open>What each operation does to each field.\<close>

lemma rc_drop_fields [simp]:
  "stop (rc_drop s) = stop s" "terminator (rc_drop s) = terminator s" "killer (rc_drop s) = killer s"
  "ctl_sender (rc_drop s) = ctl_sender s" "idmap (rc_drop s) = idmap s"
  "kill_fired (rc_drop s) = kill_fired s" "senders (rc_drop s) = senders s"
  "outbox (rc_drop s) = outbox s" "outbox_open (rc_drop s) = outbox_open s"
  "clients (rc_drop s) = clients s" "calls (rc_drop s) = calls s" "chans (rc_drop s) = chans s"
  "srv (rc_drop s) = srv s" "term_refs (rc_drop s) = term_refs s - 1"
  "term_fired (rc_drop s) \<longleftrightarrow> term_refs s \<le> 1 \<or> term_fired s"
  by (auto simp: rc_drop_def drop_terminator_def Let_def)

lemma terminate_fields [simp]:
  "stop (terminate s)" "\<not> terminator (terminate s)" "killer (terminate s) = killer s"
  "\<not> ctl_sender (terminate s)" "idmap (terminate s) = idmap s"
  "kill_fired (terminate s) = kill_fired s"
  "senders (terminate s) = senders s - (if ctl_sender s then 1 else 0)"
  "outbox (terminate s) = outbox s" "outbox_open (terminate s) = outbox_open s"
  "clients (terminate s) = clients s" "calls (terminate s) = calls s" "chans (terminate s) = chans s"
  "srv (terminate s) = srv s"
  "term_refs (terminate s) = term_refs s - (if terminator s then 1 else 0)"
  "term_fired (terminate s) \<longleftrightarrow> term_fired s \<or> terminator s \<and> term_refs s \<le> 1"
  by (auto simp: terminate_def cleanup_def Let_def)

lemma kill_fields [simp]:
  "stop (kill s)" "terminator (kill s) = terminator s" "\<not> killer (kill s)"
  "\<not> ctl_sender (kill s)" "idmap (kill s) = idmap s"
  "kill_fired (kill s) \<longleftrightarrow> killer s \<or> kill_fired s"
  "senders (kill s) = senders s - (if ctl_sender s then 1 else 0)"
  "outbox (kill s) = outbox s" "outbox_open (kill s) = outbox_open s"
  "clients (kill s) = clients s" "calls (kill s) = calls s" "chans (kill s) = chans s"
  "srv (kill s) = srv s" "term_refs (kill s) = term_refs s" "term_fired (kill s) = term_fired s"
  by (auto simp: kill_def cleanup_def Let_def)

lemma client_new_fields [simp]:
  "stop (client_new s) = stop s" "terminator (client_new s) = terminator s"
  "killer (client_new s) = killer s" "ctl_sender (client_new s) = ctl_sender s"
  "idmap (client_new s) = idmap s" "kill_fired (client_new s) = kill_fired s"
  "senders (client_new s) = senders s + 1" "outbox (client_new s) = outbox s"
  "outbox_open (client_new s) = outbox_open s" "clients (client_new s) = clients s + 1"
  "calls (client_new s) = calls s" "chans (client_new s) = chans s" "srv (client_new s) = srv s"
  "term_refs (client_new s) = term_refs s + 1" "term_fired (client_new s) = term_fired s"
  by (simp_all add: client_new_def rc_clone_def)

lemma client_clone_new: "client_clone = client_new"
  by (simp add: fun_eq_iff client_clone_def client_new_def)

lemma client_drop_fields [simp]:
  "stop (client_drop s) = stop s" "terminator (client_drop s) = terminator s"
  "killer (client_drop s) = killer s" "ctl_sender (client_drop s) = ctl_sender s"
  "idmap (client_drop s) = idmap s" "kill_fired (client_drop s) = kill_fired s"
  "senders (client_drop s) = senders s - 1" "outbox (client_drop s) = outbox s"
  "outbox_open (client_drop s) = outbox_open s" "clients (client_drop s) = clients s - 1"
  "calls (client_drop s) = calls s" "chans (client_drop s) = chans s" "srv (client_drop s) = srv s"
  "term_refs (client_drop s) = term_refs s - 1"
  "term_fired (client_drop s) \<longleftrightarrow> term_refs s \<le> 1 \<or> term_fired s"
  by (simp_all add: client_drop_def)

text \<open>Each operation keeps each invariant.\<close>

lemma refs_ok_terminate: "refs_ok k s \<Longrightarrow> refs_ok k (terminate s)"
  by (cases "terminator s") (auto simp: refs_ok_def live_calls_def)

lemma ctl_ok_terminate: "ctl_ok s \<Longrightarrow> ctl_ok (terminate s)"
  by (simp add: ctl_ok_def)

lemma conn_ok_terminate: "conn_ok k s \<Longrightarrow> conn_ok k (terminate s)"
  by (simp add: conn_ok_def refs_ok_terminate ctl_ok_terminate ids_ok_cong [of "terminate s" s])

lemma conn_ok_kill: "conn_ok k s \<Longrightarrow> conn_ok k (kill s)"
  by (auto simp: conn_ok_def refs_ok_def live_calls_def ctl_ok_def ids_ok_cong [of "kill s" s])

lemma conn_ok_client_new: "conn_ok k s \<Longrightarrow> \<not> term_fired s \<Longrightarrow> conn_ok k (client_new s)"
  by (auto simp: conn_ok_def refs_ok_def live_calls_def ctl_ok_def ids_ok_cong [of "client_new s" s])

lemma refs_ok_not_fired: "refs_ok k s \<Longrightarrow> terminator s \<or> 0 < clients s \<Longrightarrow> \<not> term_fired s"
  by (auto simp: refs_ok_def)

lemma conn_ok_client: "conn_ok k s \<Longrightarrow> conn_ok k (snd (client s))"
  by (auto simp: client_def intro!: conn_ok_client_new dest: conn_okD refs_ok_not_fired)

lemma conn_ok_client_clone: "conn_ok k s \<Longrightarrow> 0 < clients s \<Longrightarrow> conn_ok k (client_clone s)"
  by (auto simp: client_clone_new intro!: conn_ok_client_new dest: conn_okD refs_ok_not_fired)

lemma refs_ok_client_drop: "refs_ok k s \<Longrightarrow> 0 < clients s \<Longrightarrow> refs_ok k (client_drop s)"
  by (auto simp: refs_ok_def live_calls_def)

lemma conn_ok_client_drop: "conn_ok k s \<Longrightarrow> 0 < clients s \<Longrightarrow> conn_ok k (client_drop s)"
  by (simp add: conn_ok_def refs_ok_client_drop ctl_ok_def ids_ok_cong [of "client_drop s" s])

lemma ids_ok_idmap_drop: "ids_ok s \<Longrightarrow> ids_ok (idmap_drop k s)"
  by (auto simp: ids_ok_def idmap_drop_def nth_drop_sender split: option.splits)

lemma ids_ok_idmap_clear: "ids_ok s \<Longrightarrow> ids_ok (idmap_clear s)"
  by (auto simp: ids_ok_def idmap_clear_def nth_cancel_owned)

lemma conn_ok_idmap_drop: "conn_ok k s \<Longrightarrow> conn_ok k (idmap_drop j s)"
  using ids_ok_idmap_drop [of s j]
  by (auto simp: conn_ok_def refs_ok_def ctl_ok_def live_calls_def idmap_drop_def split: option.splits)

lemma conn_ok_idmap_clear: "conn_ok k s \<Longrightarrow> conn_ok k (idmap_clear s)"
  using ids_ok_idmap_clear [of s]
  by (auto simp: conn_ok_def refs_ok_def ctl_ok_def live_calls_def idmap_clear_def)

end
