(* ===== verification/Client.thy ===== *)
theory Client
  imports Codec Ctl
begin

text \<open>
  The client half of an endpoint (\<open>Client\<close> in \<open>src/src/endpoint.rs\<close>): calling an RPC,
  waiting for its answer, notifying.

  \<open>Client::call\<close> returns a future that, when polled, sends the message and then yields the
  client back together with a second future for the answer.  The model has one function for the call,
  one for polling each future and one for dropping each; a future that is not ready leaves the
  state as it is.  The id \<open>Uuid::new_v4\<close> draws and what \<open>Timeout::new\<close> and the timer
  give are arguments.  \<open>accepts c n\<close> is the rule by which a bounded channel of capacity
  \<open>c\<close> takes another message when it holds \<open>n\<close>: the channel is a library's.
\<close>

section \<open>Polling\<close>

datatype 'a poll =
    NotReady
  | Ready 'a

type_synonym room = "nat \<Rightarrow> nat \<Rightarrow> bool"

text \<open>\<open>shouldnt_happen\<close> maps every error to one text.\<close>

definition shouldnt_happen :: "'e \<Rightarrow> io_error" where
  "shouldnt_happen _ = OtherError ''Shouldn't happen''"

text \<open>The channel of outgoing messages is created with this capacity.\<close>

definition outgoing_capacity :: nat where
  "outgoing_capacity = 32"

text \<open>
  Polling \<open>sender.send(msg).map_err(shouldnt_happen)\<close>: the receiver may be gone, the channel may
  be full.
\<close>

definition send_poll :: "room \<Rightarrow> message \<Rightarrow> 's conn \<Rightarrow> (io_error + unit) poll \<times> 's conn" where
  "send_poll accepts msg s =
     (if \<not> outbox_open s then (Ready (Inl (shouldnt_happen msg)), s)
      else if accepts outgoing_capacity (length (outbox s))
           then (Ready (Inr ()), s\<lparr>outbox := outbox s @ [msg]\<rparr>)
      else (NotReady, s))"

section \<open>Calling\<close>

text \<open>
  Dropping the future that receives an answer (the oneshot's receiver and the closure that owns the
  reference to the terminator).
\<close>

definition answer_drop :: "nat \<Rightarrow> 's conn \<Rightarrow> 's conn" where
  "answer_drop i s = rc_drop (s\<lparr>calls := (calls s)[i := (calls s ! i)\<lparr>live := False\<rparr>]\<rparr>)"

text \<open>
  \<open>Client::call\<close> up to the returned future.  The timeout is \<open>None\<close> for no timeout and
  otherwise the result of making the timer; where that failed the client, the oneshot and its
  receiver are dropped.  Otherwise the result is the message still to send and the number of
  the call.
\<close>

definition client_call ::
  "string \<Rightarrow> string \<Rightarrow> value option \<Rightarrow> (io_error + unit) option \<Rightarrow> 's conn
   \<Rightarrow> (io_error + message \<times> nat) \<times> 's conn"
where
  "client_call uuid m params timeout s =
     (let msg = message_request uuid m params;
          i = length (calls s);
          s1 = rc_clone (s\<lparr>calls := calls s @
                 [\<lparr>call_id = uuid, slot = Waiting, live = True, timed = (timeout \<noteq> None)\<rparr>]\<rparr>)
      in case timeout of
           Some (Inl e) \<Rightarrow>
             (let s2 = s1\<lparr>calls := drop_sender i (calls s1)\<rparr>
              in (Inl e, client_drop (answer_drop i s2)))
         | _ \<Rightarrow>
             (let s2 = idmap_drop uuid s1
              in (Inr (msg, i), s2\<lparr>idmap := (idmap s2)(uuid \<mapsto> i)\<rparr>)))"

text \<open>
  Polling the returned future.  When the connection is gone, the client and the future for the
  answer are dropped with the error.
\<close>

definition call_sent_poll ::
  "room \<Rightarrow> message \<Rightarrow> nat \<Rightarrow> 's conn \<Rightarrow> (io_error + nat) poll \<times> 's conn"
where
  "call_sent_poll accepts msg i s =
     (case send_poll accepts msg s of
        (NotReady, s') \<Rightarrow> (NotReady, s')
      | (Ready (Inl e), s') \<Rightarrow> (Ready (Inl e), client_drop (answer_drop i s'))
      | (Ready (Inr _), s') \<Rightarrow> (Ready (Inr i), s'))"

text \<open>
  Polling the future for the answer.  With a timeout the timer is asked first; it is \<open>None\<close>
  while it runs.  Whatever comes first, a call with a timeout then removes its id.
\<close>

definition received_poll :: "nat \<Rightarrow> 's conn \<Rightarrow> (io_error + response option) poll \<times> 's conn" where
  "received_poll i s =
     (case slot (calls s ! i) of
        Waiting \<Rightarrow> (NotReady, s)
      | Arrived r \<Rightarrow> (Ready (Inr (Some r)), answer_drop i s)
      | Cancelled \<Rightarrow> (Ready (Inl (OtherError ''Lost connection'')), answer_drop i s))"

definition answer_poll ::
  "(io_error + unit) option \<Rightarrow> nat \<Rightarrow> 's conn \<Rightarrow> (io_error + response option) poll \<times> 's conn"
where
  "answer_poll timer i s =
     (if \<not> timed (calls s ! i) then received_poll i s
      else
        let id = call_id (calls s ! i)
        in case timer of
             Some r \<Rightarrow> (Ready (map_ok (\<lambda>_. None) r), idmap_drop id (answer_drop i s))
           | None \<Rightarrow>
               (case received_poll i s of
                  (NotReady, s') \<Rightarrow> (NotReady, s')
                | (Ready r, s') \<Rightarrow> (Ready r, idmap_drop id s')))"

section \<open>Notifying\<close>

definition client_notify :: "string \<Rightarrow> value option \<Rightarrow> message" where
  "client_notify m params = message_notification m params"

definition notify_poll :: "room \<Rightarrow> message \<Rightarrow> 's conn \<Rightarrow> (io_error + unit) poll \<times> 's conn" where
  "notify_poll accepts msg s =
     (case send_poll accepts msg s of
        (NotReady, s') \<Rightarrow> (NotReady, s')
      | (Ready (Inl e), s') \<Rightarrow> (Ready (Inl e), client_drop s')
      | (Ready (Inr _), s') \<Rightarrow> (Ready (Inr ()), s'))"

section \<open>What a holder of handles can do\<close>

text \<open>
  Everything a user of the crate, a server callback included, can do to a connection.  The fields
  are private, so there is nothing else: control it, make, clone and drop clients, call and
  notify through a client (the client is held while its message is being sent), poll or drop
  the future of an answer, and change the server's own state.
\<close>

inductive api :: "room \<Rightarrow> 's conn \<Rightarrow> 's conn \<Rightarrow> bool" for accepts where
  api_terminate: "api accepts s (terminate s)"
| api_kill: "api accepts s (kill s)"
| api_client: "api accepts s (snd (client s))"
| api_clone: "0 < clients s \<Longrightarrow> api accepts s (client_clone s)"
| api_drop: "0 < clients s \<Longrightarrow> api accepts s (client_drop s)"
| api_call: "0 < clients s \<Longrightarrow> api accepts s (snd (client_call uuid m params timeout s))"
| api_call_sent:
    "0 < clients s \<Longrightarrow> i < length (calls s) \<Longrightarrow> live (calls s ! i) \<Longrightarrow>
     msg = message_request (call_id (calls s ! i)) m params \<Longrightarrow>
     api accepts s (snd (call_sent_poll accepts msg i s))"
| api_notify:
    "0 < clients s \<Longrightarrow> msg = client_notify m params \<Longrightarrow> api accepts s (snd (notify_poll accepts msg s))"
| api_answer:
    "i < length (calls s) \<Longrightarrow> live (calls s ! i) \<Longrightarrow>
     api accepts s (snd (answer_poll timer i s))"
| api_answer_drop:
    "i < length (calls s) \<Longrightarrow> live (calls s ! i) \<Longrightarrow> api accepts s (answer_drop i s)"
| api_srv: "api accepts s (s\<lparr>srv := x\<rparr>)"

abbreviation apis :: "room \<Rightarrow> 's conn \<Rightarrow> 's conn \<Rightarrow> bool" where
  "apis accepts \<equiv> (api accepts)\<^sup>*\<^sup>*"

section \<open>Fields\<close>

lemma answer_drop_fields [simp]:
  "stop (answer_drop i s) = stop s" "terminator (answer_drop i s) = terminator s"
  "killer (answer_drop i s) = killer s" "ctl_sender (answer_drop i s) = ctl_sender s"
  "idmap (answer_drop i s) = idmap s" "kill_fired (answer_drop i s) = kill_fired s"
  "senders (answer_drop i s) = senders s" "outbox (answer_drop i s) = outbox s"
  "outbox_open (answer_drop i s) = outbox_open s" "clients (answer_drop i s) = clients s"
  "calls (answer_drop i s) = (calls s)[i := (calls s ! i)\<lparr>live := False\<rparr>]"
  "chans (answer_drop i s) = chans s" "srv (answer_drop i s) = srv s"
  "term_refs (answer_drop i s) = term_refs s - 1"
  "term_fired (answer_drop i s) \<longleftrightarrow> term_refs s \<le> 1 \<or> term_fired s"
  by (simp_all add: answer_drop_def)

lemma idmap_drop_fields [simp]:
  "stop (idmap_drop k s) = stop s" "terminator (idmap_drop k s) = terminator s"
  "killer (idmap_drop k s) = killer s" "ctl_sender (idmap_drop k s) = ctl_sender s"
  "idmap (idmap_drop k s) = (idmap s)(k := None)" "kill_fired (idmap_drop k s) = kill_fired s"
  "senders (idmap_drop k s) = senders s" "outbox (idmap_drop k s) = outbox s"
  "outbox_open (idmap_drop k s) = outbox_open s" "clients (idmap_drop k s) = clients s"
  "chans (idmap_drop k s) = chans s" "srv (idmap_drop k s) = srv s"
  "term_refs (idmap_drop k s) = term_refs s" "term_fired (idmap_drop k s) = term_fired s"
  "length (calls (idmap_drop k s)) = length (calls s)"
  "length (filter live (calls (idmap_drop k s))) = length (filter live (calls s))"
  by (auto simp: idmap_drop_def split: option.splits)

section \<open>Invariants\<close>

lemma call_id_not_live [simp]: "call_id (cs[i := (cs ! i)\<lparr>live := b\<rparr>] ! j) = call_id (cs ! j)"
  by (cases "i < length cs"; cases "i = j") (simp_all add: list_update_beyond)

lemma slot_not_live [simp]: "slot (cs[i := (cs ! i)\<lparr>live := b\<rparr>] ! j) = slot (cs ! j)"
  by (cases "i < length cs"; cases "i = j") (simp_all add: list_update_beyond)

lemma conn_ok_answer_drop:
  assumes "conn_ok k s" and "i < length (calls s)" and "live (calls s ! i)"
  shows "conn_ok k (answer_drop i s)"
proof -
  have "live_calls s = Suc (live_calls (answer_drop i s))"
    using assms(2,3) filter_update_drop [of i "calls s" live "(calls s ! i)\<lparr>live := False\<rparr>"]
    by (simp add: live_calls_def)
  then have "refs_ok k (answer_drop i s)"
    using assms(1) by (auto simp: conn_ok_def refs_ok_def)
  moreover have "ids_ok (answer_drop i s)"
    using assms(1) by (simp add: conn_ok_def ids_ok_def)
  ultimately show ?thesis using assms(1) by (simp add: conn_ok_def ctl_ok_def)
qed

lemma conn_ok_send_poll: "conn_ok k s \<Longrightarrow> conn_ok k (snd (send_poll accepts msg s))"
  by (auto simp: send_poll_def conn_ok_def refs_ok_def ctl_ok_def live_calls_def ids_ok_def)

lemma send_poll_fields [simp]:
  "clients (snd (send_poll accepts msg s)) = clients s"
  "calls (snd (send_poll accepts msg s)) = calls s"
  by (simp_all add: send_poll_def)

lemma conn_ok_notify_poll:
  assumes "conn_ok k s" and "0 < clients s"
  shows "conn_ok k (snd (notify_poll accepts msg s))"
proof -
  obtain r t where sent: "send_poll accepts msg s = (r, t)" by fastforce
  have "conn_ok k t" "0 < clients t"
    using conn_ok_send_poll [OF assms(1), of accepts msg] send_poll_fields(1) [of accepts msg s] assms(2)
    by (simp_all add: sent)
  then show ?thesis
    by (simp add: notify_poll_def sent conn_ok_client_drop split: poll.split sum.split)
qed

lemma conn_ok_call_sent_poll:
  assumes "conn_ok k s" and "0 < clients s" and "i < length (calls s)" and "live (calls s ! i)"
  shows "conn_ok k (snd (call_sent_poll accepts msg i s))"
proof -
  obtain r t where sent: "send_poll accepts msg s = (r, t)" by fastforce
  have "conn_ok k t" "0 < clients t" "i < length (calls t)" "live (calls t ! i)"
    using conn_ok_send_poll [OF assms(1), of accepts msg] send_poll_fields [of accepts msg s] assms(2-)
    by (simp_all add: sent)
  then show ?thesis
    by (simp add: call_sent_poll_def sent conn_ok_client_drop conn_ok_answer_drop
        split: poll.split sum.split)
qed

lemma conn_ok_received_poll:
  assumes "conn_ok k s" and "i < length (calls s)" and "live (calls s ! i)"
  shows "conn_ok k (snd (received_poll i s))"
  using conn_ok_answer_drop [OF assms] assms(1) by (simp add: received_poll_def split: slot.splits)

lemma conn_ok_answer_poll:
  assumes "conn_ok k s" and "i < length (calls s)" and "live (calls s ! i)"
  shows "conn_ok k (snd (answer_poll timer i s))"
  using conn_ok_received_poll [OF assms] conn_ok_answer_drop [OF assms]
  by (auto simp: answer_poll_def Let_def split: option.splits prod.splits poll.splits
      intro: conn_ok_idmap_drop)

text \<open>A new call that is registered, and one whose timer could not be made.\<close>

definition registered :: "string \<Rightarrow> bool \<Rightarrow> 's conn \<Rightarrow> 's conn" where
  "registered uuid t s =
     rc_clone (s\<lparr>calls := calls s @ [\<lparr>call_id = uuid, slot = Waiting, live = True, timed = t\<rparr>]\<rparr>)"

lemma client_call_registers:
  assumes "\<And>e. timeout \<noteq> Some (Inl e)"
  shows "client_call uuid m params timeout s =
    (let s2 = idmap_drop uuid (registered uuid (timeout \<noteq> None) s)
     in (Inr (message_request uuid m params, length (calls s)),
         s2\<lparr>idmap := (idmap s2)(uuid \<mapsto> length (calls s))\<rparr>))"
  using assms by (auto simp: client_call_def registered_def Let_def split: option.splits sum.splits)

lemma registered_fields [simp]:
  "stop (registered u t s) = stop s" "terminator (registered u t s) = terminator s"
  "killer (registered u t s) = killer s" "ctl_sender (registered u t s) = ctl_sender s"
  "idmap (registered u t s) = idmap s" "kill_fired (registered u t s) = kill_fired s"
  "senders (registered u t s) = senders s" "outbox (registered u t s) = outbox s"
  "outbox_open (registered u t s) = outbox_open s" "clients (registered u t s) = clients s"
  "calls (registered u t s) =
     calls s @ [\<lparr>call_id = u, slot = Waiting, live = True, timed = t\<rparr>]"
  "chans (registered u t s) = chans s" "srv (registered u t s) = srv s"
  "term_refs (registered u t s) = term_refs s + 1" "term_fired (registered u t s) = term_fired s"
  by (simp_all add: registered_def rc_clone_def)

lemma refs_ok_registered:
  "refs_ok k s \<Longrightarrow> 0 < clients s \<Longrightarrow> refs_ok k (registered u t s)"
  by (auto simp: refs_ok_def live_calls_def)

lemma registered_idmap_drop:
  assumes "ids_ok s"
  shows "idmap_drop u (registered v t s) = registered v t (idmap_drop u s)"
proof (cases "idmap s u")
  case None
  then show ?thesis by (simp add: registered_def rc_clone_def idmap_drop_def)
next
  case (Some i)
  with assms have "i < length (calls s)" by (auto simp: ids_ok_def)
  with Some show ?thesis
    by (simp add: registered_def rc_clone_def idmap_drop_def drop_sender_def nth_append
        list_update_append)
qed

lemma ids_ok_registered:
  assumes "ids_ok s" and "idmap s u = None"
  shows "ids_ok ((registered u t s)\<lparr>idmap := (idmap s)(u \<mapsto> length (calls s))\<rparr>)"
  using assms by (auto simp: ids_ok_def nth_append less_Suc_eq)

lemma conn_ok_client_call:
  assumes "conn_ok k s" and "0 < clients s"
  shows "conn_ok k (snd (client_call uuid m params timeout s))"
proof (cases "\<exists>e. timeout = Some (Inl e)")
  case True
  let ?i = "length (calls s)"
  let ?s1 = "registered uuid True s"
  let ?s2 = "?s1\<lparr>calls := drop_sender ?i (calls ?s1)\<rparr>"
  have "refs_ok k ?s2"
    using refs_ok_registered [OF conn_okD(1) [OF assms(1)] assms(2), of uuid True]
    by (simp add: refs_ok_def live_calls_def)
  moreover have "ids_ok ?s2"
    using assms(1) by (auto simp: conn_ok_def ids_ok_def nth_drop_sender nth_append less_Suc_eq)
  moreover have "ctl_ok ?s2" using assms(1) by (simp add: conn_ok_def ctl_ok_def)
  ultimately have "conn_ok k (client_drop (answer_drop ?i ?s2))"
    using assms(2) by (intro conn_ok_client_drop conn_ok_answer_drop conn_okI) (simp_all add: drop_sender_def)
  with True show ?thesis by (auto simp: client_call_def registered_def Let_def)
next
  case False
  let ?s = "idmap_drop uuid s"
  have ok: "conn_ok k ?s" by (rule conn_ok_idmap_drop [OF assms(1)])
  have "conn_ok k ((registered uuid t ?s)\<lparr>idmap := (idmap ?s)(uuid \<mapsto> length (calls ?s))\<rparr>)" for t
  proof (rule conn_okI)
    show "refs_ok k ((registered uuid t ?s)\<lparr>idmap := (idmap ?s)(uuid \<mapsto> length (calls ?s))\<rparr>)"
      using refs_ok_registered [OF conn_okD(1) [OF ok], of uuid t] assms(2)
      by (simp add: refs_ok_def live_calls_def)
    show "ctl_ok ((registered uuid t ?s)\<lparr>idmap := (idmap ?s)(uuid \<mapsto> length (calls ?s))\<rparr>)"
      using ok by (simp add: conn_ok_def ctl_ok_def)
  qed (rule ids_ok_registered [OF conn_okD(3) [OF ok]], simp)
  with False show ?thesis
    by (simp add: client_call_registers registered_idmap_drop conn_okD(3) [OF assms(1)] Let_def)
qed

lemma conn_ok_api: "api accepts s t \<Longrightarrow> conn_ok k s \<Longrightarrow> conn_ok k t"
proof (induction rule: api.induct)
  case (api_srv s x)
  then show ?case by (simp add: conn_ok_def refs_ok_def live_calls_def ctl_ok_def ids_ok_def)
qed (auto intro: conn_ok_terminate conn_ok_kill conn_ok_client conn_ok_client_clone conn_ok_client_drop
    conn_ok_client_call conn_ok_call_sent_poll conn_ok_notify_poll conn_ok_answer_poll conn_ok_answer_drop)

lemma conn_ok_apis: "apis accepts s t \<Longrightarrow> conn_ok k s \<Longrightarrow> conn_ok k t"
  by (induction rule: rtranclp_induct) (auto intro: conn_ok_api)

text \<open>What no user can undo or touch.\<close>

lemma api_frame:
  "api accepts s t \<Longrightarrow>
     (stop s \<longrightarrow> stop t) \<and> (kill_fired s \<longrightarrow> kill_fired t) \<and> outbox_open t = outbox_open s \<and>
     chans t = chans s \<and> length (calls s) \<le> length (calls t) \<and> (\<exists>ms. outbox t = outbox s @ ms)"
  by (induction rule: api.induct)
     (auto simp: client_def client_clone_new client_call_def call_sent_poll_def notify_poll_def
       answer_poll_def received_poll_def send_poll_def rc_clone_def Let_def
       split: option.splits sum.splits prod.splits poll.splits slot.splits if_splits)

end
