(* ===== verification/Server.thy ===== *)
theory Server
  imports Client
begin

text \<open>
  Servers (\<open>src/src/server.rs\<close>): the trait with its default callbacks, the empty server,
  the wrapper for dynamic dispatch and the chain.

  A callback gets the shared state (its \<open>&ServerCtl\<close> and what \<open>&self\<close> reaches) and
  returns it changed, with \<open>None\<close> for a method it does not know.  A future is what its
  \<open>poll\<close> does: with the state it gives the item, or a future still to be polled, and a changed
  state; \<open>None\<close> is a panic.  Futures are a codatatype, so one that never resolves is one of
  them.  The serialization of a \<open>Success\<close> is the argument \<open>to_value\<close>.
\<close>

section \<open>Futures\<close>

codatatype ('w, 'a) future = Future (poll: "'w \<Rightarrow> ('a + ('w, 'a) future) option \<times> 'w")

text \<open>\<open>Result::into_future\<close>: resolves at the first poll.\<close>

definition ready :: "'a \<Rightarrow> ('w, 'a) future" where
  "ready x = Future (\<lambda>w. (Some (Inl x), w))"

lemma poll_ready [simp]: "poll (ready x) w = (Some (Inl x), w)"
  by (simp add: ready_def)

text \<open>
  A callback that panics is taken for one whose future panics at its first poll, the record of a
  server having no other place for a panic.
\<close>

definition panicking :: "('w, 'a) future" where
  "panicking = Future (\<lambda>w. (None, w))"

text \<open>\<open>then\<close> and \<open>map\<close> with a closure that may panic.\<close>

fun settle :: "('a \<Rightarrow> 'b option) \<Rightarrow> ('a + 'f) option \<times> 'w \<Rightarrow> ('b + 'f) option \<times> 'w" where
  "settle f (Some (Inl x), w) = (map_option Inl (f x), w)"
| "settle f (Some (Inr k), w) = (Some (Inr k), w)"
| "settle f (None, w) = (None, w)"

primcorec future_then :: "('a \<Rightarrow> 'b option) \<Rightarrow> ('w, 'a) future \<Rightarrow> ('w, 'b) future" where
  "poll (future_then f x) =
     (\<lambda>w. map_prod (map_option (map_sum id (future_then f))) id (settle f (poll x w)))"

lemma poll_future_then:
  "poll (future_then f x) w =
     (case poll x w of
        (Some (Inl a), w') \<Rightarrow> (map_option Inl (f a), w')
      | (Some (Inr k), w') \<Rightarrow> (Some (Inr (future_then f k)), w')
      | (None, w') \<Rightarrow> (None, w'))"
  by (cases "(f, poll x w)" rule: settle.cases) (auto simp: option.map_comp comp_def)

declare future_then.simps [simp del]

lemma future_then_ready: "f x = Some y \<Longrightarrow> poll (future_then f (ready x)) w = poll (ready y) w"
  by (simp add: poll_future_then)

section \<open>The trait\<close>

type_synonym ('s, 'v) rpc_result = "('s conn, rpc_error + 'v) future"
type_synonym 's notification_result = "('s conn, unit + unit) future"

record ('s, 'v) server =
  rpc :: "string \<Rightarrow> value option \<Rightarrow> 's conn \<Rightarrow> ('s, 'v) rpc_result option \<times> 's conn"
  notify :: "string \<Rightarrow> value option \<Rightarrow> 's conn \<Rightarrow> 's notification_result option \<times> 's conn"
  initialized :: "'s conn \<Rightarrow> 's conn"

definition default_rpc :: "string \<Rightarrow> value option \<Rightarrow> 's conn \<Rightarrow> ('s, 'v) rpc_result option \<times> 's conn" where
  "default_rpc m p s = (None, s)"

definition default_notification ::
  "string \<Rightarrow> value option \<Rightarrow> 's conn \<Rightarrow> 's notification_result option \<times> 's conn" where
  "default_notification m p s = (None, s)"

definition default_initialized :: "'s conn \<Rightarrow> 's conn" where
  "default_initialized s = s"

section \<open>Empty\<close>

definition empty_server :: "('s, unit) server" where
  "empty_server = \<lparr>rpc = default_rpc, notify = default_notification, initialized = terminate\<rparr>"

section \<open>AbstractServer\<close>

definition to_value_expect :: "('v \<Rightarrow> 'x + value) \<Rightarrow> rpc_error + 'v \<Rightarrow> (rpc_error + value) option" where
  "to_value_expect to_value r =
     (case r of
        Inl e \<Rightarrow> Some (Inl e)
      | Inr v \<Rightarrow> map_option Inr (ok_of (to_value v)))"

definition abstract_rpc ::
  "('v \<Rightarrow> 'x + value) \<Rightarrow> ('s, 'v) server \<Rightarrow> string \<Rightarrow> value option \<Rightarrow> 's conn
   \<Rightarrow> ('s, value) rpc_result option \<times> 's conn"
where
  "abstract_rpc to_value inner m p s =
     apfst (map_option (future_then (to_value_expect to_value))) (rpc inner m p s)"

definition abstract_notification ::
  "('s, 'v) server \<Rightarrow> string \<Rightarrow> value option \<Rightarrow> 's conn \<Rightarrow> 's notification_result option \<times> 's conn"
where
  "abstract_notification inner m p s = notify inner m p s"

definition abstract_initialized :: "('s, 'v) server \<Rightarrow> 's conn \<Rightarrow> 's conn" where
  "abstract_initialized inner s = initialized inner s"

definition abstract_server :: "('v \<Rightarrow> 'x + value) \<Rightarrow> ('s, 'v) server \<Rightarrow> ('s, value) server" where
  "abstract_server to_value inner =
     \<lparr>rpc = abstract_rpc to_value inner, notify = abstract_notification inner,
      initialized = abstract_initialized inner\<rparr>"

section \<open>ServerChain\<close>

text \<open>\<open>BoxServer\<close>: a server whose results are documents.\<close>

type_synonym 's box_server = "('s, value) server"

text \<open>The first result that is \<open>Some\<close>; servers behind it are not asked.\<close>

fun iter_chain :: "('b \<Rightarrow> 'w \<Rightarrow> 'r option \<times> 'w) \<Rightarrow> 'b list \<Rightarrow> 'w \<Rightarrow> 'r option \<times> 'w" where
  "iter_chain f [] w = (None, w)"
| "iter_chain f (sub # subs) w =
     (case f sub w of
        (Some r, w') \<Rightarrow> (Some r, w')
      | (None, w') \<Rightarrow> iter_chain f subs w')"

definition chain_rpc ::
  "'s box_server list \<Rightarrow> string \<Rightarrow> value option \<Rightarrow> 's conn
   \<Rightarrow> ('s, value) rpc_result option \<times> 's conn"
where
  "chain_rpc subs m p = iter_chain (\<lambda>sub. rpc sub m p) subs"

definition chain_notification ::
  "'s box_server list \<Rightarrow> string \<Rightarrow> value option \<Rightarrow> 's conn
   \<Rightarrow> 's notification_result option \<times> 's conn"
where
  "chain_notification subs m p = iter_chain (\<lambda>sub. notify sub m p) subs"

fun chain_initialized :: "'s box_server list \<Rightarrow> 's conn \<Rightarrow> 's conn" where
  "chain_initialized [] s = s"
| "chain_initialized (sub # subs) s = chain_initialized subs (initialized sub s)"

definition server_chain :: "'s box_server list \<Rightarrow> ('s, value) server" where
  "server_chain subs =
     \<lparr>rpc = chain_rpc subs, notify = chain_notification subs, initialized = chain_initialized subs\<rparr>"

lemmas server_defs = empty_server_def abstract_server_def server_chain_def default_rpc_def
  default_notification_def default_initialized_def abstract_rpc_def abstract_notification_def
  abstract_initialized_def chain_rpc_def chain_notification_def

section \<open>The chain, as it is meant\<close>

text \<open>Who answers has been asked after all before it have refused.\<close>

lemma iter_chain_Some:
  "iter_chain h subs w = (Some r, w') \<longleftrightarrow>
   (\<exists>xs y zs u. subs = xs @ y # zs \<and> iter_chain h xs w = (None, u) \<and> h y u = (Some r, w'))"
proof (induction subs arbitrary: w)
  case Nil
  then show ?case by simp
next
  case (Cons sub subs)
  obtain q v where sub: "h sub w = (q, v)" by fastforce
  show ?case
  proof (cases q)
    case (Some x)
    have "(\<exists>xs y zs u. sub # subs = xs @ y # zs \<and> iter_chain h xs w = (None, u) \<and> h y u = (Some r, w'))
        \<longleftrightarrow> x = r \<and> v = w'"
    proof
      assume "\<exists>xs y zs u. sub # subs = xs @ y # zs \<and> iter_chain h xs w = (None, u) \<and> h y u = (Some r, w')"
      then obtain xs y zs u where *: "sub # subs = xs @ y # zs" "iter_chain h xs w = (None, u)"
        "h y u = (Some r, w')" by blast
      with sub Some show "x = r \<and> v = w'" by (cases xs) auto
    next
      assume "x = r \<and> v = w'"
      with sub Some show "\<exists>xs y zs u. sub # subs = xs @ y # zs \<and> iter_chain h xs w = (None, u) \<and>
          h y u = (Some r, w')"
        by (intro exI [of _ "[]"] exI [of _ sub] exI [of _ subs] exI [of _ w]) simp
    qed
    with sub Some show ?thesis by auto
  next
    case None
    have "(\<exists>xs y zs u. sub # subs = xs @ y # zs \<and> iter_chain h xs w = (None, u) \<and> h y u = (Some r, w'))
        \<longleftrightarrow> (\<exists>xs y zs u. subs = xs @ y # zs \<and> iter_chain h xs v = (None, u) \<and> h y u = (Some r, w'))"
    proof
      assume "\<exists>xs y zs u. sub # subs = xs @ y # zs \<and> iter_chain h xs w = (None, u) \<and> h y u = (Some r, w')"
      then obtain xs y zs u where *: "sub # subs = xs @ y # zs" "iter_chain h xs w = (None, u)"
        "h y u = (Some r, w')" by blast
      with sub None obtain xs' where "xs = sub # xs'" by (cases xs) auto
      with * sub None show "\<exists>xs y zs u. subs = xs @ y # zs \<and> iter_chain h xs v = (None, u) \<and>
          h y u = (Some r, w')" by auto
    next
      assume "\<exists>xs y zs u. subs = xs @ y # zs \<and> iter_chain h xs v = (None, u) \<and> h y u = (Some r, w')"
      then obtain xs y zs u where "subs = xs @ y # zs" "iter_chain h xs v = (None, u)"
        "h y u = (Some r, w')" by blast
      with sub None show "\<exists>xs y zs u. sub # subs = xs @ y # zs \<and> iter_chain h xs w = (None, u) \<and>
          h y u = (Some r, w')"
        by (intro exI [of _ "sub # xs"] exI [of _ y] exI [of _ zs] exI [of _ u]) simp
    qed
    with sub None Cons.IH show ?thesis by simp
  qed
qed

section \<open>The contract of a server\<close>

text \<open>
  A server touches the connection only through the public interface, in its callbacks and while its
  futures are polled: \<open>tame\<close> is the largest set of futures that do.
\<close>

coinductive tame :: "room \<Rightarrow> ('s conn, 'a) future \<Rightarrow> bool" for accepts where
  "(\<And>s r t. poll f s = (r, t) \<Longrightarrow>
      apis accepts s t \<and> (\<forall>k. r = Some (Inr k) \<longrightarrow> tame accepts k)) \<Longrightarrow>
   tame accepts f"

lemma tame_poll: "tame accepts f \<Longrightarrow> poll f s = (r, t) \<Longrightarrow> apis accepts s t"
  by (auto elim: tame.cases)

lemma tame_next: "tame accepts f \<Longrightarrow> poll f s = (Some (Inr k), t) \<Longrightarrow> tame accepts k"
  by (auto elim: tame.cases)

lemma tame_ready [simp]: "tame accepts (ready x)"
  by (rule tame.intros) auto

lemma tame_panicking [simp]: "tame accepts panicking"
  by (rule tame.intros) (auto simp: panicking_def)

lemma tame_future_then: "tame accepts f \<Longrightarrow> tame accepts (future_then g f)"
proof (coinduction arbitrary: f)
  case (tame f)
  show ?case
  proof (intro exI [of _ "future_then g f"] conjI allI impI refl)
    fix s r t
    assume p: "poll (future_then g f) s = (r, t)"
    then have "\<exists>q. poll f s = (q, t)"
      by (auto simp: poll_future_then split: prod.splits option.splits sum.splits)
    with tame show "apis accepts s t" by (auto dest: tame_poll)
    fix k
    assume "r = Some (Inr k)"
    with p obtain h where "poll f s = (Some (Inr h), t)" "k = future_then g h"
      by (auto simp: poll_future_then split: prod.splits option.splits sum.splits)
    with tame show "(\<exists>f. k = future_then g f \<and> tame accepts f) \<or> tame accepts k"
      by (auto dest: tame_next)
  qed
qed

locale server_contract =
  fixes accepts :: room
    and server :: "('s, 'v) server"
  assumes rpc_apis: "rpc server m p s = (r, t) \<Longrightarrow> apis accepts s t"
    and rpc_tame: "rpc server m p s = (Some f, t) \<Longrightarrow> tame accepts f"
    and notify_apis: "notify server m p s = (q, t) \<Longrightarrow> apis accepts s t"
    and notify_tame: "notify server m p s = (Some g, t) \<Longrightarrow> tame accepts g"
    and initialized_apis: "apis accepts s (initialized server s)"
begin

lemma rpc_conn_ok: "conn_ok k s \<Longrightarrow> conn_ok k (snd (rpc server m p s))"
  by (rule conn_ok_apis [OF rpc_apis [OF prod.collapse [symmetric]]])

lemma notify_conn_ok: "conn_ok k s \<Longrightarrow> conn_ok k (snd (notify server m p s))"
  by (rule conn_ok_apis [OF notify_apis [OF prod.collapse [symmetric]]])

lemma initialized_conn_ok: "conn_ok k s \<Longrightarrow> conn_ok k (initialized server s)"
  by (rule conn_ok_apis [OF initialized_apis])

end

interpretation empty: server_contract accepts empty_server for accepts
  by unfold_locales (auto simp: server_defs intro: api_terminate)

text \<open>The combinators keep the contract.\<close>

lemma server_contract_abstract:
  assumes "server_contract accepts inner"
  shows "server_contract accepts (abstract_server to_value inner)"
proof
  fix m p s r t
  assume "rpc (abstract_server to_value inner) m p s = (r, t)"
  then have "rpc inner m p s = (fst (rpc inner m p s), t)"
    by (cases "rpc inner m p s") (simp add: server_defs)
  then show "apis accepts s t" by (rule server_contract.rpc_apis [OF assms])
next
  fix m p s f t
  assume "rpc (abstract_server to_value inner) m p s = (Some f, t)"
  then obtain g where "rpc inner m p s = (Some g, t)" "f = future_then (to_value_expect to_value) g"
    by (cases "rpc inner m p s") (auto simp: server_defs)
  then show "tame accepts f"
    by (auto intro: tame_future_then dest: server_contract.rpc_tame [OF assms])
qed (auto simp: server_defs intro: server_contract.notify_apis [OF assms]
      server_contract.notify_tame [OF assms] server_contract.initialized_apis [OF assms])

text \<open>An invariant of the callbacks asked is one of the chain.\<close>

lemma iter_chain_related:
  assumes "\<forall>sub \<in> set subs. \<forall>w r w'. f sub w = (r, w') \<longrightarrow> R\<^sup>*\<^sup>* w w' \<and> (\<forall>x. r = Some x \<longrightarrow> Q x)"
    and "iter_chain f subs w = (r, w')"
  shows "R\<^sup>*\<^sup>* w w' \<and> (\<forall>x. r = Some x \<longrightarrow> Q x)"
  using assms
proof (induction subs arbitrary: w)
  case Nil
  then show ?case by simp
next
  case (Cons sub subs)
  obtain q v where sub: "f sub w = (q, v)" by fastforce
  with Cons.prems(1) have v: "R\<^sup>*\<^sup>* w v" "\<forall>x. q = Some x \<longrightarrow> Q x" by auto
  show ?case
  proof (cases q)
    case (Some x)
    with sub v Cons.prems(2) show ?thesis by auto
  next
    case None
    with sub Cons.prems(2) have "iter_chain f subs v = (r, w')" by simp
    then have "R\<^sup>*\<^sup>* v w'" "\<forall>x. r = Some x \<longrightarrow> Q x"
      using Cons.IH [of v] Cons.prems(1) by simp_all
    with v(1) show ?thesis by simp
  qed
qed

lemma server_contract_chain:
  assumes "\<And>sub. sub \<in> set subs \<Longrightarrow> server_contract accepts sub"
  shows "server_contract accepts (server_chain subs)"
proof
  have rpc: "apis accepts s t \<and> (\<forall>f. r = Some f \<longrightarrow> tame accepts f)"
    if "rpc (server_chain subs) m p s = (r, t)" for m p s r t
    using that iter_chain_related [of subs "\<lambda>sub. rpc sub m p" "api accepts" "tame accepts" s r t]
    by (auto simp: server_defs dest: assms [THEN server_contract.rpc_apis]
        assms [THEN server_contract.rpc_tame])
  have notify: "apis accepts s t \<and> (\<forall>f. r = Some f \<longrightarrow> tame accepts f)"
    if "notify (server_chain subs) m p s = (r, t)" for m p s r t
    using that iter_chain_related [of subs "\<lambda>sub. notify sub m p" "api accepts" "tame accepts" s r t]
    by (auto simp: server_defs dest: assms [THEN server_contract.notify_apis]
        assms [THEN server_contract.notify_tame])
  show "apis accepts s t" if "rpc (server_chain subs) m p s = (r, t)" for m p s r t
    using rpc [OF that] by simp
  show "tame accepts f" if "rpc (server_chain subs) m p s = (Some f, t)" for m p s f t
    using rpc [OF that] by simp
  show "apis accepts s t" if "notify (server_chain subs) m p s = (r, t)" for m p s r t
    using notify [OF that] by simp
  show "tame accepts f" if "notify (server_chain subs) m p s = (Some f, t)" for m p s f t
    using notify [OF that] by simp
  have "apis accepts s (chain_initialized subs s)" for s
    using assms
  proof (induction subs arbitrary: s)
    case Nil
    then show ?case by simp
  next
    case (Cons sub subs)
    then have "apis accepts s (initialized sub s)"
      by (intro server_contract.initialized_apis) simp
    also have "apis accepts (initialized sub s) (chain_initialized subs (initialized sub s))"
      using Cons by simp
    finally show ?case by simp
  qed
  then show "apis accepts s (initialized (server_chain subs) s)" for s
    by (simp add: server_defs)
qed

section \<open>Futures of futures\<close>

lemma future_then_then:
  "future_then f (future_then g x) = future_then (\<lambda>a. Option.bind (g a) f) x"
proof (coinduction arbitrary: x)
  case Eq_future
  have "rel_prod (rel_option (rel_sum (=)
      (\<lambda>l r. \<exists>x. l = future_then f (future_then g x) \<and> r = future_then (\<lambda>a. Option.bind (g a) f) x))) (=)
      (poll (future_then f (future_then g x)) w) (poll (future_then (\<lambda>a. Option.bind (g a) f) x) w)" for w
  proof (cases "poll x w")
    case (Pair r w')
    then show ?thesis
    proof (cases r)
      case (Some k)
      then show ?thesis
      proof (cases k)
        case (Inl a)
        then show ?thesis using Pair Some
          by (cases "g a"; cases "Option.bind (g a) f") (auto simp: poll_future_then)
      next
        case (Inr h)
        then show ?thesis using Pair Some by (auto simp: poll_future_then)
      qed
    qed (auto simp: poll_future_then)
  qed
  then show ?case by (simp add: rel_fun_def)
qed

section \<open>Properties\<close>

text \<open>
  C36. A chain answers with the first server that knows the method: the servers before it have been
  asked, in order, and have refused, and those behind it are not asked at all; the same for
  notifications.
\<close>

theorem chain_answers_with_first:
  "(rpc (server_chain subs) m p s = (Some f, t) \<longleftrightarrow>
     (\<exists>xs y zs u. subs = xs @ y # zs \<and> rpc (server_chain xs) m p s = (None, u) \<and>
        rpc y m p u = (Some f, t))) \<and>
   (notify (server_chain subs) m p s = (Some g, t) \<longleftrightarrow>
     (\<exists>xs y zs u. subs = xs @ y # zs \<and> notify (server_chain xs) m p s = (None, u) \<and>
        notify y m p u = (Some g, t)))"
  using iter_chain_Some [of "\<lambda>sub. rpc sub m p" subs s f t]
    iter_chain_Some [of "\<lambda>sub. notify sub m p" subs s g t]
  by (simp add: server_defs)

text \<open>
  A chain with the empty server in it stops the connection, whatever the other servers do when
  they are initialized: every server is initialized, and none can undo the termination.
\<close>

lemma chain_with_empty_stops:
  assumes "\<forall>sub \<in> set subs. server_contract accepts sub"
    and "abstract_server to_value empty_server \<in> set subs"
  shows "stop (initialized (server_chain subs) s)"
  using assms
proof (induction subs arbitrary: s)
  case Nil
  then show ?case by simp
next
  case (Cons sub subs)
  have stays: "stop t \<Longrightarrow> stop (initialized (server_chain subs) t)" for t
  proof -
    have "apis accepts t (initialized (server_chain subs) t)"
      using Cons.prems(1) by (intro server_contract.initialized_apis server_contract_chain) simp
    then show "stop t \<Longrightarrow> stop (initialized (server_chain subs) t)"
      by (induction rule: rtranclp_induct) (auto dest: api_frame)
  qed
  show ?case
  proof (cases "sub = abstract_server to_value empty_server")
    case True
    then have "stop (initialized sub s)" by (simp add: server_defs)
    with stays [of "initialized sub s"] show ?thesis by (simp add: server_defs)
  next
    case False
    with Cons show ?thesis by (simp add: server_defs)
  qed
qed

end
