(* ===== verification/Dispatch.thy ===== *)
theory Dispatch
  imports Server
begin

text \<open>
  What the server half does with one received item (\<open>do_request\<close>, \<open>do_notification\<close>,
  \<open>do_batch\<close>, \<open>do_response\<close>, \<open>do_msg\<close> of \<open>src/src/endpoint.rs\<close>).

  The streams of futures these functions return are there at once and never fail, so a stream is the
  list of its futures, here called jobs.  A job is a future of the server's, or one of the futures
  that \<open>do_batch\<close> builds around others: \<open>Sent c j\<close> runs \<open>j\<close> and sends what it yields
  into channel \<open>c\<close>, \<open>Sending c m\<close> is that future while it waits for room, and
  \<open>Collect c ms\<close> gathers the channel until every sender is gone.  Channels are numbered in the
  order of their creation.  The clones of a sender inside the stream adaptors are gone when the stream
  is used up, before its last element, the collecting future, is reached; so the senders counted are
  those that the jobs own.
\<close>

section \<open>Jobs\<close>

datatype 's job =
    Work "('s conn, message option) future"
  | Sent nat "'s job"
  | Sending nat message
  | Collect nat "message list"

datatype 's outcome =
    Finished "io_error + message option"
  | Again "'s job"
  | Panic

definition set_chan :: "nat \<Rightarrow> channel \<Rightarrow> 's conn \<Rightarrow> 's conn" where
  "set_chan c ch s = s\<lparr>chans := (chans s)[c := ch]\<rparr>"

definition sender_drop :: "nat \<Rightarrow> 's conn \<Rightarrow> 's conn" where
  "sender_drop c s =
     (let ch = chans s ! c in set_chan c (ch\<lparr>chan_senders := chan_senders ch - 1\<rparr>) s)"

text \<open>\<open>sender.send(msg).map_err(shouldnt_happen).map(|_| None)\<close>.\<close>

definition poll_sending :: "room \<Rightarrow> nat \<Rightarrow> message \<Rightarrow> 's conn \<Rightarrow> 's outcome \<times> 's conn" where
  "poll_sending accepts c m s =
     (let ch = chans s ! c
      in if \<not> chan_open ch then (Finished (Inl (shouldnt_happen m)), sender_drop c s)
         else if accepts (capacity ch) (length (chan_queue ch)) then
           (Finished (Inr None), sender_drop c (set_chan c (ch\<lparr>chan_queue := chan_queue ch @ [m]\<rparr>) s))
         else (Again (Sending c m), s))"

text \<open>\<open>receiver.collect()\<close> and what becomes of the results.\<close>

definition poll_collect :: "nat \<Rightarrow> message list \<Rightarrow> 's conn \<Rightarrow> 's outcome \<times> 's conn" where
  "poll_collect c acc s =
     (let ch = chans s ! c;
          results = acc @ chan_queue ch;
          emptied = ch\<lparr>chan_queue := []\<rparr>
      in if chan_senders ch = 0 then
           (Finished (Inr (if results = [] then None else Some (Batch results))),
            set_chan c (emptied\<lparr>chan_open := False\<rparr>) s)
         else (Again (Collect c results), set_chan c emptied s))"

fun poll_job :: "room \<Rightarrow> 's job \<Rightarrow> 's conn \<Rightarrow> 's outcome \<times> 's conn" where
  "poll_job accepts (Work f) s =
     (case poll f s of
        (None, t) \<Rightarrow> (Panic, t)
      | (Some (Inl m), t) \<Rightarrow> (Finished (Inr m), t)
      | (Some (Inr g), t) \<Rightarrow> (Again (Work g), t))"
| "poll_job accepts (Sent c j) s =
     (case poll_job accepts j s of
        (Panic, t) \<Rightarrow> (Panic, t)
      | (Again k, t) \<Rightarrow> (Again (Sent c k), t)
      | (Finished (Inl e), t) \<Rightarrow> (Finished (Inl e), sender_drop c t)
      | (Finished (Inr None), t) \<Rightarrow> (Finished (Inr None), sender_drop c t)
      | (Finished (Inr (Some m)), t) \<Rightarrow> poll_sending accepts c m t)"
| "poll_job accepts (Sending c m) s = poll_sending accepts c m s"
| "poll_job accepts (Collect c acc) s = poll_collect c acc s"

section \<open>Handling one item\<close>

definition request_reply ::
  "('v \<Rightarrow> 'x + value) \<Rightarrow> request \<Rightarrow> rpc_error + 'v \<Rightarrow> message option option"
where
  "request_reply to_value request result =
     (case result of
        Inl err \<Rightarrow> Some (Some (reply_error request err))
      | Inr v \<Rightarrow> map_option (\<lambda>j. Some (reply request j)) (ok_of (to_value v)))"

definition do_request ::
  "('v \<Rightarrow> 'x + value) \<Rightarrow> ('s, 'v) server \<Rightarrow> request \<Rightarrow> 's conn \<Rightarrow> 's job \<times> 's conn"
where
  "do_request to_value server request s =
     (case rpc server (req_method request) (req_params request) s of
        (None, t) \<Rightarrow>
          (Work (ready (Some (reply_error request (method_not_found (req_method request))))), t)
      | (Some future, t) \<Rightarrow> (Work (future_then (request_reply to_value request) future), t))"

definition do_notification :: "('s, 'v) server \<Rightarrow> notification \<Rightarrow> 's conn \<Rightarrow> 's job \<times> 's conn" where
  "do_notification server notification s =
     (case notify server (notif_method notification) (notif_params notification) s of
        (None, t) \<Rightarrow> (Work (ready None), t)
      | (Some future, t) \<Rightarrow> (Work (future_then (\<lambda>_. Some None) future), t))"

text \<open>\<open>sender.send(response)\<close> on the oneshot of call \<open>i\<close>.\<close>

definition arrive :: "nat \<Rightarrow> response \<Rightarrow> call list \<Rightarrow> call list" where
  "arrive i r cs = (if i < length cs then cs[i := (cs ! i)\<lparr>slot := Arrived r\<rparr>] else cs)"

definition do_response :: "response \<Rightarrow> 's conn \<Rightarrow> 's conn" where
  "do_response r s =
     (case Option.bind (as_str (resp_id r)) (idmap s) of
        None \<Rightarrow> s
      | Some i \<Rightarrow>
          s\<lparr>idmap := (idmap s)(the (as_str (resp_id r)) := None), calls := arrive i r (calls s)\<rparr>)"

text \<open>The sender clones of \<open>n\<close> new jobs.\<close>

definition sender_clones :: "nat \<Rightarrow> nat \<Rightarrow> 's conn \<Rightarrow> 's conn" where
  "sender_clones c n s =
     (let ch = chans s ! c in set_chan c (ch\<lparr>chan_senders := chan_senders ch + n\<rparr>) s)"

definition new_channel :: "nat \<Rightarrow> 's conn \<Rightarrow> nat \<times> 's conn" where
  "new_channel n s =
     (length (chans s),
      s\<lparr>chans := chans s @ [\<lparr>capacity = n, chan_queue = [], chan_senders = 0, chan_open = True\<rparr>]\<rparr>)"

function (sequential) do_msg ::
  "('v \<Rightarrow> 'x + value) \<Rightarrow> ('s, 'v) server \<Rightarrow> parsed \<Rightarrow> 's conn \<Rightarrow> 's job list \<times> 's conn"
and do_batch ::
  "('v \<Rightarrow> 'x + value) \<Rightarrow> ('s, 'v) server \<Rightarrow> message list \<Rightarrow> 's conn \<Rightarrow> 's job list \<times> 's conn"
and do_subs ::
  "('v \<Rightarrow> 'x + value) \<Rightarrow> ('s, 'v) server \<Rightarrow> nat \<Rightarrow> message list \<Rightarrow> 's conn \<Rightarrow> 's job list \<times> 's conn"
where
  "do_msg to_value server msg s =
     (let terminated = stop s
      in if terminated then
           (case msg of
              Inr (Response r) \<Rightarrow> ([], do_response r s)
            | _ \<Rightarrow> ([], s))
         else
           (case msg of
              Inl broken \<Rightarrow> ([Work (ready (Some (broken_reply broken)))], s)
            | Inr (Request req) \<Rightarrow> apfst (\<lambda>j. [j]) (do_request to_value server req s)
            | Inr (Notification notif) \<Rightarrow> apfst (\<lambda>j. [j]) (do_notification server notif s)
            | Inr (Batch batch) \<Rightarrow> do_batch to_value server batch s
            | Inr (UnmatchedSub v) \<Rightarrow> do_msg to_value server (Inl (Unmatched v)) s
            | Inr (Response r) \<Rightarrow> ([], do_response r s)))"
| "do_batch to_value server msgs s =
     (let (c, s0) = new_channel (length msgs) s;
          (jobs, t) = do_subs to_value server c msgs s0
      in (jobs @ [Collect c []], t))"
| "do_subs to_value server c [] s = ([], s)"
| "do_subs to_value server c (sub # subs) s =
     (let (futures, t) = do_msg to_value server (Inr sub) s;
          (jobs, u) = do_subs to_value server c subs (sender_clones c (length futures) t)
      in (map (Sent c) futures @ jobs, u))"
  by pat_completeness auto
termination
  by (relation "measure (\<lambda>x. case x of
        Inl (_, _, m, _) \<Rightarrow> (case m of Inl _ \<Rightarrow> 0 | Inr m \<Rightarrow> 2 * size m + 1)
      | Inr (Inl (_, _, ms, _)) \<Rightarrow> 2 * size_list size ms + 2
      | Inr (Inr (_, _, _, ms, _)) \<Rightarrow> 2 * size_list size ms + 1)") auto

declare do_msg.simps [simp del] do_batch.simps [simp del]

end
