(* ===== verification/Jobs.thy ===== *)
theory Jobs
  imports Dispatch
begin

text \<open>
  The accounts of the batch channels: which jobs hold a sender of a channel, which of them may still
  put something into it, and which job collects it.  \<open>do_msg\<close> opens the accounts balanced and
  polling a job keeps them balanced, so no channel is ever too short, no send ever fails, and a
  collecting job comes after everything it waits for.
\<close>

section \<open>Accounts\<close>

primrec holders :: "nat \<Rightarrow> 's job \<Rightarrow> nat" where
  "holders c (Work f) = 0"
| "holders c (Sent d j) = (if d = c then 1 else 0) + holders c j"
| "holders c (Sending d m) = (if d = c then 1 else 0)"
| "holders c (Collect d ms) = 0"

primrec yields :: "'s job \<Rightarrow> bool" where
  "yields (Work f) = True"
| "yields (Sent d j) = False"
| "yields (Sending d m) = False"
| "yields (Collect d ms) = True"

primrec promises :: "nat \<Rightarrow> 's job \<Rightarrow> nat" where
  "promises c (Work f) = 0"
| "promises c (Sent d j) = (if d = c \<and> yields j then 1 else 0) + promises c j"
| "promises c (Sending d m) = (if d = c then 1 else 0)"
| "promises c (Collect d ms) = 0"

primrec collects :: "nat \<Rightarrow> 's job \<Rightarrow> nat" where
  "collects c (Work f) = 0"
| "collects c (Sent d j) = collects c j"
| "collects c (Sending d m) = 0"
| "collects c (Collect d ms) = (if d = c then 1 else 0)"

text \<open>Around a collecting job there are only senders of older channels.\<close>

primrec nested :: "'s job \<Rightarrow> bool" where
  "nested (Work f) = True"
| "nested (Sent c j) \<longleftrightarrow> nested j \<and> (\<forall>d. 0 < collects d j \<longrightarrow> c < d)"
| "nested (Sending d m) = True"
| "nested (Collect d ms) = True"

primrec tame_job :: "room \<Rightarrow> 's job \<Rightarrow> bool" where
  "tame_job accepts (Work f) = tame accepts f"
| "tame_job accepts (Sent c j) = tame_job accepts j"
| "tame_job accepts (Sending d m) = True"
| "tame_job accepts (Collect d ms) = True"

definition total :: "('s job \<Rightarrow> nat) \<Rightarrow> 's job list \<Rightarrow> nat" where
  "total f js = sum_list (map f js)"

lemma total_simps [simp]:
  "total f [] = 0" "total f (j # js) = f j + total f js" "total f (js @ ks) = total f js + total f ks"
  by (simp_all add: total_def)

lemma total_Sent [simp]:
  "total (holders d) (map (Sent c) js) = (if c = d then length js else 0) + total (holders d) js"
  "total (promises d) (map (Sent c) js) =
     (if c = d then length (filter yields js) else 0) + total (promises d) js"
  "total (collects d) (map (Sent c) js) = total (collects d) js"
  by (induction js) auto

lemma promises_le_holders: "promises c j \<le> holders c j"
  by (induction j) auto

lemma total_promises_le: "total (promises c) js \<le> total (holders c) js"
  by (induction js) (auto intro: add_mono promises_le_holders)

lemma total_zero: "total f js = 0 \<longleftrightarrow> (\<forall>j \<in> set js. f j = 0)"
  by (induction js) auto

definition balanced :: "'s job list \<Rightarrow> 's conn \<Rightarrow> nat \<Rightarrow> bool" where
  "balanced js s c \<longleftrightarrow>
     (let ch = chans s ! c
      in chan_senders ch = total (holders c) js \<and>
         length (chan_queue ch) + total (promises c) js \<le> capacity ch \<and>
         total (collects c) js = (if chan_open ch then 1 else 0) \<and>
         (0 < chan_senders ch \<longrightarrow> chan_open ch))"

definition absent :: "'s job list \<Rightarrow> nat \<Rightarrow> bool" where
  "absent js c \<longleftrightarrow> total (holders c) js = 0 \<and> total (collects c) js = 0"

text \<open>In the order of the list, nothing after a collecting job feeds it.\<close>

primrec ordered :: "'s job list \<Rightarrow> bool" where
  "ordered [] = True"
| "ordered (j # js) \<longleftrightarrow> (\<forall>c. 0 < collects c j \<longrightarrow> total (holders c) js = 0) \<and> ordered js"

lemma ordered_append:
  "ordered (js @ ks) \<longleftrightarrow>
     ordered js \<and> ordered ks \<and> (\<forall>c. 0 < total (collects c) js \<longrightarrow> total (holders c) ks = 0)"
  by (induction js) auto

lemma ordered_Sent:
  assumes "ordered js" and "total (collects c) js = 0"
  shows "ordered (map (Sent c) js)"
  using assms by (induction js) auto

section \<open>Fresh jobs\<close>

lemma do_msg_stopped:
  "stop s \<Longrightarrow>
   do_msg to_value server msg s =
     (case msg of Inr (Response r) \<Rightarrow> ([], do_response r s) | _ \<Rightarrow> ([], s))"
  by (simp add: do_msg.simps)

lemma do_msg_running:
  "\<not> stop s \<Longrightarrow> do_msg to_value server (Inl broken) s = ([Work (ready (Some (broken_reply broken)))], s)"
  "\<not> stop s \<Longrightarrow> do_msg to_value server (Inr (Request req)) s =
     apfst (\<lambda>j. [j]) (do_request to_value server req s)"
  "\<not> stop s \<Longrightarrow> do_msg to_value server (Inr (Notification notif)) s =
     apfst (\<lambda>j. [j]) (do_notification server notif s)"
  "\<not> stop s \<Longrightarrow> do_msg to_value server (Inr (Batch batch)) s = do_batch to_value server batch s"
  "\<not> stop s \<Longrightarrow> do_msg to_value server (Inr (UnmatchedSub v)) s =
     ([Work (ready (Some (broken_reply (Unmatched v))))], s)"
  "\<not> stop s \<Longrightarrow> do_msg to_value server (Inr (Response r)) s = ([], do_response r s)"
  by (subst do_msg.simps; simp add: do_msg.simps)+

text \<open>What is new between two states, and what the new jobs are allowed to touch.\<close>

definition grown :: "'s job list \<Rightarrow> 's conn \<Rightarrow> 's conn \<Rightarrow> bool" where
  "grown js s t \<longleftrightarrow>
     length (chans s) \<le> length (chans t) \<and>
     (\<forall>c. length (chans s) \<le> c \<and> c < length (chans t) \<longrightarrow> balanced js t c) \<and>
     (\<forall>c. length (chans t) \<le> c \<longrightarrow> absent js c) \<and>
     ordered js \<and> list_all nested js"

text \<open>A message leaves the existing channels alone; entries of a batch feed its channel.\<close>

definition fresh :: "'s job list \<Rightarrow> 's conn \<Rightarrow> 's conn \<Rightarrow> bool" where
  "fresh js s t \<longleftrightarrow>
     grown js s t \<and> (\<forall>c < length (chans s). chans t ! c = chans s ! c \<and> absent js c) \<and>
     length (filter yields js) \<le> 1"

definition fed :: "nat \<Rightarrow> nat \<Rightarrow> 's job list \<Rightarrow> 's conn \<Rightarrow> 's conn \<Rightarrow> bool" where
  "fed c n js s t \<longleftrightarrow>
     grown js s t \<and>
     (\<forall>d < length (chans s). d \<noteq> c \<longrightarrow> chans t ! d = chans s ! d \<and> absent js d) \<and>
     chans t ! c = (chans s ! c)\<lparr>chan_senders := chan_senders (chans s ! c) + total (holders c) js\<rparr> \<and>
     total (promises c) js \<le> n \<and> total (collects c) js = 0 \<and> filter yields js = []"

lemma fresh_none: "chans t = chans s \<Longrightarrow> fresh [] s t"
  by (auto simp: fresh_def grown_def absent_def)

lemma fresh_one: "chans t = chans s \<Longrightarrow> fresh [Work f] s t"
  by (auto simp: fresh_def grown_def absent_def)

lemma chans_apis: "apis accepts s t \<Longrightarrow> chans t = chans s"
  by (induction rule: rtranclp_induct) (auto dest: api_frame)

lemma chans_do_response [simp]: "chans (do_response r s) = chans s"
  by (simp add: do_response_def split: option.split)

lemma sender_clones_chans [simp]:
  "length (chans (sender_clones c n s)) = length (chans s)"
  "d \<noteq> c \<Longrightarrow> chans (sender_clones c n s) ! d = chans s ! d"
  "c < length (chans s) \<Longrightarrow>
   chans (sender_clones c n s) ! c = (chans s ! c)\<lparr>chan_senders := chan_senders (chans s ! c) + n\<rparr>"
  by (simp_all add: sender_clones_def set_chan_def Let_def)

lemma absent_promises: "absent js c \<Longrightarrow> total (promises c) js = 0"
  using total_promises_le [of c js] by (simp add: absent_def)

lemma absent_simps [simp]:
  "absent [] c" "absent (js @ ks) c \<longleftrightarrow> absent js c \<and> absent ks c"
  "absent (map (Sent d) js) c \<longleftrightarrow> (d = c \<longrightarrow> js = []) \<and> absent js c"
  by (auto simp: absent_def)

lemma balanced_append_absent:
  assumes "absent ks c"
  shows "balanced (js @ ks) s c = balanced js s c" and "balanced (ks @ js) s c = balanced js s c"
  using assms absent_promises [OF assms] by (simp_all add: balanced_def absent_def)

lemma balanced_cong: "chans t ! c = chans s ! c \<Longrightarrow> balanced js t c = balanced js s c"
  by (simp add: balanced_def)

lemma balanced_Sent: "c \<noteq> d \<Longrightarrow> balanced (map (Sent c) js) s d = balanced js s d"
  by (simp add: balanced_def)

lemma fed_Cons:
  assumes js: "fresh js s t" and ks: "fed c n ks (sender_clones c (length js) t) u"
    and c: "c < length (chans s)"
  shows "fed c (Suc n) (map (Sent c) js @ ks) s u"
proof -
  let ?t = "sender_clones c (length js) t"
  have len: "length (chans s) \<le> length (chans t)" "length (chans t) \<le> length (chans u)"
    using js ks by (simp_all add: fresh_def fed_def grown_def)
  have cs: "chans u ! d = chans t ! d" if "d \<noteq> c" "d < length (chans t)" for d
    using ks that by (simp add: fed_def)
  have old: "chans t ! d = chans s ! d" "absent js d" if "d < length (chans s)" for d
    using js that by (auto simp: fresh_def)
  have ks_absent: "absent ks d" if "d \<noteq> c" "d < length (chans t)" for d
    using ks that by (simp add: fed_def)
  have js_absent: "absent js d" if "length (chans t) \<le> d" for d
    using js that by (simp add: fresh_def grown_def)
  have new: "balanced (map (Sent c) js @ ks) u d" if "length (chans s) \<le> d" "d < length (chans u)" for d
  proof (cases "d < length (chans t)")
    case True
    then have "balanced js t d" using js that by (simp add: fresh_def grown_def)
    then show ?thesis
      using True that c balanced_cong [OF cs [of d]] ks_absent [of d]
      by (auto simp: balanced_append_absent balanced_Sent)
  next
    case False
    then have "balanced ks u d" using ks that by (simp add: fed_def grown_def)
    moreover have "absent (map (Sent c) js) d" using False that c js_absent [of d] len(1) by auto
    ultimately show ?thesis by (simp add: balanced_append_absent)
  qed
  have absent_after: "absent (map (Sent c) js @ ks) d" if "length (chans u) \<le> d" for d
    using that len c js_absent [of d] ks by (auto simp: fed_def grown_def)
  have collect_js: "length (chans s) \<le> d \<and> d < length (chans t)" if "0 < total (collects d) js" for d
    using that old(2) [of d] js_absent [of d] by (auto simp: absent_def not_less [symmetric])
  have "ordered js" "ordered ks" "total (collects c) js = 0"
    using js ks old(2) [OF c] by (simp_all add: fresh_def fed_def grown_def absent_def)
  moreover have "total (holders d) ks = 0" if "0 < total (collects d) js" for d
    using collect_js [OF that] ks_absent [of d] c by (simp add: absent_def)
  ultimately have ord: "ordered (map (Sent c) js @ ks)"
    by (simp add: ordered_append ordered_Sent)
  have nest: "list_all nested (map (Sent c) js @ ks)"
  proof -
    have "c < d" if "j \<in> set js" "0 < collects d j" for j d
    proof -
      have "total (collects d) js \<noteq> 0" using that by (auto simp: total_zero)
      with collect_js [of d] c show ?thesis by simp
    qed
    then show ?thesis using js ks by (auto simp: fresh_def fed_def grown_def list_all_iff)
  qed
  have prom: "total (promises c) (map (Sent c) js @ ks) \<le> Suc n"
    using js ks absent_promises [OF old(2) [OF c]] by (simp add: fresh_def fed_def)
  have chan: "chans u ! c =
      (chans s ! c)\<lparr>chan_senders := chan_senders (chans s ! c) + total (holders c) (map (Sent c) js @ ks)\<rparr>"
    using ks old [OF c] c len(1) by (simp add: fed_def absent_def)
  show ?thesis
    unfolding fed_def grown_def
  proof (intro conjI allI impI)
    show "length (chans s) \<le> length (chans u)" using len by simp
    show "chans u ! d = chans s ! d" if "d < length (chans s)" "d \<noteq> c" for d
      using that len(1) cs [of d] old(1) [of d] by simp
    show "absent (map (Sent c) js @ ks) d" if "d < length (chans s)" "d \<noteq> c" for d
      using that len(1) ks_absent [of d] old(2) [of d] by simp
    show "total (collects c) (map (Sent c) js @ ks) = 0"
      using ks old(2) [OF c] by (simp add: fed_def absent_def)
    show "filter yields (map (Sent c) js @ ks) = []" using ks by (simp add: fed_def filter_empty_conv)
  qed (use new absent_after ord nest prom chan in \<open>simp_all only:\<close>)
qed

lemma fed_Nil: "fed c n [] s s"
  by (auto simp: fed_def grown_def)

lemma fresh_batch:
  assumes "new_channel n s = (c, s0)" and "fed c n js s0 t"
  shows "fresh (js @ [Collect c []]) s t"
proof -
  from assms(1) have c: "c = length (chans s)" and s0: "length (chans s0) = Suc c"
    "chans s0 ! c = \<lparr>capacity = n, chan_queue = [], chan_senders = 0, chan_open = True\<rparr>"
    "\<And>d. d < c \<Longrightarrow> chans s0 ! d = chans s ! d"
    by (auto simp: new_channel_def nth_append)
  note fed = assms(2) [unfolded fed_def grown_def]
  have "balanced (js @ [Collect c []]) t c"
    using fed s0 by (simp add: balanced_def)
  moreover have "balanced (js @ [Collect c []]) t d" if "c < d" "d < length (chans t)" for d
  proof -
    have "balanced js t d" using fed that s0 by simp
    with that show ?thesis by (subst balanced_append_absent) (simp_all add: absent_def)
  qed
  ultimately have "balanced (js @ [Collect c []]) t d" if "c \<le> d" "d < length (chans t)" for d
    using that by (cases "d = c") auto
  then show ?thesis
    using fed s0 c by (auto simp: fresh_def grown_def absent_def ordered_append)
qed

text \<open>Jobs that touch the connection through the public interface only.\<close>

definition decent :: "room \<Rightarrow> 's job list \<Rightarrow> bool" where
  "decent accepts js \<longleftrightarrow> list_all (tame_job accepts) js"

lemma decent_simps [simp]:
  "decent accepts []" "decent accepts (j # js) \<longleftrightarrow> tame_job accepts j \<and> decent accepts js"
  "decent accepts (js @ ks) \<longleftrightarrow> decent accepts js \<and> decent accepts ks"
  "decent accepts (map (Sent c) js) \<longleftrightarrow> decent accepts js"
  by (auto simp: decent_def list_all_iff)

lemma conn_ok_do_response:
  assumes "conn_ok k s"
  shows "conn_ok k (do_response r s)"
proof (cases "Option.bind (as_str (resp_id r)) (idmap s)")
  case None
  with assms show ?thesis by (simp add: do_response_def)
next
  case (Some i)
  then obtain x where x: "as_str (resp_id r) = Some x" "idmap s x = Some i"
    by (auto simp: bind_eq_Some_conv)
  with assms have i: "i < length (calls s)" "call_id (calls s ! i) = x"
    by (auto simp: conn_ok_def ids_ok_def)
  have "refs_ok k (do_response r s)"
    using assms x i filter_update_same [of i "calls s" live "(calls s ! i)\<lparr>slot := Arrived r\<rparr>"]
    by (simp add: conn_ok_def refs_ok_def live_calls_def do_response_def arrive_def)
  moreover have "ids_ok (do_response r s)"
    using assms x i by (auto simp: conn_ok_def ids_ok_def do_response_def arrive_def nth_list_update)
  ultimately show ?thesis
    using assms x by (simp add: conn_ok_def ctl_ok_def do_response_def)
qed

lemma conn_ok_chans: "conn_ok k (s\<lparr>chans := cs\<rparr>) = conn_ok k s"
  by (simp add: conn_ok_def refs_ok_def live_calls_def ctl_ok_def ids_ok_def)

lemma conn_ok_sender_clones [simp]: "conn_ok k (sender_clones c n s) = conn_ok k s"
  by (simp add: sender_clones_def set_chan_def Let_def conn_ok_chans)

lemma conn_ok_new_channel: "conn_ok k (snd (new_channel n s)) = conn_ok k s"
  by (simp add: new_channel_def conn_ok_chans)

context server_contract
begin

lemma do_request_fresh:
  assumes "do_request to_value server req s = (j, t)"
  shows "fresh [j] s t \<and> tame_job accepts j \<and> apis accepts s t"
  using assms chans_apis
  by (auto simp: do_request_def intro!: fresh_one tame_future_then dest: rpc_apis rpc_tame
      split: prod.splits option.splits)

lemma do_notification_fresh:
  assumes "do_notification server notif s = (j, t)"
  shows "fresh [j] s t \<and> tame_job accepts j \<and> apis accepts s t"
  using assms chans_apis
  by (auto simp: do_notification_def intro!: fresh_one tame_future_then dest: notify_apis notify_tame
      split: prod.splits option.splits)

end

lemma do_msg_fresh_induct:
  "server_contract accepts server \<longrightarrow>
     fresh (fst (do_msg to_value server msg s)) s (snd (do_msg to_value server msg s)) \<and>
     decent accepts (fst (do_msg to_value server msg s))"
  "server_contract accepts server \<longrightarrow>
     fresh (fst (do_batch to_value server msgs s)) s (snd (do_batch to_value server msgs s)) \<and>
     decent accepts (fst (do_batch to_value server msgs s))"
  "server_contract accepts server \<longrightarrow> c < length (chans s) \<longrightarrow>
     fed c (length subs) (fst (do_subs to_value server c subs s)) s (snd (do_subs to_value server c subs s)) \<and>
     decent accepts (fst (do_subs to_value server c subs s))"
proof (induction to_value server msg s and to_value server msgs s and to_value server c subs s
    rule: do_msg_do_batch_do_subs.induct)
  case (1 to_value server msg s)
  show ?case
  proof (cases "stop s")
    case True
    then show ?thesis by (simp add: do_msg_stopped fresh_none split: sum.split message.split)
  next
    case running: False
    show ?thesis
    proof (intro impI)
      assume contract: "server_contract accepts server"
      show "fresh (fst (do_msg to_value server msg s)) s (snd (do_msg to_value server msg s)) \<and>
        decent accepts (fst (do_msg to_value server msg s))"
      proof (cases msg)
        case (Inl broken)
        then show ?thesis using running by (simp add: do_msg_running fresh_one)
      next
        case (Inr m)
        show ?thesis
        proof (cases m)
          case (Request req)
          obtain j t where "do_request to_value server req s = (j, t)" by fastforce
          with server_contract.do_request_fresh [OF contract this] Inr Request running
          show ?thesis by (simp add: do_msg_running)
        next
          case (Notification notif)
          obtain j t where "do_notification server notif s = (j, t)" by fastforce
          with server_contract.do_notification_fresh [OF contract this] Inr Notification running
          show ?thesis by (simp add: do_msg_running)
        next
          case (Batch batch)
          then show ?thesis
            using 1(1) [OF refl running Inr] contract running Inr by (simp add: do_msg_running)
        qed (use Inr running in \<open>simp_all add: do_msg_running fresh_one fresh_none\<close>)
      qed
    qed
  qed
next
  case (2 to_value server msgs s)
  obtain c s0 where new: "new_channel (length msgs) s = (c, s0)" by fastforce
  obtain js t where subs: "do_subs to_value server c msgs s0 = (js, t)" by fastforce
  have "c < length (chans s0)" using new by (auto simp: new_channel_def)
  then have "server_contract accepts server \<longrightarrow> fed c (length msgs) js s0 t \<and> decent accepts js"
    using 2 [OF new [symmetric] refl] subs by simp
  then show ?case using fresh_batch [OF new] by (simp add: do_batch.simps new subs)
next
  case (3 to_value server c s)
  then show ?case by (simp add: fed_Nil)
next
  case (4 to_value server c sub subs s)
  obtain js t where sub: "do_msg to_value server (Inr sub) s = (js, t)" by fastforce
  obtain ks u where subs: "do_subs to_value server c subs (sender_clones c (length js) t) = (ks, u)"
    by fastforce
  show ?case
  proof (intro impI)
    assume contract: "server_contract accepts server"
    then have js: "fresh js s t \<and> decent accepts js" using 4(1) sub by simp
    assume c: "c < length (chans s)"
    with js have "c < length (chans (sender_clones c (length js) t))"
      by (simp add: fresh_def grown_def)
    then have "fed c (length subs) ks (sender_clones c (length js) t) u \<and> decent accepts ks"
      using 4(2) [OF sub [symmetric] refl] contract subs by simp
    with js c fed_Cons [of js s t c "length subs" ks u]
    show "fed c (length (sub # subs)) (fst (do_subs to_value server c (sub # subs) s)) s
        (snd (do_subs to_value server c (sub # subs) s)) \<and>
      decent accepts (fst (do_subs to_value server c (sub # subs) s))"
      by (simp add: sub subs)
  qed
qed

text \<open>What every operation of the shared state keeps, handling an item keeps.\<close>

lemma do_msg_keeps_induct:
  assumes api: "\<And>s t. api accepts s t \<Longrightarrow> P s \<Longrightarrow> P t"
    and response: "\<And>r s. P s \<Longrightarrow> P (do_response r s)"
    and channels: "\<And>cs s. P s \<Longrightarrow> P (s\<lparr>chans := cs\<rparr>)"
  shows "server_contract accepts server \<longrightarrow> P s \<longrightarrow> P (snd (do_msg to_value server msg s))"
    and "server_contract accepts server \<longrightarrow> P s \<longrightarrow> P (snd (do_batch to_value server msgs s))"
    and "server_contract accepts server \<longrightarrow> P s \<longrightarrow> P (snd (do_subs to_value server c subs s))"
proof (induction to_value server msg s and to_value server msgs s and to_value server c subs s
    rule: do_msg_do_batch_do_subs.induct)
  have apis: "P t" if "apis accepts s t" "P s" for s t
    using that by (induction rule: rtranclp_induct) (auto intro: api)
  case (1 to_value server msg s)
  show ?case
  proof (cases "stop s")
    case True
    then show ?thesis by (simp add: do_msg_stopped response split: sum.split message.split)
  next
    case running: False
    show ?thesis
    proof (intro impI)
      assume contract: "server_contract accepts server" and ok: "P s"
      show "P (snd (do_msg to_value server msg s))"
      proof (cases msg)
        case (Inl broken)
        then show ?thesis using running ok by (simp add: do_msg_running)
      next
        case (Inr m)
        show ?thesis
        proof (cases m)
          case (Request req)
          obtain j t where "do_request to_value server req s = (j, t)" by fastforce
          with server_contract.do_request_fresh [OF contract this] ok Inr Request running
          show ?thesis by (auto simp: do_msg_running intro: apis)
        next
          case (Notification notif)
          obtain j t where "do_notification server notif s = (j, t)" by fastforce
          with server_contract.do_notification_fresh [OF contract this] ok Inr Notification running
          show ?thesis by (auto simp: do_msg_running intro: apis)
        next
          case (Batch batch)
          then show ?thesis
            using 1(1) [OF refl running Inr] contract ok running Inr by (simp add: do_msg_running)
        qed (use ok Inr running in \<open>simp_all add: do_msg_running response\<close>)
      qed
    qed
  qed
next
  case (2 to_value server msgs s)
  obtain c s0 where new: "new_channel (length msgs) s = (c, s0)" by fastforce
  then have "P s \<longrightarrow> P s0" by (auto simp: new_channel_def channels)
  then show ?case
    using 2 [OF new [symmetric] refl] new
    by (cases "do_subs to_value server c msgs s0") (simp add: do_batch.simps)
next
  case (4 to_value server c sub subs s)
  obtain js t where sub: "do_msg to_value server (Inr sub) s = (js, t)" by fastforce
  have "P t \<longrightarrow> P (sender_clones c (length js) t)"
    by (simp add: sender_clones_def set_chan_def Let_def channels)
  then show ?case
    using 4(1) 4(2) [OF sub [symmetric] refl] sub
    by (cases "do_subs to_value server c subs (sender_clones c (length js) t)") simp
qed simp

context server_contract
begin

lemma do_msg_fresh:
  assumes "do_msg to_value server msg s = (js, t)"
  shows "fresh js s t" and "decent accepts js"
  using do_msg_fresh_induct(1) [of accepts server to_value msg s] server_contract_axioms assms by simp_all

lemma do_msg_keeps:
  assumes "do_msg to_value server msg s = (js, t)" and "P s"
    and "\<And>s t. api accepts s t \<Longrightarrow> P s \<Longrightarrow> P t"
    and "\<And>r s. P s \<Longrightarrow> P (do_response r s)"
    and "\<And>cs s. P s \<Longrightarrow> P (s\<lparr>chans := cs\<rparr>)"
  shows "P t"
  using do_msg_keeps_induct(1) [of accepts P server s to_value msg, OF assms(3-5)]
    server_contract_axioms assms(1,2) by simp

lemma do_msg_conn_ok:
  assumes "do_msg to_value server msg s = (js, t)" and "conn_ok k s"
  shows "conn_ok k t"
  using assms by (rule do_msg_keeps) (auto intro: conn_ok_api conn_ok_do_response simp: conn_ok_chans)

lemma do_msg_outbox_open:
  assumes "do_msg to_value server msg s = (js, t)"
  shows "outbox_open t = outbox_open s"
  using assms refl
  by (rule do_msg_keeps) (auto dest: api_frame simp: do_response_def split: option.split)

end

section \<open>Polling keeps the accounts\<close>

text \<open>What is left of a job after a poll.\<close>

fun left :: "'s outcome \<Rightarrow> 's job list" where
  "left (Again j) = [j]"
| "left _ = []"

text \<open>
  What the other jobs of the pool leave to a job that is polled: the senders it holds are counted,
  the results it promises have room, and a channel with senders has its receiver.
\<close>

definition backed :: "'s job \<Rightarrow> 's conn \<Rightarrow> bool" where
  "backed j s \<longleftrightarrow>
     (\<forall>c < length (chans s).
        holders c j \<le> chan_senders (chans s ! c) \<and>
        length (chan_queue (chans s ! c)) + promises c j \<le> capacity (chans s ! c) \<and>
        collects c j \<le> (if chan_open (chans s ! c) then 1 else 0) \<and>
        (0 < chan_senders (chans s ! c) \<longrightarrow> chan_open (chans s ! c))) \<and>
     (\<forall>c. length (chans s) \<le> c \<longrightarrow> holders c j = 0 \<and> collects c j = 0)"

text \<open>How one channel changes when a job takes a step.\<close>

definition moved :: "nat \<Rightarrow> 's job \<Rightarrow> 's job list \<Rightarrow> channel \<Rightarrow> channel \<Rightarrow> bool" where
  "moved c j ks a b \<longleftrightarrow>
     capacity b = capacity a \<and>
     chan_senders b + holders c j = chan_senders a + total (holders c) ks \<and>
     length (chan_queue b) + total (promises c) ks \<le> length (chan_queue a) + promises c j \<and>
     (if chan_open b then 1 else 0) + collects c j = (if chan_open a then 1 else 0) + total (collects c) ks \<and>
     total (holders c) ks \<le> holders c j \<and> total (collects c) ks \<le> collects c j \<and>
     (0 < chan_senders b \<longrightarrow> chan_open b)"

definition step_ok :: "room \<Rightarrow> 's job \<Rightarrow> 's conn \<Rightarrow> 's outcome \<Rightarrow> 's conn \<Rightarrow> bool" where
  "step_ok accepts j s out t \<longleftrightarrow>
     length (chans t) = length (chans s) \<and>
     (\<forall>c < length (chans s). moved c j (left out) (chans s ! c) (chans t ! c)) \<and>
     (\<forall>c. length (chans s) \<le> c \<longrightarrow> absent (left out) c) \<and>
     list_all nested (left out) \<and> decent accepts (left out) \<and>
     (\<forall>e. out \<noteq> Finished (Inl e)) \<and>
     (\<not> yields j \<longrightarrow> (\<forall>m. out \<noteq> Finished (Inr (Some m))) \<and> filter yields (left out) = [])"

lemma moved_same:
  "(0 < chan_senders a \<longrightarrow> chan_open a) \<Longrightarrow> moved c j [j] a a"
  by (simp add: moved_def)

lemma moved_elsewhere:
  assumes "chan_senders a > 0 \<longrightarrow> chan_open a"
    and "holders d j = 0" "collects d j = 0" "absent ks d"
  shows "moved d j ks a a"
  using assms absent_promises [OF assms(4)] promises_le_holders [of d j]
  by (simp add: moved_def absent_def)

lemma poll_sending_ok:
  assumes "backed (Sending c m) s" and "poll_sending accepts c m s = (out, t)"
  shows "step_ok accepts (Sending c m) s out t"
proof -
  have c: "c < length (chans s)" using assms(1) by (auto simp: backed_def not_less [symmetric])
  then have ch: "chan_open (chans s ! c)" "0 < chan_senders (chans s ! c)"
    "length (chan_queue (chans s ! c)) + 1 \<le> capacity (chans s ! c)"
    using assms(1) by (auto simp: backed_def)
  have other: "moved d (Sending c m) ks (chans s ! d) (chans s ! d)"
    if "d < length (chans s)" "c \<noteq> d" "absent ks d" for d ks
    by (rule moved_elsewhere) (use that assms(1) in \<open>auto simp: backed_def\<close>)
  show ?thesis
  proof (cases "accepts (capacity (chans s ! c)) (length (chan_queue (chans s ! c)))")
    case True
    let ?b = "(chans s ! c)\<lparr>chan_queue := chan_queue (chans s ! c) @ [m],
      chan_senders := chan_senders (chans s ! c) - 1\<rparr>"
    have "out = Finished (Inr None)" "chans t = (chans s)[c := ?b]"
      using True assms(2) ch c by (auto simp: poll_sending_def Let_def sender_drop_def set_chan_def)
    moreover have "moved c (Sending c m) [] (chans s ! c) ?b" using ch by (simp add: moved_def)
    ultimately show ?thesis using other [of _ "[]"] c by (auto simp: step_ok_def nth_list_update)
  next
    case False
    then have "out = Again (Sending c m)" "t = s" using assms(2) ch by (auto simp: poll_sending_def)
    moreover have "absent [Sending c m] d" if "length (chans s) \<le> d" for d
      using that c by (simp add: absent_def)
    moreover have "moved d (Sending c m) [Sending c m] (chans s ! d) (chans s ! d)"
      if "d < length (chans s)" for d
      using that assms(1) by (intro moved_same) (simp add: backed_def)
    ultimately show ?thesis using c by (auto simp: step_ok_def)
  qed
qed

lemma poll_collect_ok:
  assumes "backed (Collect c acc) s" and "poll_collect c acc s = (out, t)"
  shows "step_ok accepts (Collect c acc) s out t"
proof -
  have c: "c < length (chans s)" using assms(1) by (auto simp: backed_def not_less [symmetric])
  then have ch: "chan_open (chans s ! c)" using assms(1) by (auto simp: backed_def split: if_splits)
  have other: "moved d (Collect c acc) ks (chans s ! d) (chans s ! d)"
    if "d < length (chans s)" "c \<noteq> d" "absent ks d" for d ks
    by (rule moved_elsewhere) (use that assms(1) in \<open>auto simp: backed_def\<close>)
  show ?thesis
  proof (cases "chan_senders (chans s ! c) = 0")
    case True
    let ?b = "(chans s ! c)\<lparr>chan_queue := [], chan_open := False\<rparr>"
    have "left out = []" "\<forall>e. out \<noteq> Finished (Inl e)" "chans t = (chans s)[c := ?b]"
      using True assms(2) by (auto simp: poll_collect_def Let_def set_chan_def)
    moreover have "moved c (Collect c acc) [] (chans s ! c) ?b" using ch True by (simp add: moved_def)
    ultimately show ?thesis using other [of _ "[]"] c by (auto simp: step_ok_def nth_list_update)
  next
    case False
    let ?b = "(chans s ! c)\<lparr>chan_queue := []\<rparr>"
    let ?k = "Collect c (acc @ chan_queue (chans s ! c))"
    have "out = Again ?k" "chans t = (chans s)[c := ?b]"
      using False assms(2) by (auto simp: poll_collect_def Let_def set_chan_def)
    moreover have "moved c (Collect c acc) [?k] (chans s ! c) ?b" using ch by (simp add: moved_def)
    moreover have "absent [?k] d" if "c \<noteq> d" for d using that by (simp add: absent_def)
    ultimately show ?thesis using other [of _ "[?k]"] c
      by (auto simp: step_ok_def nth_list_update)
  qed
qed

text \<open>The three ways in which a step of the inner job is one of the job around it.\<close>

lemma moved_Sent_done:
  assumes "moved d j [] a b" and "holders d (Sent c j) \<le> chan_senders a"
    and "b' = (if c = d then b\<lparr>chan_senders := chan_senders b - 1\<rparr> else b)"
  shows "moved d (Sent c j) [] a b'"
  using assms by (cases "c = d") (auto simp: moved_def split: if_splits)

lemma moved_Sent_again:
  assumes "moved d j [k] a b" and "yields k \<longrightarrow> yields j"
  shows "moved d (Sent c j) [Sent c k] a b"
  using assms by (auto simp: moved_def)

lemma moved_Sent_sending:
  assumes "moved d j [] a b" and "moved d (Sending c m) ks b b'" and "yields j"
  shows "moved d (Sent c j) ks a b'"
  using assms by (cases "c = d") (auto simp: moved_def split: if_splits)

lemma backedD:
  assumes "backed j s" and "c < length (chans s)"
  shows "holders c j \<le> chan_senders (chans s ! c)"
    and "length (chan_queue (chans s ! c)) + promises c j \<le> capacity (chans s ! c)"
    and "collects c j \<le> (if chan_open (chans s ! c) then 1 else 0)"
    and "0 < chan_senders (chans s ! c) \<longrightarrow> chan_open (chans s ! c)"
  using assms by (simp_all add: backed_def)

lemma backed_range: "backed j s \<Longrightarrow> 0 < holders c j \<or> 0 < collects c j \<Longrightarrow> c < length (chans s)"
  by (rule ccontr) (auto simp: backed_def)

lemma backedI:
  assumes "\<And>c. c < length (chans s) \<Longrightarrow> holders c j \<le> chan_senders (chans s ! c)"
    and "\<And>c. c < length (chans s) \<Longrightarrow>
      length (chan_queue (chans s ! c)) + promises c j \<le> capacity (chans s ! c)"
    and "\<And>c. c < length (chans s) \<Longrightarrow> collects c j \<le> (if chan_open (chans s ! c) then 1 else 0)"
    and "\<And>c. c < length (chans s) \<Longrightarrow> 0 < chan_senders (chans s ! c) \<Longrightarrow> chan_open (chans s ! c)"
    and "\<And>c. 0 < holders c j \<or> 0 < collects c j \<Longrightarrow> c < length (chans s)"
  shows "backed j s"
  unfolding backed_def using assms by (meson neq0_conv not_less)

lemma backed_Sent:
  assumes "backed (Sent c j) s"
  shows "backed j s" and "c < length (chans s)"
proof -
  show "c < length (chans s)" by (rule backed_range [OF assms]) simp
  show "backed j s"
  proof (rule backedI)
    fix d assume d: "d < length (chans s)"
    note b = backedD [OF assms d]
    from b(1) show "holders d j \<le> chan_senders (chans s ! d)" by simp
    from b(2) show "length (chan_queue (chans s ! d)) + promises d j \<le> capacity (chans s ! d)" by simp
    from b(3) show "collects d j \<le> (if chan_open (chans s ! d) then 1 else 0)" by simp
    from b(4) show "0 < chan_senders (chans s ! d) \<Longrightarrow> chan_open (chans s ! d)" by simp
  next
    fix d assume "0 < holders d j \<or> 0 < collects d j"
    then show "d < length (chans s)" by (intro backed_range [OF assms]) auto
  qed
qed

lemma chans_sender_drop:
  "chans (sender_drop c s) = (chans s)[c := (chans s ! c)\<lparr>chan_senders := chan_senders (chans s ! c) - 1\<rparr>]"
  by (simp add: sender_drop_def set_chan_def Let_def)

lemma backed_after:
  assumes "backed (Sent c j) s" and "step_ok accepts j s out t" and "left out = []" and "yields j"
  shows "backed (Sending c m) t"
proof -
  have len: "length (chans t) = length (chans s)" using assms(2) by (simp add: step_ok_def)
  have c: "c < length (chans s)" by (rule backed_Sent(2) [OF assms(1)])
  have "moved d j [] (chans s ! d) (chans t ! d)" if "d < length (chans s)" for d
    using assms(2,3) that by (simp add: step_ok_def)
  note move = this [unfolded moved_def]
  show ?thesis
  proof (rule backedI)
    fix d assume "d < length (chans t)"
    then have d: "d < length (chans s)" by (simp add: len)
    note b = backedD [OF assms(1) d] move [OF d]
    show "holders d (Sending c m) \<le> chan_senders (chans t ! d)" using b(1,5) by auto
    show "length (chan_queue (chans t ! d)) + promises d (Sending c m) \<le> capacity (chans t ! d)"
      using b(2,5) assms(4) by auto
    show "0 < chan_senders (chans t ! d) \<Longrightarrow> chan_open (chans t ! d)" using b(5) by simp
  qed (use c len in \<open>auto split: if_splits\<close>)
qed

lemma poll_job_ok:
  assumes "backed j s" and "nested j" and "tame_job accepts j"
    and "poll_job accepts j s = (out, t)" and "out \<noteq> Panic"
  shows "step_ok accepts j s out t"
  using assms
proof (induction j arbitrary: out t)
  case (Work f)
  obtain r u where poll: "poll f s = (r, u)" by fastforce
  then have same: "chans u = chans s" using Work.prems(3) by (auto dest: tame_poll chans_apis)
  have moved: "moved c (Work f) ks (chans s ! c) (chans s ! c)"
    if "c < length (chans s)" "ks = [] \<or> (\<exists>g. ks = [Work g])" for c ks
    using that Work.prems(1) by (auto simp: moved_def backed_def)
  show ?case using poll same moved Work.prems
    by (auto simp: step_ok_def absent_def split: option.splits sum.splits dest: tame_next)
next
  case (Sent c j)
  obtain o' t' where inner: "poll_job accepts j s = (o', t')" by fastforce
  have c: "c < length (chans s)" and j: "backed j s"
    using backed_Sent [OF Sent.prems(1)] by blast+
  have "o' \<noteq> Panic" using inner Sent.prems(4,5) by auto
  with j inner Sent.prems have ok: "step_ok accepts j s o' t'" by (intro Sent.IH) auto
  then have len: "length (chans t') = length (chans s)" by (simp add: step_ok_def)
  show ?case
  proof (cases o')
    case (Again k)
    then have out: "out = Again (Sent c k)" "t = t'" using inner Sent.prems(4) by auto
    have "yields k \<longrightarrow> yields j" using ok Again by (auto simp: step_ok_def)
    then have "moved d (Sent c j) [Sent c k] (chans s ! d) (chans t' ! d)" if "d < length (chans s)" for d
      using ok Again that by (intro moved_Sent_again) (auto simp: step_ok_def)
    moreover have "c < d" if "0 < collects d k" for d
    proof (cases "d < length (chans s)")
      case True
      then have "collects d k \<le> collects d j" using ok Again by (auto simp: step_ok_def moved_def)
      with that Sent.prems(2) show ?thesis by simp
    next
      case False
      with c show ?thesis by simp
    qed
    ultimately show ?thesis using ok Again out c by (auto simp: step_ok_def absent_def)
  next
    case (Finished r)
    show ?thesis
    proof (cases r)
      case (Inl e)
      with ok Finished show ?thesis by (auto simp: step_ok_def)
    next
      case (Inr reply)
      show ?thesis
      proof (cases reply)
        case None
        then have out: "out = Finished (Inr None)" "t = sender_drop c t'"
          using inner Finished Inr Sent.prems(4) by auto
        have "moved d (Sent c j) [] (chans s ! d) (chans t ! d)" if "d < length (chans s)" for d
          using ok Finished that len c Sent.prems(1) out
          by (intro moved_Sent_done [where b = "chans t' ! d" and c = c])
             (auto simp: step_ok_def backed_def chans_sender_drop nth_list_update)
        then show ?thesis using out len by (simp add: step_ok_def chans_sender_drop)
      next
        case (Some m)
        then have sending: "poll_sending accepts c m t' = (out, t)"
          using inner Finished Inr Sent.prems(4) by simp
        have y: "yields j" using ok Finished Inr Some by (auto simp: step_ok_def)
        have "backed (Sending c m) t'"
          by (rule backed_after [OF Sent.prems(1) ok _ y]) (simp add: Finished)
        from poll_sending_ok [OF this sending] have send: "step_ok accepts (Sending c m) t' out t" .
        have "moved d (Sent c j) (left out) (chans s ! d) (chans t ! d)" if "d < length (chans s)" for d
          using ok send Finished that len y
          by (intro moved_Sent_sending [where b = "chans t' ! d" and m = m]) (auto simp: step_ok_def)
        then show ?thesis using send len by (auto simp: step_ok_def)
      qed
    qed
  next
    case Panic
    with \<open>o' \<noteq> Panic\<close> show ?thesis by simp
  qed
next
  case (Sending c m)
  then show ?case by (simp add: poll_sending_ok)
next
  case (Collect c acc)
  then show ?case by (simp add: poll_collect_ok)
qed

section \<open>Polling one of several jobs\<close>

lemma total_split:
  assumes "i < length js"
  shows "total f js = f (js ! i) + total f (take i js @ drop (Suc i) js)"
  using id_take_nth_drop [OF assms] by (metis add.assoc add.commute total_simps(2,3))

lemma total_replace:
  assumes "i < length js"
  shows "total f (take i js @ ks @ drop (Suc i) js) + f (js ! i) = total f js + total f ks"
  using total_split [OF assms, of f] by simp

lemma backed_member:
  assumes "\<forall>c < length (chans s). balanced js s c" and "\<forall>c. length (chans s) \<le> c \<longrightarrow> absent js c"
    and "i < length js"
  shows "backed (js ! i) s"
proof (rule backedI)
  fix c assume c: "c < length (chans s)"
  then have b: "balanced js s c" using assms(1) by simp
  note split = total_split [OF assms(3)]
  note b' = b [unfolded balanced_def Let_def]
  from b' split [of "holders c"] show "holders c (js ! i) \<le> chan_senders (chans s ! c)"
    by linarith
  from b' split [of "promises c"]
  show "length (chan_queue (chans s ! c)) + promises c (js ! i) \<le> capacity (chans s ! c)"
    by linarith
  from b' split [of "collects c"]
  show "collects c (js ! i) \<le> (if chan_open (chans s ! c) then 1 else 0)"
    by linarith
  from b' show "0 < chan_senders (chans s ! c) \<Longrightarrow> chan_open (chans s ! c)" by blast
next
  fix c assume "0 < holders c (js ! i) \<or> 0 < collects c (js ! i)"
  then have "\<not> absent js c"
    using total_split [OF assms(3), of "holders c"] total_split [OF assms(3), of "collects c"]
    by (auto simp: absent_def)
  with assms(2) show "c < length (chans s)" by (meson not_less)
qed

lemma balanced_replace:
  assumes "balanced js s c" and "i < length js" and "moved c (js ! i) ks (chans s ! c) (chans t ! c)"
  shows "balanced (take i js @ ks @ drop (Suc i) js) t c"
proof -
  let ?new = "take i js @ ks @ drop (Suc i) js"
  have h: "total (holders c) ?new + holders c (js ! i) = total (holders c) js + total (holders c) ks"
    and p: "total (promises c) ?new + promises c (js ! i) = total (promises c) js + total (promises c) ks"
    and q: "total (collects c) ?new + collects c (js ! i) = total (collects c) js + total (collects c) ks"
    by (rule total_replace [OF assms(2)])+
  note b = assms(1) [unfolded balanced_def Let_def] and m = assms(3) [unfolded moved_def]
  show ?thesis
    unfolding balanced_def Let_def
  proof (intro conjI)
    show "chan_senders (chans t ! c) = total (holders c) ?new" using h b m by linarith
    show "length (chan_queue (chans t ! c)) + total (promises c) ?new \<le> capacity (chans t ! c)"
      using p b m by linarith
    show "total (collects c) ?new = (if chan_open (chans t ! c) then 1 else 0)"
      using q b m by linarith
  qed (use m in simp)
qed

lemma absent_replace:
  assumes "absent js c" and "i < length js" and "absent ks c"
  shows "absent (take i js @ ks @ drop (Suc i) js) c"
  using assms total_replace [OF assms(2), of "holders c" ks] total_replace [OF assms(2), of "collects c" ks]
  by (simp add: absent_def)

text \<open>What every operation of the shared state keeps, polling a job keeps.\<close>

lemma poll_job_keeps:
  assumes "tame_job accepts j" and "P s"
    and api: "\<And>s t. api accepts s t \<Longrightarrow> P s \<Longrightarrow> P t"
    and channels: "\<And>cs s. P s \<Longrightarrow> P (s\<lparr>chans := cs\<rparr>)"
  shows "P (snd (poll_job accepts j s))"
  using assms(1)
proof (induction j)
  case (Work f)
  obtain r t where p: "poll f s = (r, t)" by fastforce
  with Work have "apis accepts s t" by (auto dest: tame_poll)
  then have "P t" using assms(2) by (induction rule: rtranclp_induct) (auto intro: api)
  with p show ?case by (auto split: option.split sum.split)
next
  case (Sent c j)
  obtain o' t where p: "poll_job accepts j s = (o', t)" by fastforce
  with Sent have "P t" by simp
  with p show ?case
    by (auto simp: poll_sending_def sender_drop_def set_chan_def Let_def channels
        split: outcome.split sum.split option.split)
qed (use assms(2) in \<open>auto simp: poll_sending_def poll_collect_def sender_drop_def set_chan_def Let_def channels\<close>)

lemma conn_ok_poll_job:
  "tame_job accepts j \<Longrightarrow> conn_ok k s \<Longrightarrow> conn_ok k (snd (poll_job accepts j s))"
  by (erule poll_job_keeps) (auto intro: conn_ok_api simp: conn_ok_chans)

lemma outbox_open_poll_job:
  "tame_job accepts j \<Longrightarrow> outbox_open (snd (poll_job accepts j s)) = outbox_open s"
  by (rule poll_job_keeps [where P = "\<lambda>t. outbox_open t = outbox_open s"]) (auto dest: api_frame)

end
