(* ===== verification/Endpoint.thy ===== *)
theory Endpoint
  imports Jobs
begin

text \<open>
  The endpoint (\<open>Endpoint\<close> in \<open>src/src/endpoint.rs\<close>): the builder, \<open>start\<close>, and the
  running connection as a step relation.

  The pipeline that \<open>start\<close> builds out of stream adaptors pulls an item from the transport when
  nothing of the last one is left and fewer than \<open>parallel\<close> jobs run, hands it to \<open>do_msg\<close>,
  runs the resulting jobs side by side, and sends what they yield, mixed with the messages of the
  clients.  The reactor decides which of these happens next, so each is a step.  The transport and
  the users of the handles are the environment: items, the end of the stream, I/O errors and uses of
  the public interface may come at any time.
\<close>

section \<open>The builder\<close>

record ('c, 's, 'v) builder =
  connection :: 'c
  the_server :: "('s, 'v) server"
  parallel_jobs :: nat
  logging :: bool

definition endpoint_new :: "'c \<Rightarrow> ('s, 'v) server \<Rightarrow> ('c, 's, 'v) builder" where
  "endpoint_new conn server =
     \<lparr>connection = conn, the_server = server, parallel_jobs = 1, logging = False\<rparr>"

definition parallel :: "nat \<Rightarrow> ('c, 's, 'v) builder \<Rightarrow> ('c, 's, 'v) builder" where
  "parallel n b = b\<lparr>parallel_jobs := n\<rparr>"

definition logger :: "bool \<Rightarrow> ('c, 's, 'v) builder \<Rightarrow> ('c, 's, 'v) builder" where
  "logger l b = b\<lparr>logging := l\<rparr>"

definition client_only :: "'c \<Rightarrow> ('c, 's, unit) builder" where
  "client_only conn = endpoint_new conn empty_server"

section \<open>Starting\<close>

text \<open>
  A running connection: the shared state, whether items are still read, the jobs of the current item
  that wait for their turn, the jobs that run, how many may, what has been given to the sink, how the
  connection ended, and whether a callback's future has panicked.
\<close>

record 's endpoint =
  shared :: "'s conn"
  reading :: bool
  backlog :: "'s job list"
  pool :: "'s job list"
  width :: nat
  wire :: "message list"
  finish :: "(io_error + unit) option"
  crashed :: bool

text \<open>The handles made first: one is kept in a variable, one goes to the \<open>ServerCtl\<close>.\<close>

definition start_conn :: "'s \<Rightarrow> 's conn" where
  "start_conn x =
     \<lparr>stop = False, terminator = True, killer = True, ctl_sender = True, idmap = Map.empty,
      term_refs = 2, term_fired = False, kill_fired = False, senders = 2, outbox = [],
      outbox_open = True, clients = 0, calls = [], chans = [], srv = x\<rparr>"

text \<open>The variables \<open>sender\<close> and \<open>rc_terminator\<close> go out of scope when \<open>start\<close> returns.\<close>

definition drop_locals :: "'s conn \<Rightarrow> 's conn" where
  "drop_locals s = rc_drop (s\<lparr>senders := senders s - 1\<rparr>)"

definition start :: "('c, 's, 'v) builder \<Rightarrow> 's \<Rightarrow> 's endpoint" where
  "start b x =
     (let s1 = client_new (start_conn x);
          s2 = initialized (the_server b) s1
      in \<lparr>shared = drop_locals s2, reading = True, backlog = [], pool = [], width = parallel_jobs b,
          wire = [], finish = None, crashed = False\<rparr>)"

section \<open>Steps\<close>

text \<open>
  The closure at the end of the transmission: the outstanding calls are dropped, the result is
  reported, and the streams with everything in them go.
\<close>

definition transmitted :: "io_error + unit \<Rightarrow> 's endpoint \<Rightarrow> 's endpoint" where
  "transmitted r e =
     e\<lparr>shared := (idmap_clear (shared e))\<lparr>outbox := [], outbox_open := False\<rparr>,
       backlog := [], pool := [], finish := Some r\<rparr>"

text \<open>The stream after the end of input: forget the calls, terminate, stop reading.\<close>

definition cleaner :: "'s endpoint \<Rightarrow> 's endpoint" where
  "cleaner e = e\<lparr>shared := terminate (idmap_clear (shared e)), reading := False\<rparr>"

definition running :: "'s endpoint \<Rightarrow> bool" where
  "running e \<longleftrightarrow> finish e = None \<and> \<not> crashed e"

text \<open>The pipeline asks for another item.\<close>

definition hungry :: "'s endpoint \<Rightarrow> bool" where
  "hungry e \<longleftrightarrow> running e \<and> reading e \<and> backlog e = [] \<and> length (pool e) < width e"

definition receive :: "('v \<Rightarrow> 'x + value) \<Rightarrow> ('s, 'v) server \<Rightarrow> parsed \<Rightarrow> 's endpoint \<Rightarrow> 's endpoint" where
  "receive to_value server item e =
     (let (jobs, t) = do_msg to_value server item (shared e)
      in e\<lparr>shared := t, backlog := jobs\<rparr>)"

definition polled :: "room \<Rightarrow> nat \<Rightarrow> 's endpoint \<Rightarrow> 's endpoint" where
  "polled accepts i e =
     (let (out, t) = poll_job accepts (pool e ! i) (shared e);
          e' = e\<lparr>shared := t, pool := take i (pool e) @ left out @ drop (Suc i) (pool e)\<rparr>
      in case out of
           Again j \<Rightarrow> e'
         | Finished (Inr None) \<Rightarrow> e'
         | Finished (Inr (Some m)) \<Rightarrow> e'\<lparr>wire := wire e' @ [m]\<rparr>
         | Finished (Inl err) \<Rightarrow> transmitted (Inl err) e'
         | Panic \<Rightarrow> e'\<lparr>crashed := True\<rparr>)"

text \<open>
  What a step is seen to do: an item is handed to the server half or, on a stopped connection, only
  looked at for a response; a message of a client goes out; a user has done something.  All other
  steps are quiet.  Which of the two an item is, is told from the flag that \<open>do_msg\<close> tests; that an
  ignored item then has no other effect is the lemma \<open>ignored_item\<close> of the theory \<open>Connection\<close>.
\<close>

datatype label =
    Received parsed
  | Ignored parsed
  | Forwarded message
  | Quiet
  | Used

definition received :: "parsed \<Rightarrow> 's endpoint \<Rightarrow> label" where
  "received item e = (if stop (shared e) then Ignored item else Received item)"

inductive event ::
  "room \<Rightarrow> ('v \<Rightarrow> 'x + value) \<Rightarrow> ('s, 'v) server \<Rightarrow> label \<Rightarrow> 's endpoint \<Rightarrow> 's endpoint \<Rightarrow> bool"
  for accepts to_value server where
  event_receive:
    "hungry e \<Longrightarrow> event accepts to_value server (received item e) e (receive to_value server item e)"
| event_end: "hungry e \<Longrightarrow> event accepts to_value server Quiet e (cleaner e)"
| event_terminator:
    "hungry e \<Longrightarrow> term_fired (shared e) \<Longrightarrow>
     event accepts to_value server Quiet e (e\<lparr>reading := False\<rparr>)"
| event_read_error: "hungry e \<Longrightarrow> event accepts to_value server Quiet e (transmitted (Inl err) e)"
| event_pull:
    "running e \<Longrightarrow> backlog e = j # js \<Longrightarrow> length (pool e) < width e \<Longrightarrow>
     event accepts to_value server Quiet e (e\<lparr>backlog := js, pool := pool e @ [j]\<rparr>)"
| event_poll:
    "running e \<Longrightarrow> i < length (pool e) \<Longrightarrow> event accepts to_value server Quiet e (polled accepts i e)"
| event_forward:
    "running e \<Longrightarrow> outbox (shared e) = m # ms \<Longrightarrow>
     event accepts to_value server (Forwarded m) e
       (e\<lparr>shared := (shared e)\<lparr>outbox := ms\<rparr>, wire := wire e @ [m]\<rparr>)"
| event_kill:
    "running e \<Longrightarrow> kill_fired (shared e) \<Longrightarrow>
     event accepts to_value server Quiet e (transmitted (Inr ()) e)"
| event_done:
    "running e \<Longrightarrow> \<not> reading e \<Longrightarrow> backlog e = [] \<Longrightarrow> pool e = [] \<Longrightarrow>
     senders (shared e) = 0 \<Longrightarrow> outbox (shared e) = [] \<Longrightarrow>
     event accepts to_value server Quiet e (transmitted (Inr ()) e)"
| event_write_error: "running e \<Longrightarrow> event accepts to_value server Quiet e (transmitted (Inl err) e)"
| event_user:
    "api accepts (shared e) t \<Longrightarrow> \<not> crashed e \<Longrightarrow>
     event accepts to_value server Used e (e\<lparr>shared := t\<rparr>)"

text \<open>A step, whatever is seen of it.\<close>

definition step ::
  "room \<Rightarrow> ('v \<Rightarrow> 'x + value) \<Rightarrow> ('s, 'v) server \<Rightarrow> 's endpoint \<Rightarrow> 's endpoint \<Rightarrow> bool"
where
  "step accepts to_value server e e' \<longleftrightarrow> (\<exists>l. event accepts to_value server l e e')"

lemma event_step: "event accepts to_value server l e e' \<Longrightarrow> step accepts to_value server e e'"
  by (auto simp: step_def)

lemmas step_receive = event_step [OF event_receive]
  and step_end = event_step [OF event_end]
  and step_terminator = event_step [OF event_terminator]
  and step_read_error = event_step [OF event_read_error]
  and step_pull = event_step [OF event_pull]
  and step_poll = event_step [OF event_poll]
  and step_forward = event_step [OF event_forward]
  and step_kill = event_step [OF event_kill]
  and step_done = event_step [OF event_done]
  and step_write_error = event_step [OF event_write_error]
  and step_user = event_step [OF event_user]

lemma step_cases [consumes 1]:
  assumes "step accepts to_value server e e'"
  obtains (step_receive) item where "e' = receive to_value server item e" and "hungry e"
  | (step_end) "e' = cleaner e" and "hungry e"
  | (step_terminator) "e' = e\<lparr>reading := False\<rparr>" and "hungry e" and "term_fired (shared e)"
  | (step_read_error) err where "e' = transmitted (Inl err) e" and "hungry e"
  | (step_pull) j js where "e' = e\<lparr>backlog := js, pool := pool e @ [j]\<rparr>" and "running e"
      and "backlog e = j # js" and "length (pool e) < width e"
  | (step_poll) i where "e' = polled accepts i e" and "running e" and "i < length (pool e)"
  | (step_forward) m ms where "e' = e\<lparr>shared := (shared e)\<lparr>outbox := ms\<rparr>, wire := wire e @ [m]\<rparr>"
      and "running e" and "outbox (shared e) = m # ms"
  | (step_kill) "e' = transmitted (Inr ()) e" and "running e" and "kill_fired (shared e)"
  | (step_done) "e' = transmitted (Inr ()) e" and "running e" and "\<not> reading e" and "backlog e = []"
      and "pool e = []" and "senders (shared e) = 0" and "outbox (shared e) = []"
  | (step_write_error) err where "e' = transmitted (Inl err) e" and "running e"
  | (step_user) t where "e' = e\<lparr>shared := t\<rparr>" and "api accepts (shared e) t" and "\<not> crashed e"
proof -
  from assms obtain l where "event accepts to_value server l e e'" by (auto simp: step_def)
  then show ?thesis by (cases rule: event.cases) (auto intro: that)
qed

definition reachable ::
  "room \<Rightarrow> ('v \<Rightarrow> 'x + value) \<Rightarrow> ('c, 's, 'v) builder \<Rightarrow> 's \<Rightarrow> 's endpoint \<Rightarrow> bool"
where
  "reachable accepts to_value b x e \<longleftrightarrow>
     (step accepts to_value (the_server b))\<^sup>*\<^sup>* (start b x) e"

section \<open>The invariant\<close>

text \<open>
  The accounts of the channels balance over all jobs, and a running collecting job has nothing it
  waits for still in the backlog.
\<close>

definition jobs_ok :: "room \<Rightarrow> 's endpoint \<Rightarrow> bool" where
  "jobs_ok accepts e \<longleftrightarrow>
     (\<forall>c < length (chans (shared e)). balanced (pool e @ backlog e) (shared e) c) \<and>
     (\<forall>c. length (chans (shared e)) \<le> c \<longrightarrow> absent (pool e @ backlog e) c) \<and>
     (\<forall>c. 0 < total (collects c) (pool e) \<longrightarrow> total (holders c) (backlog e) = 0) \<and>
     ordered (backlog e) \<and>
     list_all nested (pool e @ backlog e) \<and> decent accepts (pool e @ backlog e)"

definition endpoint_ok :: "room \<Rightarrow> 's endpoint \<Rightarrow> bool" where
  "endpoint_ok accepts e \<longleftrightarrow>
     conn_ok 0 (shared e) \<and> length (pool e) \<le> width e \<and>
     (running e \<longrightarrow> jobs_ok accepts e \<and> outbox_open (shared e))"

lemma conn_ok_start: "conn_ok 1 (client_new (start_conn x))"
  by (intro conn_ok_client_new)
     (simp_all add: start_conn_def conn_ok_def refs_ok_def live_calls_def ctl_ok_def ids_ok_def)

lemma drop_locals_fields [simp]:
  "stop (drop_locals s) = stop s" "terminator (drop_locals s) = terminator s"
  "killer (drop_locals s) = killer s" "ctl_sender (drop_locals s) = ctl_sender s"
  "idmap (drop_locals s) = idmap s" "kill_fired (drop_locals s) = kill_fired s"
  "senders (drop_locals s) = senders s - 1" "outbox (drop_locals s) = outbox s"
  "outbox_open (drop_locals s) = outbox_open s" "clients (drop_locals s) = clients s"
  "calls (drop_locals s) = calls s" "chans (drop_locals s) = chans s" "srv (drop_locals s) = srv s"
  "term_refs (drop_locals s) = term_refs s - 1"
  "term_fired (drop_locals s) \<longleftrightarrow> term_refs s \<le> 1 \<or> term_fired s"
  by (simp_all add: drop_locals_def)

lemma conn_ok_drop_locals: "conn_ok (Suc k) s \<Longrightarrow> conn_ok k (drop_locals s)"
  by (auto simp: conn_ok_def refs_ok_def live_calls_def ctl_ok_def ids_ok_cong [of "drop_locals s" s])

lemma conn_ok_transmitted: "conn_ok k (shared e) \<Longrightarrow> conn_ok k (shared (transmitted r e))"
  using conn_ok_idmap_clear [of k "shared e"]
  by (simp add: transmitted_def conn_ok_def refs_ok_def live_calls_def ctl_ok_def ids_ok_def)

lemma apis_chans_outbox: "apis accepts s t \<Longrightarrow> chans t = chans s \<and> outbox_open t = outbox_open s"
  by (induction rule: rtranclp_induct) (auto dest: api_frame)

lemma jobs_ok_cong:
  "chans (shared e') = chans (shared e) \<Longrightarrow> pool e' = pool e \<Longrightarrow> backlog e' = backlog e \<Longrightarrow>
   jobs_ok accepts e' = jobs_ok accepts e"
  by (simp add: jobs_ok_def balanced_def)

lemma jobs_okD:
  assumes "jobs_ok accepts e"
  shows "c < length (chans (shared e)) \<Longrightarrow> balanced (pool e @ backlog e) (shared e) c"
    and "length (chans (shared e)) \<le> c \<Longrightarrow> absent (pool e @ backlog e) c"
    and "0 < total (collects c) (pool e) \<Longrightarrow> total (holders c) (backlog e) = 0"
    and "ordered (backlog e)"
    and "list_all nested (pool e @ backlog e)" and "decent accepts (pool e @ backlog e)"
  using assms by (auto simp: jobs_ok_def)

lemma jobs_ok_backed:
  assumes "jobs_ok accepts e" and "i < length (pool e)"
  shows "backed (pool e ! i) (shared e)"
  using backed_member [of "shared e" "pool e @ backlog e" i] jobs_okD [OF assms(1)] assms(2)
  by (simp add: nth_append)

text \<open>One step of one job.\<close>

lemma jobs_ok_poll:
  assumes "jobs_ok accepts e" and i: "i < length (pool e)"
    and poll: "poll_job accepts (pool e ! i) (shared e) = (out, t)" and "out \<noteq> Panic"
  shows "jobs_ok accepts (e\<lparr>shared := t, pool := take i (pool e) @ left out @ drop (Suc i) (pool e)\<rparr>)"
    and "step_ok accepts (pool e ! i) (shared e) out t"
proof -
  let ?j = "pool e ! i" and ?s = "shared e" and ?js = "pool e @ backlog e"
  let ?new = "take i ?js @ left out @ drop (Suc i) ?js"
  note ok = jobs_okD [OF assms(1)]
  have j: "nested ?j" "tame_job accepts ?j" and rest: "list_all nested (drop (Suc i) (pool e))"
    "list_all nested (take i (pool e))"
    "decent accepts (drop (Suc i) (pool e))" "decent accepts (take i (pool e))"
    using ok(5,6) i by (auto simp: list_all_iff decent_def dest: in_set_takeD in_set_dropD)
  show step: "step_ok accepts ?j ?s out t"
    by (rule poll_job_ok [OF jobs_ok_backed [OF assms(1) i] j poll assms(4)])
  have len: "length (chans t) = length (chans ?s)" using step by (simp add: step_ok_def)
  have z: "i - length (pool e) = 0" "Suc i - length (pool e) = 0" using i by simp_all
  have ij: "?js ! i = ?j" "i < length ?js" using i by (simp_all add: nth_append)
  have "balanced ?new t c" if "c < length (chans t)" for c
    using balanced_replace [OF ok(1) ij(2), of c "left out" t] step that len ij(1) by (simp add: step_ok_def)
  moreover have "absent ?new c" if "length (chans t) \<le> c" for c
    using absent_replace [OF ok(2) ij(2), of c "left out"] step that len by (simp add: step_ok_def)
  moreover have "total (holders c) (backlog e) = 0"
    if "0 < total (collects c) (take i (pool e) @ left out @ drop (Suc i) (pool e))" for c
  proof -
    have "total (collects c) (left out) \<le> collects c ?j"
      using step by (cases "c < length (chans ?s)") (auto simp: step_ok_def moved_def absent_def)
    then have "0 < total (collects c) (pool e)"
      using that total_replace [OF i, of "collects c" "left out"] by linarith
    then show ?thesis by (rule ok(3))
  qed
  ultimately show "jobs_ok accepts
      (e\<lparr>shared := t, pool := take i (pool e) @ left out @ drop (Suc i) (pool e)\<rparr>)"
    using ok(4,5,6) rest step z by (simp add: jobs_ok_def step_ok_def)
qed

text \<open>A new item when nothing of the last one is left.\<close>

lemma jobs_ok_receive:
  assumes "jobs_ok accepts e" and "backlog e = []"
    and "fresh js (shared e) t" and "decent accepts js"
  shows "jobs_ok accepts (e\<lparr>shared := t, backlog := js\<rparr>)"
proof -
  note ok = jobs_okD [OF assms(1)]
  note f = assms(3) [unfolded fresh_def grown_def]
  let ?n = "length (chans (shared e))"
  have "balanced (pool e @ js) t c" if "c < length (chans t)" for c
  proof (cases "c < ?n")
    case True
    with f have "chans t ! c = chans (shared e) ! c" "absent js c" by auto
    with ok(1) [OF True] assms(2) show ?thesis
      by (simp add: balanced_append_absent balanced_cong [of t c "shared e"])
  next
    case False
    with f that have "balanced js t c" by auto
    moreover have "absent (pool e) c" using ok(2) [of c] False assms(2) by simp
    ultimately show ?thesis by (simp add: balanced_append_absent)
  qed
  moreover have "absent (pool e @ js) c" if "length (chans t) \<le> c" for c
    using ok(2) [of c] f that assms(2) by auto
  moreover have "total (holders c) js = 0" if "0 < total (collects c) (pool e)" for c
  proof -
    have "c < ?n" using ok(2) [of c] that by (rule_tac ccontr) (auto simp: absent_def)
    with f show ?thesis by (auto simp: absent_def)
  qed
  ultimately show ?thesis using ok(5,6) f assms(4) by (simp add: jobs_ok_def)
qed

lemma jobs_ok_pull:
  assumes "jobs_ok accepts e" and "backlog e = j # js"
  shows "jobs_ok accepts (e\<lparr>backlog := js, pool := pool e @ [j]\<rparr>)"
  using assms by (auto simp: jobs_ok_def)

lemma endpoint_ok_user:
  assumes "endpoint_ok accepts e" and "api accepts (shared e) t"
  shows "endpoint_ok accepts (e\<lparr>shared := t\<rparr>)"
  using assms api_frame [OF assms(2)] conn_ok_api [OF assms(2), of 0]
  by (simp add: endpoint_ok_def running_def jobs_ok_cong [of "e\<lparr>shared := t\<rparr>" e])

lemma endpoint_ok_transmitted:
  "endpoint_ok accepts e \<Longrightarrow> endpoint_ok accepts (transmitted r e)"
  using conn_ok_transmitted [of 0 e r]
  by (simp add: endpoint_ok_def running_def) (simp add: transmitted_def)

lemma conn_ok_outbox: "conn_ok k (s\<lparr>outbox := ms\<rparr>) = conn_ok k s"
  by (simp add: conn_ok_def refs_ok_def live_calls_def ctl_ok_def ids_ok_def)

lemma endpoint_ok_polled:
  assumes "endpoint_ok accepts e" and "running e" and i: "i < length (pool e)"
  shows "endpoint_ok accepts (polled accepts i e)"
proof -
  obtain out t where poll: "poll_job accepts (pool e ! i) (shared e) = (out, t)" by fastforce
  let ?e = "e\<lparr>shared := t, pool := take i (pool e) @ left out @ drop (Suc i) (pool e)\<rparr>"
  have jobs: "jobs_ok accepts e" and opn: "outbox_open (shared e)" using assms by (auto simp: endpoint_ok_def)
  have tame: "tame_job accepts (pool e ! i)"
    using jobs_okD(6) [OF jobs] i by (simp add: decent_def list_all_iff)
  have t: "conn_ok 0 t" "outbox_open t"
    using conn_ok_poll_job [OF tame, of 0 "shared e"] outbox_open_poll_job [OF tame, of "shared e"]
      assms(1) opn poll by (auto simp: endpoint_ok_def)
  have "length (left out) \<le> 1" by (cases out) auto
  then have len: "length (pool ?e) \<le> width ?e" using assms(1) i by (auto simp: endpoint_ok_def)
  show ?thesis
  proof (cases "out = Panic")
    case True
    then show ?thesis using poll t len by (simp add: polled_def endpoint_ok_def running_def)
  next
    case False
    note step = jobs_ok_poll [OF jobs i poll False]
    have ok: "endpoint_ok accepts ?e" using step(1) t len by (simp add: endpoint_ok_def)
    have cong: "endpoint_ok accepts (?e\<lparr>wire := ms\<rparr>)" for ms
      using ok by (simp add: endpoint_ok_def running_def jobs_ok_def)
    show ?thesis using poll ok cong endpoint_ok_transmitted [OF ok] False
      by (auto simp: polled_def Let_def split: outcome.split sum.split option.split)
  qed
qed

lemma endpoint_ok_step:
  assumes "server_contract accepts server" and "step accepts to_value server e e'"
    and "endpoint_ok accepts e"
  shows "endpoint_ok accepts e'"
  using assms(2,3)
proof (cases rule: step_cases)
  case (step_receive item)
  obtain js t where msg: "do_msg to_value server item (shared e) = (js, t)" by fastforce
  have fresh: "fresh js (shared e) t" "decent accepts js"
    by (rule server_contract.do_msg_fresh [OF assms(1) msg])+
  have "conn_ok 0 t"
    by (rule server_contract.do_msg_conn_ok [OF assms(1) msg]) (use assms(3) in \<open>simp add: endpoint_ok_def\<close>)
  moreover have "outbox_open t = outbox_open (shared e)"
    by (rule server_contract.do_msg_outbox_open [OF assms(1) msg])
  ultimately show ?thesis
    using step_receive msg assms(3) jobs_ok_receive [OF _ _ fresh]
    by (auto simp: receive_def endpoint_ok_def hungry_def running_def)
next
  case step_end
  then show ?thesis using assms(3) conn_ok_terminate [OF conn_ok_idmap_clear, of 0 "shared e"]
    by (auto simp: cleaner_def endpoint_ok_def running_def hungry_def idmap_clear_def jobs_ok_def balanced_def)
next
  case step_terminator
  then show ?thesis using assms(3)
    by (auto simp: endpoint_ok_def running_def hungry_def jobs_ok_def)
next
  case (step_pull j js)
  then show ?thesis using assms(3) jobs_ok_pull [of accepts e j js]
    by (auto simp: endpoint_ok_def running_def)
next
  case (step_poll i)
  then show ?thesis using assms(3) by (simp add: endpoint_ok_polled)
next
  case (step_forward m ms)
  then show ?thesis using assms(3)
    by (auto simp: endpoint_ok_def running_def conn_ok_outbox jobs_ok_def balanced_def)
qed (use assms(3) in \<open>auto intro: endpoint_ok_transmitted endpoint_ok_user\<close>)

end
