(* ===== verification/Connection.thy ===== *)
theory Connection
  imports Endpoint
begin

text \<open>
  What holds of a connection in every state it can reach (\<open>src/src/endpoint.rs\<close>): the
  reference counts and the terminator, the bound on parallel jobs, the freedom from deadlock of
  batches, what the end of a connection does to its callers.
\<close>

section \<open>Reachable states\<close>

lemma endpoint_ok_start:
  assumes "server_contract accepts (the_server b)"
  shows "endpoint_ok accepts (start b x)"
proof -
  let ?s = "initialized (the_server b) (client_new (start_conn x))"
  have init: "apis accepts (client_new (start_conn x)) ?s"
    by (rule server_contract.initialized_apis [OF assms])
  have "conn_ok 1 ?s"
    by (rule server_contract.initialized_conn_ok [OF assms conn_ok_start])
  then have "conn_ok 0 (drop_locals ?s)" using conn_ok_drop_locals [of 0 ?s] by simp
  moreover have "chans ?s = []" "outbox_open ?s"
    using apis_chans_outbox [OF init] by (simp_all add: start_conn_def)
  ultimately show ?thesis
    by (simp add: endpoint_ok_def start_def Let_def jobs_ok_def absent_def)
qed

lemma reachable_ok:
  assumes "server_contract accepts (the_server b)" and "reachable accepts to_value b x e"
  shows "endpoint_ok accepts e"
  using assms(2) unfolding reachable_def
proof (induction rule: rtranclp_induct)
  case base
  show ?case by (rule endpoint_ok_start [OF assms(1)])
next
  case (step e e')
  then show ?case by (intro endpoint_ok_step [OF assms(1) step.hyps(2)])
qed

lemma width_step: "step accepts to_value server e e' \<Longrightarrow> width e' = width e"
  by (cases rule: step_cases)
     (auto simp: receive_def cleaner_def transmitted_def polled_def Let_def
       split: prod.split outcome.split sum.split option.split)

lemma reachable_width: "reachable accepts to_value b x e \<Longrightarrow> width e = parallel_jobs b"
  unfolding reachable_def
proof (induction rule: rtranclp_induct)
  case base
  show ?case by (simp add: start_def Let_def)
qed (simp add: width_step)

section \<open>What a job waits for\<close>

text \<open>
  The futures that are the server's: those \<open>do_request\<close> and \<open>do_notification\<close> make of what a
  callback has returned, and what is left of them after a poll.
\<close>

inductive of_server ::
  "('v \<Rightarrow> 'x + value) \<Rightarrow> ('s, 'v) server \<Rightarrow> ('s conn, message option) future \<Rightarrow> bool"
  for to_value server where
  of_rpc:
    "rpc server (req_method req) (req_params req) s = (Some f, t) \<Longrightarrow>
     of_server to_value server (future_then (request_reply to_value req) f)"
| of_notify:
    "notify server (notif_method (n :: notification)) (notif_params n) s = (Some g, t) \<Longrightarrow>
     of_server to_value server (future_then (\<lambda>_. Some None) g)"
| of_polled:
    "of_server to_value server f \<Longrightarrow> poll f s = (Some (Inr g), t) \<Longrightarrow> of_server to_value server g"

text \<open>
  A job is held up by the server when it runs a future of the server that, polled now, yields
  nothing: it is not ready yet, or it panics.
\<close>

fun waits_for_server ::
  "('v \<Rightarrow> 'x + value) \<Rightarrow> ('s, 'v) server \<Rightarrow> 's conn \<Rightarrow> 's job \<Rightarrow> bool"
where
  "waits_for_server to_value server s (Work f) \<longleftrightarrow>
     of_server to_value server f \<and> (\<forall>m. fst (poll f s) \<noteq> Some (Inl m))"
| "waits_for_server to_value server s (Sent c j) \<longleftrightarrow> waits_for_server to_value server s j"
| "waits_for_server to_value server s _ \<longleftrightarrow> False"

text \<open>Every future that runs is ready or the server's.\<close>

primrec sourced :: "('v \<Rightarrow> 'x + value) \<Rightarrow> ('s, 'v) server \<Rightarrow> 's job \<Rightarrow> bool" where
  "sourced to_value server (Work f) \<longleftrightarrow> (\<exists>m. f = ready m) \<or> of_server to_value server f"
| "sourced to_value server (Sent c j) \<longleftrightarrow> sourced to_value server j"
| "sourced to_value server (Sending c m) \<longleftrightarrow> True"
| "sourced to_value server (Collect c ms) \<longleftrightarrow> True"

lemma list_all_sourced_Sent [simp]:
  "list_all (sourced to_value server) (map (Sent c) js) = list_all (sourced to_value server) js"
  by (simp add: list_all_iff)

lemma sourced_do_request: "sourced to_value server (fst (do_request to_value server req s))"
  by (auto simp: do_request_def intro: of_rpc split: prod.split option.split)

lemma sourced_do_notification: "sourced to_value server (fst (do_notification server n s))"
  by (auto simp: do_notification_def intro: of_notify split: prod.split option.split)

lemma do_msg_sourced_induct:
  "list_all (sourced to_value server) (fst (do_msg to_value server msg s))"
  "list_all (sourced to_value server) (fst (do_batch to_value server msgs s))"
  "list_all (sourced to_value server) (fst (do_subs to_value server c subs s))"
proof (induction to_value server msg s and to_value server msgs s and to_value server c subs s
    rule: do_msg_do_batch_do_subs.induct)
  case (1 to_value server msg s)
  show ?case
  proof (cases "stop s")
    case True
    then show ?thesis by (simp add: do_msg_stopped split: sum.split message.split)
  next
    case running: False
    show ?thesis
    proof (cases msg)
      case (Inr m)
      then show ?thesis
        using 1(1) [OF refl running Inr] running
          sourced_do_request [of to_value server _ s] sourced_do_notification [of to_value server _ s]
        by (cases m) (auto simp: do_msg_running)
    qed (auto simp: running do_msg_running)
  qed
next
  case (2 to_value server msgs s)
  obtain c s0 where new: "new_channel (length msgs) s = (c, s0)" by fastforce
  then show ?case using 2 [OF new [symmetric] refl]
    by (cases "do_subs to_value server c msgs s0") (simp add: do_batch.simps)
next
  case (4 to_value server c sub subs s)
  obtain js t where sub: "do_msg to_value server (Inr sub) s = (js, t)" by fastforce
  then show ?case using 4(1) 4(2) [OF sub [symmetric] refl]
    by (cases "do_subs to_value server c subs (sender_clones c (length js) t)") simp
qed simp

lemma sourced_poll_job:
  assumes "sourced to_value server j" and "poll_job accepts j s = (out, t)"
  shows "list_all (sourced to_value server) (left out)"
  using assms
proof (induction j arbitrary: out t)
  case (Work f)
  then show ?case
    by (auto intro: of_polled split: prod.splits option.splits sum.splits)
next
  case (Sent c j)
  obtain o' t' where inner: "poll_job accepts j s = (o', t')" by fastforce
  from Sent.IH [OF _ inner] Sent.prems inner show ?case
    by (auto simp: poll_sending_def Let_def split: outcome.splits sum.splits option.splits if_splits)
qed (auto simp: poll_sending_def poll_collect_def Let_def split: if_splits)

definition sourced_jobs :: "('v \<Rightarrow> 'x + value) \<Rightarrow> ('s, 'v) server \<Rightarrow> 's endpoint \<Rightarrow> bool" where
  "sourced_jobs to_value server e \<longleftrightarrow> list_all (sourced to_value server) (pool e @ backlog e)"

lemma sourced_step:
  assumes "step accepts to_value server e e'" and "sourced_jobs to_value server e"
  shows "sourced_jobs to_value server e'"
  using assms(1)
proof (cases rule: step_cases)
  case (step_receive item)
  then show ?thesis
    using assms(2) do_msg_sourced_induct(1) [of to_value server item "shared e"]
    by (cases "do_msg to_value server item (shared e)") (simp add: receive_def sourced_jobs_def)
next
  case (step_poll i)
  obtain out t where poll: "poll_job accepts (pool e ! i) (shared e) = (out, t)" by fastforce
  have "sourced to_value server (pool e ! i)"
    using assms(2) step_poll by (simp add: sourced_jobs_def list_all_iff)
  from sourced_poll_job [OF this poll] assms(2)
  have "list_all (sourced to_value server)
      ((take i (pool e) @ left out @ drop (Suc i) (pool e)) @ backlog e)"
    by (auto simp: sourced_jobs_def list_all_iff dest: in_set_takeD in_set_dropD)
  then show ?thesis using step_poll poll
    by (auto simp: polled_def sourced_jobs_def transmitted_def Let_def
        split: outcome.split sum.split option.split)
qed (use assms(2) in \<open>auto simp: sourced_jobs_def transmitted_def cleaner_def\<close>)

lemma sourced_reachable:
  "reachable accepts to_value b x e \<Longrightarrow> sourced_jobs to_value (the_server b) e"
  unfolding reachable_def
proof (induction rule: rtranclp_induct)
  case base
  show ?case by (simp add: sourced_jobs_def start_def Let_def)
qed (rule sourced_step)

fun waits_for_room :: "'s job \<Rightarrow> bool" where
  "waits_for_room (Sending c m) = True"
| "waits_for_room (Sent c j) = waits_for_room j"
| "waits_for_room _ = False"

text \<open>The documented rule of a bounded channel: it takes what it has room for.\<close>

definition roomy :: "room \<Rightarrow> bool" where
  "roomy accepts \<longleftrightarrow> (\<forall>c n. n < c \<longrightarrow> accepts c n)"

lemma poll_sending_roomy:
  assumes "roomy accepts" and "backed (Sending c m) s" and "poll_sending accepts c m s = (out, t)"
  shows "out = Finished (Inr None)"
proof -
  have c: "c < length (chans s)" by (rule backed_range [OF assms(2)]) simp
  note b = backedD [OF assms(2) c]
  from b(1) have "0 < chan_senders (chans s ! c)" by simp
  then have "chan_open (chans s ! c)" using b(4) by simp
  moreover have "length (chan_queue (chans s ! c)) < capacity (chans s ! c)" using b(2) by simp
  then have "accepts (capacity (chans s ! c)) (length (chan_queue (chans s ! c)))"
    using assms(1) by (simp add: roomy_def)
  ultimately show ?thesis using assms(3) by (auto simp: poll_sending_def Let_def)
qed

text \<open>A send is never refused, so no job is left waiting for room.\<close>

lemma never_waits_for_room:
  assumes "roomy accepts" and "backed j s" and "nested j" and "tame_job accepts j"
    and "poll_job accepts j s = (Again k, t)"
  shows "\<not> waits_for_room k"
  using assms(2-)
proof (induction j arbitrary: k t)
  case (Work f)
  then show ?case by (auto split: prod.splits option.splits sum.splits)
next
  case (Sent c j)
  obtain o' t' where inner: "poll_job accepts j s = (o', t')" by fastforce
  have j: "backed j s" using backed_Sent [OF Sent.prems(1)] by blast
  show ?case
  proof (cases o')
    case (Again i)
    with inner Sent j show ?thesis by auto
  next
    case (Finished r)
    then have "step_ok accepts j s o' t'"
      using j inner Sent.prems by (intro poll_job_ok) auto
    moreover from this have "yields j" if "r = Inr (Some m)" for m
      using that Finished by (auto simp: step_ok_def)
    ultimately have "r \<noteq> Inr (Some m)" for m
      using poll_sending_roomy [OF assms(1) backed_after [OF Sent.prems(1), of accepts o' t' m]]
        Sent.prems(4) inner Finished by (auto split: prod.splits)
    then show ?thesis using Sent.prems(4) inner Finished by (auto split: sum.splits option.splits)
  next
    case Panic
    with inner Sent.prems(4) show ?thesis by simp
  qed
next
  case (Sending c m)
  then show ?case using poll_sending_roomy [OF assms(1) Sending.prems(1)] by auto
next
  case (Collect c acc)
  then show ?case by (auto simp: poll_collect_def Let_def split: if_splits)
qed

text \<open>A job that waits for nothing is through at its next poll.\<close>

lemma finishes_Sent:
  assumes "roomy accepts" and "backed (Sent c j) s" and "nested (Sent c j)" and "tame_job accepts j"
    and "poll_job accepts j s = (Finished (Inr r), t)"
  shows "\<exists>q u. poll_job accepts (Sent c j) s = (Finished (Inr q), u)"
proof (cases r)
  case None
  then show ?thesis using assms(5) by simp
next
  case (Some m)
  have ok: "step_ok accepts j s (Finished (Inr r)) t"
    using backed_Sent(1) [OF assms(2)] assms(3-5) by (intro poll_job_ok) auto
  then have "yields j" using Some by (auto simp: step_ok_def)
  then have "backed (Sending c m) t" by (intro backed_after [OF assms(2) ok]) auto
  then show ?thesis
    using poll_sending_roomy [OF assms(1), of c m t] assms(5) Some
    by (cases "poll_sending accepts c m t") auto
qed

lemma finishes:
  assumes "roomy accepts" and "backed j s" and "nested j" and "tame_job accepts j"
    and "sourced to_value server j" and "\<not> waits_for_server to_value server s j" and "\<forall>d. 0 < collects d j \<longrightarrow> chan_senders (chans s ! d) = 0"
  shows "\<exists>r t. poll_job accepts j s = (Finished (Inr r), t)"
  using assms(2-)
proof (induction j)
  case (Work f)
  then obtain m where "fst (poll f s) = Some (Inl m)" by auto
  then show ?case by (cases "poll f s") simp
next
  case (Sent c j)
  have "backed j s" using backed_Sent [OF Sent.prems(1)] by blast
  with Sent obtain r t where "poll_job accepts j s = (Finished (Inr r), t)" by auto
  then show ?case using Sent.prems by (intro finishes_Sent [OF assms(1)]) auto
next
  case (Sending c m)
  then show ?case
    using poll_sending_roomy [OF assms(1) Sending.prems(1)]
    by (cases "poll_sending accepts c m s") auto
next
  case (Collect c acc)
  then show ?case by (simp add: poll_collect_def Let_def)
qed

lemma collects_unique: "0 < collects d j \<Longrightarrow> 0 < collects e j \<Longrightarrow> d = e"
  by (induction j) (auto split: if_splits)

lemma nested_holders: "nested j \<Longrightarrow> 0 < holders d j \<Longrightarrow> 0 < collects e j \<Longrightarrow> d < e"
  by (induction j) (auto split: if_splits)

text \<open>
  The job that collects the newest channel of the pool: what feeds that channel would itself collect
  a newer one, so nothing feeds it any more.
\<close>

lemma newest_channel_fed_by_none:
  assumes ok: "jobs_ok accepts e"
    and collecting: "\<forall>j \<in> set (pool e). \<exists>d. 0 < collects d j" and "pool e \<noteq> []"
  shows "\<exists>i < length (pool e). \<forall>d. 0 < collects d (pool e ! i) \<longrightarrow> chan_senders (chans (shared e) ! d) = 0"
proof -
  let ?D = "{d. 0 < total (collects d) (pool e)}"
  have range: "d < length (chans (shared e))" if "d \<in> ?D" for d
    using jobs_okD(2) [OF ok, of d] that by (rule_tac ccontr) (auto simp: absent_def)
  then have fin: "finite ?D" by (intro finite_subset [of ?D "{..<length (chans (shared e))}"]) auto
  have member: "d \<in> ?D \<longleftrightarrow> (\<exists>j \<in> set (pool e). 0 < collects d j)" for d
    using total_zero [of "collects d" "pool e"] by auto
  obtain j0 d0 where "j0 \<in> set (pool e)" "0 < collects d0 j0" using assms(2,3) by (cases "pool e") auto
  then have "?D \<noteq> {}" using member by blast
  with fin have max: "Max ?D \<in> ?D" "\<And>d. d \<in> ?D \<Longrightarrow> d \<le> Max ?D"
    by (rule Max_in) (rule Max_ge [OF fin])
  let ?d = "Max ?D"
  from max(1) obtain i where i: "i < length (pool e)" "0 < collects ?d (pool e ! i)"
    using member by (metis in_set_conv_nth)
  have "holders ?d j = 0" if j: "j \<in> set (pool e)" for j
  proof (rule ccontr)
    assume "holders ?d j \<noteq> 0"
    moreover obtain f where f: "0 < collects f j" using collecting j by blast
    moreover have "nested j" using jobs_okD(5) [OF ok] j by (simp add: list_all_iff)
    ultimately have "?d < f" using nested_holders by blast
    moreover have "f \<le> ?d" using max(2) member f j by blast
    ultimately show False by simp
  qed
  then have "total (holders ?d) (pool e) = 0" by (simp add: total_zero)
  moreover have "total (holders ?d) (backlog e) = 0" using jobs_okD(3) [OF ok] max(1) by simp
  moreover have "balanced (pool e @ backlog e) (shared e) ?d"
    by (rule jobs_okD(1) [OF ok range [OF max(1)]])
  ultimately have "chan_senders (chans (shared e) ! ?d) = 0" by (simp add: balanced_def Let_def)
  then show ?thesis using i collects_unique by blast
qed

lemma progress:
  assumes "roomy accepts" and ok: "jobs_ok accepts e" and "pool e \<noteq> []"
    and sourced: "sourced_jobs to_value server e"
    and servers: "\<forall>j \<in> set (pool e). \<not> waits_for_server to_value server (shared e) j"
  shows "\<exists>i < length (pool e). \<exists>r t. poll_job accepts (pool e ! i) (shared e) = (Finished (Inr r), t)"
proof -
  have "\<exists>i < length (pool e). \<forall>d. 0 < collects d (pool e ! i) \<longrightarrow> chan_senders (chans (shared e) ! d) = 0"
  proof (cases "\<forall>j \<in> set (pool e). \<exists>d. 0 < collects d j")
    case True
    then show ?thesis by (rule newest_channel_fed_by_none [OF ok _ assms(3)])
  next
    case False
    then obtain i where "i < length (pool e)" "\<forall>d. collects d (pool e ! i) = 0"
      by (metis gr0I in_set_conv_nth)
    then show ?thesis by auto
  qed
  then obtain i where i: "i < length (pool e)"
    "\<forall>d. 0 < collects d (pool e ! i) \<longrightarrow> chan_senders (chans (shared e) ! d) = 0" by blast
  moreover have "nested (pool e ! i)" "tame_job accepts (pool e ! i)"
    using jobs_okD(5,6) [OF ok] i(1) by (simp_all add: list_all_iff decent_def)
  ultimately have "\<exists>r t. poll_job accepts (pool e ! i) (shared e) = (Finished (Inr r), t)"
    using servers sourced i
    by (intro finishes [OF assms(1) jobs_ok_backed [OF ok i(1)], of to_value server])
       (auto simp: sourced_jobs_def list_all_iff)
  then show ?thesis using i(1) by blast
qed

section \<open>A small server\<close>

text \<open>For the witnesses: it knows one method, which it answers at once.\<close>

definition hello_server :: "(unit, value) server" where
  "hello_server =
     \<lparr>rpc = (\<lambda>m p s. if m = ''hello'' then (Some (ready (Inr (String ''world''))), s) else (None, s)),
      notify = default_notification, initialized = default_initialized\<rparr>"

definition hello :: "(unit, unit, value) builder" where
  "hello = endpoint_new () hello_server"

definition exact :: room where
  "exact c n \<longleftrightarrow> n < c"

abbreviation as_is :: "value \<Rightarrow> string + value" where
  "as_is \<equiv> Inr"

interpretation hello: server_contract exact hello_server
  by unfold_locales (auto simp: hello_server_def default_notification_def default_initialized_def
      split: if_splits)

lemma roomy_exact: "roomy exact"
  by (simp add: roomy_def exact_def)

lemma the_server_hello [simp]: "the_server hello = hello_server"
  by (simp add: hello_def endpoint_new_def)

lemma hello_contract: "server_contract exact (the_server hello)"
  using hello.server_contract_axioms by simp

definition idle :: "unit endpoint" where
  "idle = start hello ()"

definition idle_conn :: "unit conn" where
  "idle_conn =
     \<lparr>stop = False, terminator = True, killer = True, ctl_sender = True, idmap = Map.empty,
      term_refs = 2, term_fired = False, kill_fired = False, senders = 2, outbox = [],
      outbox_open = True, clients = 1, calls = [], chans = [], srv = ()\<rparr>"

lemma idle_fields [simp]:
  "shared idle = idle_conn" "reading idle" "backlog idle = []" "pool idle = []" "width idle = 1"
  "wire idle = []" "finish idle = None" "\<not> crashed idle"
  by (simp_all add: idle_def idle_conn_def start_def hello_def endpoint_new_def hello_server_def
      default_initialized_def client_new_def start_conn_def rc_clone_def drop_locals_def rc_drop_def)

lemma idle_conn_fields [simp]:
  "\<not> stop idle_conn" "terminator idle_conn" "ctl_sender idle_conn" "idmap idle_conn = Map.empty"
  "clients idle_conn = 1" "calls idle_conn = []" "chans idle_conn = []" "outbox idle_conn = []"
  "outbox_open idle_conn"
  by (simp_all add: idle_conn_def)

lemma reachable_start: "reachable accepts to_value b x (start b x)"
  by (simp add: reachable_def)

lemma idle_reachable: "reachable exact as_is hello () idle"
  by (simp add: idle_def reachable_start)

lemma reachable_step:
  "reachable accepts to_value b x e \<Longrightarrow> step accepts to_value (the_server b) e e' \<Longrightarrow>
   reachable accepts to_value b x e'"
  by (simp add: reachable_def)

section \<open>Properties\<close>

text \<open>
  C11. The connection is asked to end exactly when nothing needs it any more: in every reachable
  state the terminator has fired if and only if the server has been terminated, no client handle is
  left, and no call waits for its answer.
\<close>

theorem terminator_fires_exactly:
  assumes "server_contract accepts (the_server b)" and "reachable accepts to_value b x e"
  shows "term_fired (shared e) \<longleftrightarrow>
    \<not> terminator (shared e) \<and> clients (shared e) = 0 \<and> (\<forall>c \<in> set (calls (shared e)). \<not> live c)"
proof -
  have "refs_ok 0 (shared e)" using reachable_ok [OF assms] by (simp add: endpoint_ok_def conn_ok_def)
  moreover have "live_calls (shared e) = 0 \<longleftrightarrow> (\<forall>c \<in> set (calls (shared e)). \<not> live c)"
    by (simp add: live_calls_def filter_empty_conv)
  ultimately show ?thesis by (auto simp: refs_ok_def)
qed

theorem terminator_fires_exactly_witness: "\<not> term_fired (shared idle)"
  using terminator_fires_exactly [OF hello_contract idle_reachable] by simp

text \<open>
  \<open>ServerCtl::client\<close> refuses exactly on a connection that has been stopped (by
  \<open>terminate\<close>, \<open>kill\<close> or the end of input), and then nothing has changed; otherwise the new
  client is one more handle that keeps the connection.
\<close>

lemma client_iff_not_stopped:
  assumes "server_contract accepts (the_server b)" and "reachable accepts to_value b x e"
  shows "client (shared e) =
    (if stop (shared e) then (Inl AlreadyTerminated, shared e)
     else (Inr (), (shared e)\<lparr>senders := senders (shared e) + 1, clients := clients (shared e) + 1,
             term_refs := term_refs (shared e) + 1\<rparr>))"
proof -
  have "ctl_ok (shared e)" using reachable_ok [OF assms] by (simp add: endpoint_ok_def conn_ok_def)
  then show ?thesis by (auto simp: client_def ctl_ok_def client_new_def rc_clone_def)
qed

text \<open>
  Never more jobs run at once than \<open>Endpoint::parallel\<close> allows, one by default.
\<close>

lemma parallel_bound:
  assumes "server_contract accepts (the_server b)" and "reachable accepts to_value b x e"
  shows "length (pool e) \<le> parallel_jobs b \<and> parallel_jobs (endpoint_new conn server) = 1"
  using reachable_ok [OF assms] reachable_width [OF assms(2)]
  by (simp add: endpoint_ok_def endpoint_new_def)

text \<open>
  C20. No send inside the endpoint ever fails or waits: in every reachable state of a running
  connection, polling a job gives no I/O error, so a connection ends with an error only because of
  its transport; and a reply always finds room in the channel of its batch, which is what
  \<open>do_batch\<close> makes it large enough for.
\<close>

theorem sends_succeed:
  assumes "server_contract accepts (the_server b)" and "roomy accepts"
    and "reachable accepts to_value b x e" and "running e" and "i < length (pool e)"
    and "poll_job accepts (pool e ! i) (shared e) = (out, t)"
  shows "out \<noteq> Finished (Inl err) \<and> \<not> (\<exists>k. out = Again k \<and> waits_for_room k)"
proof -
  have jobs: "jobs_ok accepts e"
    using reachable_ok [OF assms(1,3)] assms(4) by (simp add: endpoint_ok_def)
  have j: "nested (pool e ! i)" "tame_job accepts (pool e ! i)"
    using jobs_okD(5,6) [OF jobs] assms(5) by (simp_all add: list_all_iff decent_def)
  have "out \<noteq> Finished (Inl err)"
    using jobs_ok_poll(2) [OF jobs assms(5,6)] by (cases "out = Panic") (auto simp: step_ok_def)
  moreover have "\<not> waits_for_room k" if "out = Again k" for k
    using never_waits_for_room [OF assms(2) jobs_ok_backed [OF jobs assms(5)] j] assms(6) that by blast
  ultimately show ?thesis by blast
qed

text \<open>A reachable state with a job: a batch of one bad entry has arrived and its first job runs.\<close>

definition bad_jobs :: "unit job list" where
  "bad_jobs = [Sent 0 (Work (ready (Some (broken_reply (Unmatched Null))))), Collect 0 []]"

definition bad_conn :: "unit conn" where
  "bad_conn =
     idle_conn\<lparr>chans := [\<lparr>capacity = 1, chan_queue = [], chan_senders = 1, chan_open = True\<rparr>]\<rparr>"

definition bad_batch :: "unit endpoint" where
  "bad_batch = idle\<lparr>shared := bad_conn, backlog := [bad_jobs ! 1], pool := [bad_jobs ! 0]\<rparr>"

lemma bad_batch_received:
  "receive as_is hello_server (Inr (Batch [UnmatchedSub Null])) idle =
     idle\<lparr>shared := bad_conn, backlog := bad_jobs\<rparr>"
  by (simp add: receive_def do_msg_running do_batch.simps new_channel_def sender_clones_def
      set_chan_def bad_conn_def bad_jobs_def)

lemma bad_batch_reachable: "reachable exact as_is hello () bad_batch"
proof -
  let ?e = "receive as_is hello_server (Inr (Batch [UnmatchedSub Null])) idle"
  have "step exact as_is hello_server idle ?e"
    by (rule step_receive) (simp add: hungry_def running_def)
  then have "reachable exact as_is hello () ?e"
    using reachable_step [OF idle_reachable, of ?e] by simp
  moreover have "step exact as_is hello_server ?e (?e\<lparr>backlog := [bad_jobs ! 1], pool := pool ?e @ [bad_jobs ! 0]\<rparr>)"
    by (rule step_pull) (simp_all add: bad_batch_received running_def bad_jobs_def)
  then have "step exact as_is hello_server ?e bad_batch"
    by (simp add: bad_batch_received bad_batch_def)
  ultimately show ?thesis using reachable_step [of exact as_is hello "()" ?e bad_batch] by simp
qed

lemma bad_batch_fields:
  "running bad_batch"
  "pool bad_batch = [Sent 0 (Work (ready (Some (broken_reply (Unmatched Null)))))]"
  "backlog bad_batch = [Collect 0 []]" "width bad_batch = 1"
  by (simp_all add: bad_batch_def bad_jobs_def running_def)

theorem sends_succeed_witness:
  "fst (poll_job exact (pool bad_batch ! 0) (shared bad_batch)) \<noteq> Finished (Inl (OtherError []))"
  using sends_succeed [OF hello_contract roomy_exact bad_batch_reachable bad_batch_fields(1),
      of 0 "fst (poll_job exact (pool bad_batch ! 0) (shared bad_batch))"
        "snd (poll_job exact (pool bad_batch ! 0) (shared bad_batch))" "OtherError []"]
  by (simp add: bad_batch_fields(2))

lemma polled_finished:
  assumes "poll_job accepts (pool e ! i) (shared e) = (Finished (Inr r), t)" and "running e"
    and "i < length (pool e)"
  shows "running (polled accepts i e)" and "backlog (polled accepts i e) = backlog e"
    and "length (pool (polled accepts i e)) < length (pool e)"
  using assms by (auto simp: polled_def running_def Let_def split: option.split)

text \<open>
  C8. Batches cannot block the connection, whatever \<open>parallel\<close> is (one suffices) and however
  they are nested: from every reachable state of a running connection the endpoint can, by itself,
  work off the jobs at hand until no job that runs finishes at its next poll and no other can be
  pulled; and then no job is left, or one of those running holds a future of the server that is not
  ready, or panics, when it is polled in that state.  What the library answers itself is never
  waited for, and neither is a collecting job.
\<close>

theorem work_gets_done:
  assumes "server_contract accepts (the_server b)" and "roomy accepts"
    and "reachable accepts to_value b x e" and "running e" and "0 < parallel_jobs b"
  shows "\<exists>e'. (event accepts to_value (the_server b) Quiet)\<^sup>*\<^sup>* e e' \<and> running e' \<and>
    (\<forall>i < length (pool e'). \<forall>r t. poll_job accepts (pool e' ! i) (shared e') \<noteq> (Finished r, t)) \<and>
    (backlog e' = [] \<or> length (pool e') = parallel_jobs b) \<and>
    (pool e' = [] \<and> backlog e' = [] \<or>
     (\<exists>j \<in> set (pool e'). waits_for_server to_value (the_server b) (shared e') j))"
  using assms(3,4)
proof (induction "2 * length (backlog e) + length (pool e)" arbitrary: e rule: less_induct)
  case less
  let ?quiet = "event accepts to_value (the_server b) Quiet"
  have jobs: "jobs_ok accepts e" and len: "length (pool e) \<le> width e" "width e = parallel_jobs b"
    using reachable_ok [OF assms(1) less.prems(1)] less.prems(2) reachable_width [OF less.prems(1)]
    by (simp_all add: endpoint_ok_def)
  have closing: ?case if st: "?quiet e e'" and "running e'"
    and "2 * length (backlog e') + length (pool e') < 2 * length (backlog e) + length (pool e)" for e'
  proof -
    have "reachable accepts to_value b x e'" by (rule reachable_step [OF less.prems(1) event_step [OF st]])
    from less.hyps [OF that(3) this that(2)] show ?thesis
      by (meson st converse_rtranclp_into_rtranclp)
  qed
  consider (pull) j js where "backlog e = j # js" "length (pool e) < width e"
    | (poll) i r t where "i < length (pool e)" "poll_job accepts (pool e ! i) (shared e) = (Finished r, t)"
    | (rest) "backlog e = [] \<or> length (pool e) = width e"
        "\<forall>i < length (pool e). \<forall>r t. poll_job accepts (pool e ! i) (shared e) \<noteq> (Finished r, t)"
    using len(1) by (cases "backlog e") force+
  then show ?case
  proof cases
    case (pull j js)
    from event_pull [OF less.prems(2) pull]
    show ?thesis by (rule closing) (use pull less.prems(2) in \<open>simp_all add: running_def\<close>)
  next
    case (poll i r t)
    have "step_ok accepts (pool e ! i) (shared e) (Finished r) t"
      by (rule jobs_ok_poll(2) [OF jobs poll]) simp
    then obtain q where "r = Inr q" by (cases r) (auto simp: step_ok_def)
    with polled_finished [OF _ less.prems(2) poll(1)] poll(2) event_poll [OF less.prems(2) poll(1)]
    show ?thesis by (intro closing) auto
  next
    case rest
    have "\<exists>j \<in> set (pool e). waits_for_server to_value (the_server b) (shared e) j" if "pool e \<noteq> []"
      using progress [OF assms(2) jobs that sourced_reachable [OF less.prems(1)]] rest(2) by blast
    moreover have "backlog e = []" if "pool e = []" using rest(1) that len(2) assms(5) by auto
    ultimately show ?thesis using rest len(2) less.prems(2)
      by (intro exI [of _ e]) (cases "pool e = []"; simp)
  qed
qed

text \<open>The small server is never waited for, so the batch is done in the end.\<close>

lemma hello_of_server: "of_server as_is hello_server f \<Longrightarrow> \<exists>m. poll f s = (Some (Inl m), s)"
proof (induction arbitrary: s rule: of_server.induct)
  case (of_polled f s' g t)
  then show ?case by (metis Inl_Inr_False option.inject prod.inject)
qed (auto simp: hello_server_def default_notification_def poll_future_then request_reply_def ok_of_def
       split: if_splits)

lemma hello_not_waited_for: "\<not> waits_for_server as_is hello_server s j"
proof (induction j)
  case (Work f)
  then show ?case using hello_of_server [of f s] by auto
qed auto

theorem work_gets_done_witness:
  "\<exists>e'. (event exact as_is hello_server Quiet)\<^sup>*\<^sup>* bad_batch e' \<and> running e' \<and> pool e' = [] \<and> backlog e' = []"
  using work_gets_done [OF hello_contract roomy_exact bad_batch_reachable bad_batch_fields(1)]
    hello_not_waited_for
  by (simp add: hello_def endpoint_new_def) blast

text \<open>
  C9. The end of a connection leaves no caller behind: in the state in which a reachable running
  connection finishes, for whatever reason, no call waits any longer, the map of calls is empty, and
  polling a call that has not been answered reports the lost connection.
\<close>

theorem end_releases_callers:
  assumes "server_contract accepts (the_server b)" and "reachable accepts to_value b x e"
    and "running e" and "step accepts to_value (the_server b) e e'" and "finish e' = Some r"
  shows "idmap (shared e') = Map.empty \<and>
    (\<forall>i < length (calls (shared e')).
       slot (calls (shared e') ! i) \<noteq> Waiting \<and>
       (slot (calls (shared e') ! i) = Cancelled \<longrightarrow>
          fst (answer_poll None i (shared e')) = Ready (Inl (OtherError ''Lost connection''))))"
proof -
  have ok: "endpoint_ok accepts e" by (rule reachable_ok [OF assms(1,2)])
  have cleared: "ids_ok t \<Longrightarrow> shared e' = (idmap_clear t)\<lparr>outbox := [], outbox_open := False\<rparr> \<Longrightarrow> ?thesis"
    for t
    by (auto simp: idmap_clear_def nth_cancel_owned ids_ok_def answer_poll_def received_poll_def Let_def
        split: if_splits)
  have e: "ids_ok (shared e)" using ok by (simp add: endpoint_ok_def conn_ok_def)
  from assms(4) show ?thesis
  proof (cases rule: step_cases)
    case (step_poll i)
    obtain out t where poll: "poll_job accepts (pool e ! i) (shared e) = (out, t)" by fastforce
    have jobs: "jobs_ok accepts e" using ok assms(3) by (simp add: endpoint_ok_def)
    have "out \<noteq> Finished (Inl err)" for err
      using jobs_ok_poll(2) [OF jobs step_poll(3) poll] by (cases "out = Panic") (auto simp: step_ok_def)
    with step_poll poll assms(3,5) show ?thesis
      by (auto simp: polled_def running_def Let_def split: outcome.splits sum.splits option.splits)
  qed (use assms(3,5) cleared [OF e] in
      \<open>auto simp: transmitted_def receive_def cleaner_def running_def hungry_def split: prod.splits\<close>)
qed

theorem end_releases_callers_witness:
  "idmap (shared (transmitted (Inl (TransportError ''reset'')) idle)) = Map.empty"
proof -
  have "step exact as_is (the_server hello) idle (transmitted (Inl (TransportError ''reset'')) idle)"
    by (rule step_write_error) (simp add: running_def)
  from end_releases_callers [OF hello_contract idle_reachable _ this]
  show ?thesis by (simp add: running_def transmitted_def)
qed

lemma stop_apis: "apis accepts s t \<Longrightarrow> stop s \<Longrightarrow> stop t"
  by (induction rule: rtranclp_induct) (auto dest: api_frame)

lemma stop_poll_job: "tame_job accepts j \<Longrightarrow> stop s \<Longrightarrow> stop (snd (poll_job accepts j s))"
proof (induction j)
  case (Work f)
  obtain r t where p: "poll f s = (r, t)" by fastforce
  with Work have "stop t" by (auto dest: tame_poll intro: stop_apis)
  with p show ?case by (auto split: option.split sum.split)
next
  case (Sent c j)
  obtain o' t where p: "poll_job accepts j s = (o', t)" by fastforce
  with Sent have "stop t" by simp
  with p show ?case
    by (auto simp: poll_sending_def sender_drop_def set_chan_def Let_def
        split: outcome.split sum.split option.split)
qed (auto simp: poll_sending_def poll_collect_def sender_drop_def set_chan_def Let_def)

lemma stop_do_response [simp]: "stop (do_response r s) = stop s"
  by (simp add: do_response_def split: option.split)

lemma length_left: "length (left out) \<le> 1"
  by (cases out) auto

definition unfinished :: "'s endpoint \<Rightarrow> nat" where
  "unfinished e = length (pool e) + length (backlog e)"

lemma stopped_step:
  assumes ok: "endpoint_ok accepts e" and "stop (shared e)"
    and step: "step accepts to_value server e e'"
  shows "stop (shared e') \<and> unfinished e' \<le> unfinished e"
  using step
proof (cases rule: step_cases)
  case (step_receive item)
  then show ?thesis using assms(2)
    by (auto simp: receive_def do_msg_stopped unfinished_def hungry_def split: sum.split message.split)
next
  case (step_poll i)
  obtain out t where poll: "poll_job accepts (pool e ! i) (shared e) = (out, t)" by fastforce
  have "tame_job accepts (pool e ! i)"
    using ok step_poll jobs_okD(6) [of accepts e]
    by (simp add: endpoint_ok_def decent_def list_all_iff)
  then have "stop t" using stop_poll_job [of accepts "pool e ! i" "shared e"] assms(2) poll by simp
  moreover have "length (take i (pool e) @ left out @ drop (Suc i) (pool e)) \<le> length (pool e)"
    using step_poll length_left [of out] by simp
  ultimately show ?thesis using step_poll poll
    by (auto simp: polled_def unfinished_def transmitted_def idmap_clear_def Let_def
        split: outcome.split sum.split option.split)
next
  case (step_user t)
  then show ?thesis using assms(2) api_frame [of accepts "shared e" t] by (simp add: unfinished_def)
qed (use assms(2) in \<open>auto simp: unfinished_def transmitted_def cleaner_def idmap_clear_def\<close>)

text \<open>
  C17. Stopping is final and takes effect at once: on a stopped connection no step adds a job, so
  no request, notification or batch that arrives later reaches the server or is answered; and
  nothing makes the connection run again.
\<close>

theorem stopped_stays_silent:
  assumes "server_contract accepts (the_server b)" and "reachable accepts to_value b x e"
    and "stop (shared e)" and "(step accepts to_value (the_server b))\<^sup>*\<^sup>* e e'"
  shows "stop (shared e') \<and> length (pool e') + length (backlog e') \<le> length (pool e) + length (backlog e)"
proof -
  have "endpoint_ok accepts e' \<and> stop (shared e') \<and> unfinished e' \<le> unfinished e"
    using assms(4)
  proof (induction rule: rtranclp_induct)
    case base
    show ?case using reachable_ok [OF assms(1,2)] assms(3) by simp
  next
    case (step y z)
    then show ?case using stopped_step [of accepts y to_value "the_server b" z]
        endpoint_ok_step [OF assms(1) step.hyps(2)] by auto
  qed
  then show ?thesis by (simp add: unfinished_def)
qed

definition stopped :: "unit endpoint" where
  "stopped = idle\<lparr>shared := terminate idle_conn\<rparr>"

lemma stopped_reachable: "reachable exact as_is hello () stopped"
proof -
  have "step exact as_is hello_server idle stopped"
    unfolding stopped_def using step_user [OF api_terminate, of idle exact] by simp
  then show ?thesis using reachable_step [OF idle_reachable, of stopped] by simp
qed

theorem stopped_stays_silent_witness:
  "stop (shared (receive as_is hello_server (Inl (SyntaxError ''x'')) stopped))"
proof -
  have "hungry stopped" by (simp add: stopped_def hungry_def running_def)
  then have "step exact as_is (the_server hello) stopped
      (receive as_is hello_server (Inl (SyntaxError ''x'')) stopped)"
    using step_receive [of stopped exact as_is hello_server] by simp
  from stopped_stays_silent [OF hello_contract stopped_reachable _
      r_into_rtranclp [of "step exact as_is (the_server hello)", OF this]]
  show ?thesis by (simp add: stopped_def)
qed

text \<open>
  A client-only endpoint answers nothing at all: its server terminates when it is initialized,
  and in every reachable state it is stopped and has no job.
\<close>

lemma client_only_silent:
  assumes "reachable accepts to_value (client_only conn) x e"
  shows "stop (shared e) \<and> pool e = [] \<and> backlog e = []"
proof -
  have b: "server_contract accepts (the_server (client_only conn))"
    by (simp add: client_only_def endpoint_new_def empty.server_contract_axioms)
  have "stop (shared (start (client_only conn) x))"
    by (simp add: start_def client_only_def endpoint_new_def empty_server_def)
  from stopped_stays_silent [OF b reachable_start this] assms
  show ?thesis by (simp add: reachable_def start_def Let_def)
qed


text \<open>
  \<open>kill\<close> ends a running connection with the next step and without an error, whatever jobs
  run, and nothing more is sent.
\<close>

lemma kill_ends:
  assumes "server_contract accepts (the_server b)" and "reachable accepts to_value b x e"
    and "running e"
  shows "\<exists>e'. step accepts to_value (the_server b) (e\<lparr>shared := kill (shared e)\<rparr>) e' \<and>
    finish e' = Some (Inr ()) \<and> wire e' = wire e \<and> pool e' = []"
proof -
  let ?e = "e\<lparr>shared := kill (shared e)\<rparr>"
  have "ctl_ok (shared e)" using reachable_ok [OF assms(1,2)] by (simp add: endpoint_ok_def conn_ok_def)
  then have "kill_fired (shared ?e)" by (auto simp: ctl_ok_def)
  then have "step accepts to_value (the_server b) ?e (transmitted (Inr ()) ?e)"
    using assms(3) by (intro step_kill) (simp_all add: running_def)
  then show ?thesis by (intro exI [of _ "transmitted (Inr ()) ?e"]) (simp add: transmitted_def)
qed

definition dropped :: "unit endpoint" where
  "dropped = idle\<lparr>shared := client_drop (terminate idle_conn)\<rparr>"

lemma dropped_reachable: "reachable exact as_is hello () dropped"
proof -
  have "api exact (shared stopped) (client_drop (terminate idle_conn))"
    using api_drop [of "terminate idle_conn" exact] by (simp add: stopped_def)
  from step_user [OF this] have "step exact as_is hello_server stopped dropped"
    by (simp add: dropped_def stopped_def)
  then show ?thesis using reachable_step [OF stopped_reachable, of dropped] by simp
qed


text \<open>What has been sent, and what may still be.\<close>

definition owed :: "'s endpoint \<Rightarrow> nat" where
  "owed e = length (wire e) + length (filter yields (pool e @ backlog e))"

lemma yields_replace:
  assumes "i < length js"
  shows "length (filter yields (take i js @ ks @ drop (Suc i) js)) + (if yields (js ! i) then 1 else 0) =
    length (filter yields js) + length (filter yields ks)"
proof -
  have "filter yields js = filter yields (take i js) @ filter yields (js ! i # drop (Suc i) js)"
    using id_take_nth_drop [OF assms] by (metis filter_append)
  then show ?thesis by simp
qed

lemma owed_polled:
  assumes "jobs_ok accepts e" and i: "i < length (pool e)"
  shows "owed (polled accepts i e) \<le> owed e"
proof -
  obtain out t where poll: "poll_job accepts (pool e ! i) (shared e) = (out, t)" by fastforce
  note count = yields_replace [OF i, of "left out"]
  show ?thesis
  proof (cases "out = Panic")
    case True
    then show ?thesis using poll count by (simp add: polled_def owed_def)
  next
    case False
    have ok: "step_ok accepts (pool e ! i) (shared e) out t" by (rule jobs_ok_poll(2) [OF assms poll False])
    then have "out \<noteq> Finished (Inl err)" for err by (simp add: step_ok_def)
    moreover have "\<not> yields (pool e ! i) \<Longrightarrow> filter yields (left out) = [] \<and> (\<forall>m. out \<noteq> Finished (Inr (Some m)))"
      using ok by (simp add: step_ok_def)
    moreover have "length (filter yields (left out)) \<le> 1" by (cases out) auto
    ultimately show ?thesis using poll count False
      by (cases "yields (pool e ! i)"; cases out)
         (auto simp: polled_def owed_def Let_def split: sum.splits option.splits if_splits)
  qed
qed

text \<open>
  At most one message goes out for each item that comes in, the messages of the clients aside:
  of what has been sent and what the jobs may still send together, a step adds to it only by
  receiving an item, and then by one at most, or by forwarding a client's message.
\<close>

lemma one_reply_per_item:
  assumes "server_contract accepts (the_server b)" and "reachable accepts to_value b x e"
    and "step accepts to_value (the_server b) e e'"
  shows "owed e' \<le> owed e \<or>
    (\<exists>item. e' = receive to_value (the_server b) item e \<and> wire e' = wire e \<and> owed e' \<le> owed e + 1) \<or>
    (\<exists>m ms. outbox (shared e) = m # ms \<and> outbox (shared e') = ms \<and> wire e' = wire e @ [m] \<and>
       owed e' = owed e + 1)"
  using assms(3)
proof (cases rule: step_cases)
  case (step_receive item)
  obtain js t where msg: "do_msg to_value (the_server b) item (shared e) = (js, t)" by fastforce
  have "length (filter yields js) \<le> 1"
    using server_contract.do_msg_fresh(1) [OF assms(1) msg] by (simp add: fresh_def)
  with msg step_receive show ?thesis
    by (auto simp: receive_def owed_def hungry_def intro!: exI [of _ item])
next
  case (step_poll i)
  then have "jobs_ok accepts e"
    using reachable_ok [OF assms(1,2)] by (simp add: endpoint_ok_def)
  with step_poll show ?thesis by (simp add: owed_polled)
qed (auto simp: owed_def transmitted_def cleaner_def)

text \<open>
  What a stopped endpoint does with an item: a single response still reaches its caller, and
  everything else is dropped without asking the server, a batch of responses included, so the calls
  it answers go on waiting.
\<close>

lemma stopped_item:
  assumes "stop s"
  shows "do_msg to_value server (Inr (Response r)) s = ([], do_response r s) \<and>
    do_msg to_value server (Inr (Batch rs)) s = ([], s) \<and>
    do_msg to_value server (Inr (Request req)) s = ([], s) \<and>
    do_msg to_value server (Inr (Notification n)) s = ([], s) \<and>
    do_msg to_value server (Inl broken) s = ([], s)"
  by (simp add: do_msg_stopped [OF assms])

text \<open>What the label \<open>Ignored\<close> stands for: nothing happens but that a response reaches its caller.\<close>

lemma ignored_item:
  assumes "event accepts to_value server (Ignored item) e e'"
  shows "e' = e\<lparr>shared := (case item of Inr (Response r) \<Rightarrow> do_response r (shared e) | _ \<Rightarrow> shared e)\<rparr>"
  using assms
proof (cases rule: event.cases)
  case (event_receive it)
  then have it: "it = item" "stop (shared e)" by (auto simp: received_def split: if_splits)
  have same: "e\<lparr>shared := t, backlog := []\<rparr> = e\<lparr>shared := t\<rparr>" for t
    using event_receive(3) by (cases e) (simp add: hungry_def)
  show ?thesis unfolding event_receive(2) it(1)
    by (auto simp: receive_def do_msg_stopped [OF it(2)] same split: sum.split message.split)
qed

section \<open>Calls after the end of input\<close>

text \<open>
  A run: the input ends, the user of the client calls a method without a timeout, and the request goes
  out.
\<close>

definition ended_conn :: "unit conn" where
  "ended_conn = terminate (idmap_clear idle_conn)"

definition calling_conn :: "unit conn" where
  "calling_conn = snd (client_call ''7'' ''m'' None None ended_conn)"

definition asked :: "unit endpoint" where
  "asked = idle\<lparr>shared := calling_conn, reading := False, wire := [message_request ''7'' ''m'' None]\<rparr>"

lemma ended_conn_fields:
  "clients ended_conn = 1" "senders ended_conn = 1" "calls ended_conn = []" "idmap ended_conn = Map.empty"
  "outbox ended_conn = []" "outbox_open ended_conn" "\<not> kill_fired ended_conn" "stop ended_conn"
  "\<not> terminator ended_conn" "term_refs ended_conn = 1" "\<not> term_fired ended_conn"
  by (simp_all add: ended_conn_def idmap_clear_def) (simp_all add: idle_conn_def)

lemma calling_conn:
  "client_call ''7'' ''m'' None None ended_conn = (Inr (message_request ''7'' ''m'' None, 0), calling_conn)"
  by (simp add: calling_conn_def client_call_def Let_def ended_conn_fields)

lemma calling_conn_eq:
  "calling_conn = ended_conn\<lparr>term_refs := 2, idmap := [''7'' \<mapsto> 0],
     calls := [\<lparr>call_id = ''7'', slot = Waiting, live = True, timed = False\<rparr>]\<rparr>"
  by (simp add: calling_conn_def client_call_def Let_def ended_conn_fields idmap_drop_def rc_clone_def)

lemma asked_reachable: "reachable exact as_is hello () asked"
proof -
  let ?e1 = "idle\<lparr>shared := ended_conn, reading := False\<rparr>"
  let ?e2 = "?e1\<lparr>shared := calling_conn\<rparr>"
  let ?m = "message_request ''7'' ''m'' None"
  let ?e3 = "?e2\<lparr>shared := calling_conn\<lparr>outbox := [?m]\<rparr>\<rparr>"
  have "step exact as_is hello_server idle ?e1"
    using step_end [of idle exact as_is hello_server]
    by (simp add: hungry_def running_def cleaner_def ended_conn_def)
  then have 1: "reachable exact as_is hello () ?e1"
    using reachable_step [OF idle_reachable, of ?e1] by simp
  have "api exact ended_conn calling_conn"
    using api_call [of ended_conn exact "''7''" "''m''" None None]
    by (simp add: calling_conn ended_conn_fields)
  then have "step exact as_is hello_server ?e1 ?e2"
    using step_user [of exact ?e1 calling_conn] by simp
  then have 2: "reachable exact as_is hello () ?e2"
    using reachable_step [OF 1, of ?e2] by simp
  have "call_sent_poll exact ?m 0 calling_conn = (Ready (Inr 0), calling_conn\<lparr>outbox := [?m]\<rparr>)"
    by (simp add: call_sent_poll_def send_poll_def calling_conn_eq ended_conn_fields exact_def
        outgoing_capacity_def)
  then have "api exact calling_conn (calling_conn\<lparr>outbox := [?m]\<rparr>)"
    using api_call_sent [of calling_conn 0 ?m "''m''" None exact]
    by (simp add: calling_conn_eq ended_conn_fields)
  then have "step exact as_is hello_server ?e2 ?e3"
    using step_user [of exact ?e2 "calling_conn\<lparr>outbox := [?m]\<rparr>"] by simp
  then have 3: "reachable exact as_is hello () ?e3"
    using reachable_step [OF 2, of ?e3] by simp
  have "calling_conn\<lparr>outbox := []\<rparr> = calling_conn"
    by (simp add: calling_conn_eq) (use ended_conn_fields(5) in \<open>cases ended_conn; simp\<close>)
  then have "?e3\<lparr>shared := (shared ?e3)\<lparr>outbox := []\<rparr>, wire := wire ?e3 @ [?m]\<rparr> = asked"
    by (simp add: asked_def)
  moreover have "step exact as_is hello_server ?e3
      (?e3\<lparr>shared := (shared ?e3)\<lparr>outbox := []\<rparr>, wire := wire ?e3 @ [?m]\<rparr>)"
    by (rule step_forward) (simp_all add: running_def)
  ultimately show ?thesis using reachable_step [OF 3, of asked] by simp
qed

text \<open>
  C34. A call made after the end of input is never told: the end of input releases the calls that
  wait then, but a client that is still held can make another, whose request is sent although no
  response can be read any more.  In the state reached so the call waits, without a timeout, and the
  connection has no step of its own left: only a use of the handles or a failing write moves it.
\<close>

theorem call_after_end_of_input:
  "reachable exact as_is hello () asked \<and> running asked \<and>
   wire asked = [message_request ''7'' ''m'' None] \<and>
   map slot (calls (shared asked)) = [Waiting] \<and> map timed (calls (shared asked)) = [False] \<and>
   {e. step exact as_is hello_server asked e} \<subseteq>
     {asked\<lparr>shared := t\<rparr> | t. api exact (shared asked) t} \<union> range (\<lambda>err. transmitted (Inl err) asked)"
proof -
  have fields: "shared asked = calling_conn" "\<not> reading asked" "pool asked = []" "backlog asked = []"
    by (simp_all add: asked_def)
  have conn: "outbox calling_conn = []" "senders calling_conn = 1" "\<not> kill_fired calling_conn"
    by (simp_all add: calling_conn_eq ended_conn_fields)
  have "{e. step exact as_is hello_server asked e} \<subseteq>
      {asked\<lparr>shared := t\<rparr> | t. api exact (shared asked) t} \<union> range (\<lambda>err. transmitted (Inl err) asked)"
  proof (rule subsetI, unfold mem_Collect_eq)
    fix e
    assume "step exact as_is hello_server asked e"
    then show "e \<in> {asked\<lparr>shared := t\<rparr> | t. api exact (shared asked) t} \<union>
        range (\<lambda>err. transmitted (Inl err) asked)"
      by (cases rule: step_cases) (auto simp: fields conn hungry_def)
  qed
  moreover have "map slot (calls (shared asked)) = [Waiting]" "map timed (calls (shared asked)) = [False]"
    by (simp_all add: fields calling_conn_eq)
  moreover have "running asked" "wire asked = [message_request ''7'' ''m'' None]"
    by (simp_all add: asked_def running_def)
  ultimately show ?thesis using asked_reachable by (intro conjI)
qed

end
