(* ===== verification/Replies.thy ===== *)
theory Replies
  imports Connection
begin

text \<open>
  What the endpoint answers, said without futures, channels or jobs: the reply a message deserves,
  and the proof that handling the message and working off its jobs gives just that.  The servers
  considered here answer at once and keep to themselves; what a slow server changes is when a reply
  comes and in which order, not which jobs there are.
\<close>

section \<open>The reply a message deserves\<close>

primrec somes :: "'a option list \<Rightarrow> 'a list" where
  "somes [] = []"
| "somes (x # xs) = (case x of None \<Rightarrow> somes xs | Some y \<Rightarrow> y # somes xs)"

definition as_list :: "'a option \<Rightarrow> 'a list" where
  "as_list x = (case x of None \<Rightarrow> [] | Some y \<Rightarrow> [y])"

lemma as_list_simps [simp]: "as_list None = []" "as_list (Some y) = [y]"
  by (simp_all add: as_list_def)

lemma somes_Cons: "somes (x # xs) = as_list x @ somes xs"
  by (simp split: option.split)

lemma length_somes: "length (somes xs) \<le> length xs"
  by (induction xs) (auto split: option.split)

text \<open>A method is a partial function from its name and parameters to its outcome.\<close>

type_synonym methods = "string \<Rightarrow> value option \<Rightarrow> (rpc_error + value) option"

fun expected_request :: "methods \<Rightarrow> request \<Rightarrow> message" where
  "expected_request f req =
     (case f (req_method req) (req_params req) of
        None \<Rightarrow> reply_error req (method_not_found (req_method req))
      | Some (Inl e) \<Rightarrow> reply_error req e
      | Some (Inr v) \<Rightarrow> reply req v)"

definition batch_reply :: "message list \<Rightarrow> message option" where
  "batch_reply rs = (if rs = [] then None else Some (Batch rs))"

text \<open>
  What a message is answered by, as a function of the message: what the endpoint does, stated without
  its futures and channels.  It is the reading of JSON-RPC that the code has (\<open>do_batch\<close> sends
  nothing where no entry has a reply, the empty batch included, and lets batches nest), not in every
  case the specification's.
\<close>

primrec expected :: "methods \<Rightarrow> message \<Rightarrow> message option" where
  "expected f (Request req) = Some (expected_request f req)"
| "expected f (Response r) = None"
| "expected f (Notification n) = None"
| "expected f (Batch ms) = batch_reply (somes (map (expected f) ms))"
| "expected f (UnmatchedSub v) = Some (message_error invalid_request)"

fun expected_item :: "methods \<Rightarrow> parsed \<Rightarrow> message option" where
  "expected_item f (Inl broken) = Some (broken_reply broken)"
| "expected_item f (Inr m) = expected f m"

text \<open>A server that implements the methods.\<close>

definition implements :: "('s, value) server \<Rightarrow> methods \<Rightarrow> bool" where
  "implements server f \<longleftrightarrow>
     (\<forall>m p s. rpc server m p s = (map_option ready (f m p), s)) \<and>
     (\<forall>m p s. \<exists>r. notify server m p s = (map_option ready r, s))"

lemma implements_contract:
  assumes "implements server f"
    and "\<And>s. apis accepts s (initialized server s)"
  shows "server_contract accepts server"
proof
  show "apis accepts s t" if "rpc server m p s = (r, t)" for m p s r t
    using assms(1) that by (auto simp: implements_def)
  show "tame accepts g" if "rpc server m p s = (Some g, t)" for m p s g t
    using assms(1) that by (auto simp: implements_def)
  show "apis accepts s t" if "notify server m p s = (r, t)" for m p s r t
    using assms(1) that by (metis implements_def prod.inject rtranclp.rtrancl_refl)
  show "tame accepts g" if "notify server m p s = (Some g, t)" for m p s g t
  proof -
    obtain r where "notify server m p s = (map_option ready r, s)"
      using assms(1) unfolding implements_def by blast
    with that show ?thesis by (cases r) auto
  qed
qed (rule assms(2))

section \<open>Working off jobs one after the other\<close>

fun work_off :: "room \<Rightarrow> 's job list \<Rightarrow> 's conn \<Rightarrow> (message list \<times> 's conn) option" where
  "work_off accepts [] s = Some ([], s)"
| "work_off accepts (j # js) s =
     (case poll_job accepts j s of
        (Finished (Inr r), t) \<Rightarrow> map_option (apfst ((@) (as_list r))) (work_off accepts js t)
      | _ \<Rightarrow> None)"

lemma work_off_Cons:
  "work_off accepts (j # js) s = Some (ms, u) \<longleftrightarrow>
     (\<exists>r t ns. poll_job accepts j s = (Finished (Inr r), t) \<and> work_off accepts js t = Some (ns, u) \<and>
        ms = as_list r @ ns)"
  by (auto split: prod.splits outcome.splits sum.splits)

lemma work_off_append:
  "work_off accepts (js @ ks) s =
     (case work_off accepts js s of
        None \<Rightarrow> None
      | Some (ms, t) \<Rightarrow> map_option (apfst ((@) ms)) (work_off accepts ks t))"
proof (induction js arbitrary: s)
  case Nil
  show ?case by (cases "work_off accepts ks s") auto
next
  case (Cons j js)
  obtain out t where p: "poll_job accepts j s = (out, t)" by fastforce
  show ?case
  proof (cases "\<exists>r. out = Finished (Inr r)")
    case True
    with p Cons show ?thesis
      by (auto simp: option.map_comp comp_def apfst_def map_prod_def split_def split: option.split)
  next
    case False
    with p show ?thesis by (cases out) (auto split: sum.splits)
  qed
qed

text \<open>This is what the endpoint does, one job at a time.\<close>

lemma work_off_quiet:
  assumes "work_off accepts js s = Some (ms, t)" and "0 < n" and "finish e = None" and "\<not> crashed e"
    and "shared e = s" and "backlog e = js" and "pool e = []" and "width e = n"
  shows "(event accepts to_value server Quiet)\<^sup>*\<^sup>* e (e\<lparr>shared := t, backlog := [], wire := wire e @ ms\<rparr>)"
  using assms
proof (induction js arbitrary: s ms e)
  case Nil
  then have "e\<lparr>shared := t, backlog := [], wire := wire e @ ms\<rparr> = e" by (cases e) auto
  then show ?case by simp
next
  case (Cons j js)
  from Cons.prems(1) obtain r u ns where p: "poll_job accepts j s = (Finished (Inr r), u)"
    and w: "work_off accepts js u = Some (ns, t)" and ms: "ms = as_list r @ ns"
    by (auto simp: work_off_Cons simp del: work_off.simps)
  let ?pulled = "e\<lparr>backlog := js, pool := pool e @ [j]\<rparr>"
  let ?next = "e\<lparr>shared := u, backlog := js, wire := wire e @ as_list r\<rparr>"
  have "event accepts to_value server Quiet e ?pulled"
    using Cons.prems by (intro event_pull) (simp_all add: running_def)
  moreover have "event accepts to_value server Quiet ?pulled ?next"
  proof -
    have "polled accepts 0 ?pulled = ?next"
      using p Cons.prems(5-7) by (cases r) (simp_all add: polled_def Let_def)
    moreover have "event accepts to_value server Quiet ?pulled (polled accepts 0 ?pulled)"
      using Cons.prems by (intro event_poll) (simp_all add: running_def)
    ultimately show ?thesis by simp
  qed
  moreover have "(event accepts to_value server Quiet)\<^sup>*\<^sup>* ?next
      (?next\<lparr>shared := t, backlog := [], wire := wire ?next @ ns\<rparr>)"
    by (rule Cons.IH [OF w Cons.prems(2)]) (use Cons.prems in simp_all)
  moreover have "?next\<lparr>shared := t, backlog := [], wire := wire ?next @ ns\<rparr> =
      e\<lparr>shared := t, backlog := [], wire := wire e @ ms\<rparr>"
    by (simp add: ms)
  ultimately show ?case by (simp only: converse_rtranclp_into_rtranclp)
qed

lemma quiet_steps:
  "(event accepts to_value server l)\<^sup>*\<^sup>* e e' \<Longrightarrow> (step accepts to_value server)\<^sup>*\<^sup>* e e'"
  by (induction rule: rtranclp_induct) (auto dest: event_step intro: rtranclp.rtrancl_into_rtrancl)

lemmas work_off_steps = work_off_quiet [THEN quiet_steps]

section \<open>Jobs that are ready\<close>

primrec prompt :: "'s job \<Rightarrow> bool" where
  "prompt (Work f) \<longleftrightarrow> (\<exists>r. \<forall>s. poll f s = (Some (Inl r), s))"
| "prompt (Sent c j) = prompt j"
| "prompt (Sending c m) = True"
| "prompt (Collect c ms) = True"

text \<open>A job neither reads nor changes a channel it has nothing to do with.\<close>

lemma set_chan_commute:
  "c \<noteq> d \<Longrightarrow> set_chan c x (set_chan d y s) = set_chan d y (set_chan c x s)"
  by (simp add: set_chan_def list_update_swap)

lemma chans_set_chan [simp]:
  "length (chans (set_chan c x s)) = length (chans s)"
  "c \<noteq> d \<Longrightarrow> chans (set_chan c x s) ! d = chans s ! d"
  "c < length (chans s) \<Longrightarrow> chans (set_chan c x s) ! c = x"
  by (simp_all add: set_chan_def)

lemma nth_set_chan: "chans (set_chan d y s) ! d = (if d < length (chans s) then y else chans s ! d)"
  by (simp add: set_chan_def list_update_beyond)

lemma set_chan_twice [simp]: "set_chan c x (set_chan c y s) = set_chan c x s"
  by (simp add: set_chan_def)

lemma poll_sending_frame:
  "c \<noteq> d \<Longrightarrow>
   poll_sending accepts d m (set_chan c x s) = apsnd (set_chan c x) (poll_sending accepts d m s)"
  by (simp add: poll_sending_def sender_drop_def Let_def nth_set_chan set_chan_commute [of c d])

lemma poll_job_frame:
  "prompt j \<Longrightarrow> holders c j = 0 \<Longrightarrow> collects c j = 0 \<Longrightarrow>
   poll_job accepts j (set_chan c x s) = apsnd (set_chan c x) (poll_job accepts j s)"
proof (induction j)
  case (Work f)
  then show ?case by auto
next
  case (Sent d j)
  then have d: "d \<noteq> c" and j: "poll_job accepts j (set_chan c x s) = apsnd (set_chan c x) (poll_job accepts j s)"
    by (auto split: if_splits)
  obtain o' t where p: "poll_job accepts j s = (o', t)" by fastforce
  with j d show ?case
    by (auto simp: sender_drop_def Let_def set_chan_commute [of c d] poll_sending_frame
        split: outcome.split sum.split option.split)
next
  case (Sending d m)
  then show ?case by (auto simp: poll_sending_frame split: if_splits)
next
  case (Collect d ms)
  then show ?case by (auto simp: poll_collect_def Let_def set_chan_commute [of c d] split: if_splits)
qed

lemma poll_job_other:
  "prompt j \<Longrightarrow> holders c j = 0 \<Longrightarrow> collects c j = 0 \<Longrightarrow>
   length (chans (snd (poll_job accepts j s))) = length (chans s) \<and>
   chans (snd (poll_job accepts j s)) ! c = chans s ! c"
proof (induction j)
  case (Work f)
  then show ?case by auto
next
  case (Sent d j)
  obtain o' t where p: "poll_job accepts j s = (o', t)" by fastforce
  with Sent show ?case
    by (auto simp: sender_drop_def poll_sending_def Let_def split: outcome.split sum.split option.split if_splits)
next
  case (Sending d m)
  then show ?case by (auto simp: poll_sending_def sender_drop_def Let_def split: if_splits)
next
  case (Collect d ms)
  then show ?case by (auto simp: poll_collect_def Let_def split: if_splits)
qed

lemma work_off_frame:
  "list_all prompt js \<Longrightarrow> absent js c \<Longrightarrow>
   work_off accepts js (set_chan c x s) = map_option (apsnd (set_chan c x)) (work_off accepts js s)"
proof (induction js arbitrary: s)
  case Nil
  then show ?case by simp
next
  case (Cons j js)
  obtain out t where p: "poll_job accepts j s = (out, t)" by fastforce
  have "poll_job accepts j (set_chan c x s) = (out, set_chan c x t)"
    using poll_job_frame [of j c accepts x s] Cons.prems p by (simp add: absent_def)
  moreover have "work_off accepts js (set_chan c x t) = map_option (apsnd (set_chan c x)) (work_off accepts js t)"
    using Cons by (simp add: absent_def)
  ultimately show ?case using p
    by (cases "work_off accepts js t") (auto split: outcome.split sum.split)
qed

lemma work_off_other:
  "list_all prompt js \<Longrightarrow> absent js c \<Longrightarrow> work_off accepts js s = Some (ms, t) \<Longrightarrow>
   length (chans t) = length (chans s) \<and> chans t ! c = chans s ! c"
proof (induction js arbitrary: s ms)
  case Nil
  then show ?case by simp
next
  case (Cons j js)
  from Cons.prems(3) obtain r u ns where p: "poll_job accepts j s = (Finished (Inr r), u)"
    and w: "work_off accepts js u = Some (ns, t)"
    by (auto simp: work_off_Cons simp del: work_off.simps)
  have "length (chans u) = length (chans s) \<and> chans u ! c = chans s ! c"
    using poll_job_other [of j c accepts s] Cons.prems p by (simp add: absent_def)
  moreover have "length (chans t) = length (chans u) \<and> chans t ! c = chans u ! c"
    using Cons.IH [OF _ _ w] Cons.prems by (simp add: absent_def)
  ultimately show ?case by simp
qed

text \<open>The jobs of one entry of a batch put what they yield into its channel.\<close>

definition sent_into :: "message list \<Rightarrow> nat \<Rightarrow> channel \<Rightarrow> channel" where
  "sent_into ms n ch = ch\<lparr>chan_queue := chan_queue ch @ ms, chan_senders := chan_senders ch - n\<rparr>"

lemma poll_Sent:
  assumes "roomy accepts" and "poll_job accepts j s = (Finished (Inr r), t)"
    and "c < length (chans t)" and "chan_open (chans t ! c)"
    and "length (chan_queue (chans t ! c)) + length (as_list r) \<le> capacity (chans t ! c)"
  shows "poll_job accepts (Sent c j) s =
    (Finished (Inr None), set_chan c (sent_into (as_list r) 1 (chans t ! c)) t)"
proof (cases r)
  case None
  then show ?thesis using assms(2) by (simp add: sender_drop_def sent_into_def Let_def)
next
  case (Some m)
  then have "accepts (capacity (chans t ! c)) (length (chan_queue (chans t ! c)))"
    using assms(1,5) by (simp add: roomy_def)
  with Some assms(2-4) show ?thesis
    by (simp add: poll_sending_def sender_drop_def sent_into_def nth_set_chan Let_def)
qed

lemma work_off_Sent:
  assumes "roomy accepts"
  shows "work_off accepts js s = Some (ms, t) \<Longrightarrow> list_all prompt js \<Longrightarrow> absent js c \<Longrightarrow>
    c < length (chans s) \<Longrightarrow> chan_open (chans s ! c) \<Longrightarrow>
    length (chan_queue (chans s ! c)) + length ms \<le> capacity (chans s ! c) \<Longrightarrow>
    work_off accepts (map (Sent c) js) s =
      Some ([], set_chan c (sent_into ms (length js) (chans s ! c)) t)"
proof (induction js arbitrary: s ms t)
  case Nil
  then show ?case by (simp add: sent_into_def set_chan_def)
next
  case (Cons j js)
  from Cons.prems(1) obtain r u ns where p: "poll_job accepts j s = (Finished (Inr r), u)"
    and w: "work_off accepts js u = Some (ns, t)" and ms: "ms = as_list r @ ns"
    by (auto simp: work_off_Cons simp del: work_off.simps)
  have u: "length (chans u) = length (chans s)" "chans u ! c = chans s ! c"
    using poll_job_other [of j c accepts s] Cons.prems p by (simp_all add: absent_def)
  let ?b = "sent_into (as_list r) 1 (chans s ! c)"
  have js: "list_all prompt js" "absent js c" using Cons.prems by (simp_all add: absent_def)
  have "work_off accepts js (set_chan c ?b u) = Some (ns, set_chan c ?b t)"
    using work_off_frame [OF js, of accepts ?b u] w by simp
  then have "work_off accepts (map (Sent c) js) (set_chan c ?b u) =
      Some ([], set_chan c (sent_into ns (length js) ?b) t)"
    using Cons.IH [of "set_chan c ?b u" ns "set_chan c ?b t"] Cons.prems js u
    by (simp add: ms sent_into_def)
  moreover have "poll_job accepts (Sent c j) s = (Finished (Inr None), set_chan c ?b u)"
    using poll_Sent [OF assms p] Cons.prems u by (simp add: ms)
  moreover have "sent_into ns (length js) ?b = sent_into ms (length (j # js)) (chans s ! c)"
    by (simp add: sent_into_def ms)
  ultimately show ?case by (simp del: poll_job.simps)
qed

section \<open>Handling a message and working off its jobs\<close>

text \<open>A state in which the channels made between two states are still as they were made.\<close>

definition later :: "'s conn \<Rightarrow> 's conn \<Rightarrow> 's conn \<Rightarrow> bool" where
  "later s t u \<longleftrightarrow>
     length (chans t) \<le> length (chans u) \<and>
     (\<forall>d. length (chans s) \<le> d \<and> d < length (chans t) \<longrightarrow> chans u ! d = chans t ! d)"

definition answers :: "room \<Rightarrow> message list \<Rightarrow> 's job list \<Rightarrow> 's conn \<Rightarrow> 's conn \<Rightarrow> bool" where
  "answers accepts rs js s t \<longleftrightarrow>
     \<not> stop t \<and> list_all prompt js \<and> (\<forall>u. later s t u \<longrightarrow> (\<exists>u'. work_off accepts js u = Some (rs, u')))"

definition feeds :: "room \<Rightarrow> nat \<Rightarrow> nat \<Rightarrow> message list \<Rightarrow> 's job list \<Rightarrow> 's conn \<Rightarrow> 's conn \<Rightarrow> bool" where
  "feeds accepts c n rs js s t \<longleftrightarrow>
     \<not> stop t \<and> list_all prompt js \<and> total (holders c) js = length js \<and>
     (\<forall>u. later s t u \<and> chan_open (chans u ! c) \<and>
          length (chan_queue (chans u ! c)) + n \<le> capacity (chans u ! c) \<longrightarrow>
        (\<exists>u'. work_off accepts js u = Some ([], u') \<and> length (chans u') = length (chans u) \<and>
           chans u' ! c = sent_into rs (length js) (chans u ! c)))"

lemma answers_none: "\<not> stop t \<Longrightarrow> answers accepts [] [] s t"
  by (simp add: answers_def)

lemma answers_one:
  assumes "\<not> stop t" and "\<And>u. poll g u = (Some (Inl r), u)"
  shows "answers accepts (as_list r) [Work g] s t"
  using assms by (simp add: answers_def as_list_def)

lemma request_answers:
  assumes "implements server f" and "\<not> stop s" and "do_request to_value server req s = (j, t)"
    and "to_value = Inr"
  shows "answers accepts [expected_request f req] [j] s t"
proof -
  have rpc: "rpc server (req_method req) (req_params req) s =
      (map_option ready (f (req_method req) (req_params req)), s)"
    using assms(1) by (simp add: implements_def)
  show ?thesis
  proof (cases "f (req_method req) (req_params req)")
    case None
    with rpc assms show ?thesis
      using answers_one [of s "ready (Some (expected_request f req))" "Some (expected_request f req)" accepts s]
      by (auto simp: do_request_def)
  next
    case (Some r)
    have "request_reply Inr req r = Some (Some (expected_request f req))"
      using Some by (cases r) (simp_all add: request_reply_def)
    then have "poll (future_then (request_reply Inr req) (ready r)) u =
        (Some (Inl (Some (expected_request f req))), u)" for u
      by (simp add: poll_future_then)
    with rpc Some assms show ?thesis
      using answers_one [of s "future_then (request_reply Inr req) (ready r)" "Some (expected_request f req)"
        accepts s]
      by (auto simp: do_request_def)
  qed
qed

lemma notification_answers:
  assumes "implements server f" and "\<not> stop s" and "do_notification server notif s = (j, t)"
  shows "answers accepts [] [j] s t"
proof -
  obtain r where rpc: "notify server (notif_method notif) (notif_params notif) s = (map_option ready r, s)"
    using assms(1) unfolding implements_def by blast
  show ?thesis
  proof (cases r)
    case None
    with rpc assms show ?thesis
      using answers_one [of s "ready None" None accepts s] by (auto simp: do_notification_def)
  next
    case (Some x)
    have "poll (future_then (\<lambda>_. Some None) (ready x)) u = (Some (Inl None), u)" for u
      by (simp add: poll_future_then)
    with rpc Some assms show ?thesis
      using answers_one [of s "future_then (\<lambda>_. Some None) (ready x)" None accepts s]
      by (auto simp: do_notification_def)
  qed
qed

lemma feeds_Cons:
  assumes roomy: "roomy accepts" and js: "answers accepts (as_list x) js s t" "fresh js s t"
    and ks: "feeds accepts c n rs ks (sender_clones c (length js) t) v"
      "fed c n ks (sender_clones c (length js) t) v"
    and c: "c < length (chans s)" and rs: "length rs \<le> n"
  shows "feeds accepts c (Suc n) (as_list x @ rs) (map (Sent c) js @ ks) s v"
proof -
  let ?t = "sender_clones c (length js) t"
  have len: "length (chans s) \<le> length (chans t)" "length (chans t) \<le> length (chans v)"
    using js(2) ks(2) by (simp_all add: fresh_def fed_def grown_def)
  have absent: "absent js c" using js(2) c by (simp add: fresh_def)
  have prompt: "list_all prompt js" "list_all prompt ks"
    using js(1) ks(1) by (simp_all add: answers_def feeds_def)
  have "\<exists>u'. work_off accepts (map (Sent c) js @ ks) u = Some ([], u') \<and> length (chans u') = length (chans u) \<and>
      chans u' ! c = sent_into (as_list x @ rs) (length (map (Sent c) js @ ks)) (chans u ! c)"
    if u: "later s v u" "chan_open (chans u ! c)"
      "length (chan_queue (chans u ! c)) + Suc n \<le> capacity (chans u ! c)" for u
  proof -
    have cu: "c < length (chans u)" using u(1) c len by (simp add: later_def)
    have "later s t u"
      unfolding later_def
    proof (intro conjI allI impI)
      show "length (chans t) \<le> length (chans u)" using u(1) len by (simp add: later_def)
      fix d assume d: "length (chans s) \<le> d \<and> d < length (chans t)"
      then have "chans u ! d = chans v ! d" using u(1) len by (simp add: later_def)
      also have "\<dots> = chans t ! d" using ks(2) d c by (simp add: fed_def)
      finally show "chans u ! d = chans t ! d" .
    qed
    then obtain u1 where u1: "work_off accepts js u = Some (as_list x, u1)"
      using js(1) by (auto simp: answers_def)
    let ?b = "sent_into (as_list x) (length js) (chans u ! c)"
    let ?u = "set_chan c ?b u1"
    have "length (as_list x) \<le> 1" by (cases x) simp_all
    then have sent: "work_off accepts (map (Sent c) js) u = Some ([], ?u)"
      using u cu by (intro work_off_Sent [OF roomy u1 prompt(1) absent]) simp_all
    have other: "chans u1 ! d = chans u ! d" "length (chans u1) = length (chans u)"
      if "absent js d" for d
      using work_off_other [OF prompt(1) that u1] by simp_all
    have lu: "length (chans ?u) = length (chans u)" using other(2) [OF absent] by simp
    have "later ?t v ?u"
      unfolding later_def
    proof (intro conjI allI impI)
      show "length (chans v) \<le> length (chans ?u)" using u(1) lu by (simp add: later_def)
      fix d assume d: "length (chans ?t) \<le> d \<and> d < length (chans v)"
      then have "absent js d" using js(2) by (simp add: fresh_def grown_def)
      then show "chans ?u ! d = chans v ! d"
        using d c len u(1) other(1) [of d] by (simp add: later_def)
    qed
    moreover have "chans ?u ! c = ?b" using cu other(2) [OF absent] by simp
    ultimately obtain u' where u': "work_off accepts ks ?u = Some ([], u')"
      "length (chans u') = length (chans ?u)" "chans u' ! c = sent_into rs (length ks) ?b"
      using ks(1) u \<open>length (as_list x) \<le> 1\<close> by (fastforce simp: feeds_def sent_into_def)
    then show ?thesis using sent lu
      by (auto simp: work_off_append sent_into_def)
  qed
  moreover have "total (holders c) (map (Sent c) js @ ks) = length (map (Sent c) js @ ks)"
    using absent ks(1) by (simp add: absent_def feeds_def)
  ultimately show ?thesis using ks(1) prompt by (auto simp: feeds_def list_all_iff)
qed

lemma feeds_Nil: "\<not> stop s \<Longrightarrow> feeds accepts c n [] [] s s"
  by (auto simp: feeds_def sent_into_def)

lemma batch_answers:
  assumes new: "new_channel (length ms) s = (c, s0)"
    and js: "feeds accepts c (length ms) rs js s0 t" "fed c (length ms) js s0 t"
  shows "answers accepts (as_list (batch_reply rs)) (js @ [Collect c []]) s t"
proof -
  from new have c: "c = length (chans s)" and s0: "length (chans s0) = Suc c"
    "chans s0 ! c = \<lparr>capacity = length ms, chan_queue = [], chan_senders = 0, chan_open = True\<rparr>"
    by (auto simp: new_channel_def)
  have len: "Suc c \<le> length (chans t)" using js(2) s0 by (simp add: fed_def grown_def)
  have ch: "chans t ! c =
      \<lparr>capacity = length ms, chan_queue = [], chan_senders = length js, chan_open = True\<rparr>"
    using js s0 by (simp add: fed_def feeds_def)
  have "\<exists>u'. work_off accepts (js @ [Collect c []]) u = Some (as_list (batch_reply rs), u')"
    if u: "later s t u" for u
  proof -
    have "chans u ! c = chans t ! c" using u c len by (simp add: later_def)
    moreover have "later s0 t u" using u s0 c by (simp add: later_def)
    ultimately obtain u' where "work_off accepts js u = Some ([], u')"
      "chans u' ! c = sent_into rs (length js) (chans t ! c)"
      using js(1) ch by (fastforce simp: feeds_def)
    then show ?thesis
      by (simp add: work_off_append poll_collect_def ch sent_into_def batch_reply_def)
  qed
  then show ?thesis using js(1) by (auto simp: answers_def feeds_def)
qed

lemma do_msg_answers_induct:
  assumes roomy: "roomy accepts"
  shows "to_value = Inr \<longrightarrow> implements server f \<longrightarrow> server_contract accepts server \<longrightarrow> \<not> stop s \<longrightarrow>
      answers accepts (as_list (expected_item f msg)) (fst (do_msg to_value server msg s)) s
        (snd (do_msg to_value server msg s))"
    and "to_value = Inr \<longrightarrow> implements server f \<longrightarrow> server_contract accepts server \<longrightarrow> \<not> stop s \<longrightarrow>
      answers accepts (as_list (batch_reply (somes (map (expected f) msgs))))
        (fst (do_batch to_value server msgs s)) s (snd (do_batch to_value server msgs s))"
    and "to_value = Inr \<longrightarrow> implements server f \<longrightarrow> server_contract accepts server \<longrightarrow> \<not> stop s \<longrightarrow>
      c < length (chans s) \<longrightarrow>
      feeds accepts c (length subs) (somes (map (expected f) subs))
        (fst (do_subs to_value server c subs s)) s (snd (do_subs to_value server c subs s))"
proof (induction to_value server msg s and to_value server msgs s and to_value server c subs s
    rule: do_msg_do_batch_do_subs.induct)
  case (1 to_value server msg s)
  show ?case
  proof (intro impI)
    assume tv: "to_value = Inr" and impl: "implements server f"
      and contract: "server_contract accepts server" and running: "\<not> stop s"
    show "answers accepts (as_list (expected_item f msg)) (fst (do_msg to_value server msg s)) s
        (snd (do_msg to_value server msg s))"
    proof (cases msg)
      case (Inl broken)
      then show ?thesis
        using answers_one [of s "ready (Some (broken_reply broken))" "Some (broken_reply broken)" accepts s]
          running by (simp add: do_msg_running)
    next
      case (Inr m)
      show ?thesis
      proof (cases m)
        case (Request req)
        obtain j t where j: "do_request to_value server req s = (j, t)" by fastforce
        from request_answers [OF impl running this tv] show ?thesis
          using Inr Request running j by (simp add: do_msg_running del: expected_request.simps)
      next
        case (Notification notif)
        obtain j t where j: "do_notification server notif s = (j, t)" by fastforce
        from notification_answers [OF impl running this] show ?thesis
          using Inr Notification running j by (simp add: do_msg_running)
      next
        case (Batch batch)
        then show ?thesis
          using 1(1) [OF refl running Inr] tv impl contract running Inr by (simp add: do_msg_running)
      next
        case (UnmatchedSub v)
        then show ?thesis
          using answers_one [of s "ready (Some (broken_reply (Unmatched v)))"
              "Some (broken_reply (Unmatched v))" accepts s]
            running Inr by (simp add: do_msg_running)
      next
        case (Response r)
        then show ?thesis using running Inr by (simp add: do_msg_running answers_none)
      qed
    qed
  qed
next
  case (2 to_value server msgs s)
  obtain c s0 where new: "new_channel (length msgs) s = (c, s0)" by fastforce
  obtain js t where subs: "do_subs to_value server c msgs s0 = (js, t)" by fastforce
  have s0: "c < length (chans s0)" "stop s0 = stop s" using new by (auto simp: new_channel_def)
  show ?case
  proof (intro impI)
    assume tv: "to_value = Inr" and impl: "implements server f"
      and contract: "server_contract accepts server" and running: "\<not> stop s"
    then have "feeds accepts c (length msgs) (somes (map (expected f) msgs)) js s0 t"
      using 2 [OF new [symmetric] refl] s0 subs by simp
    moreover have "fed c (length msgs) js s0 t"
      using do_msg_fresh_induct(3) [of accepts server c s0 msgs to_value] contract s0 subs by simp
    ultimately show "answers accepts (as_list (batch_reply (somes (map (expected f) msgs))))
        (fst (do_batch to_value server msgs s)) s (snd (do_batch to_value server msgs s))"
      using batch_answers [OF new] by (simp add: do_batch.simps new subs)
  qed
next
  case (3 to_value server c s)
  then show ?case by (simp add: feeds_Nil)
next
  case (4 to_value server c sub subs s)
  obtain js t where sub: "do_msg to_value server (Inr sub) s = (js, t)" by fastforce
  let ?t = "sender_clones c (length js) t"
  obtain ks u where subs: "do_subs to_value server c subs ?t = (ks, u)" by fastforce
  show ?case
  proof (intro impI)
    assume tv: "to_value = Inr" and impl: "implements server f"
      and contract: "server_contract accepts server" and running: "\<not> stop s"
      and c: "c < length (chans s)"
    have js: "answers accepts (as_list (expected f sub)) js s t" "fresh js s t"
      using 4(1) do_msg_fresh_induct(1) [of accepts server to_value "Inr sub" s]
        tv impl contract running sub by simp_all
    then have ct: "c < length (chans ?t)" "\<not> stop ?t"
      using c by (simp_all add: fresh_def grown_def answers_def sender_clones_def set_chan_def Let_def)
    then have ks: "feeds accepts c (length subs) (somes (map (expected f) subs)) ks ?t u"
      "fed c (length subs) ks ?t u"
      using 4(2) [OF sub [symmetric] refl] tv impl contract subs
        do_msg_fresh_induct(3) [of accepts server c ?t subs to_value] by simp_all
    have "length (somes (map (expected f) subs)) \<le> length subs"
      using length_somes [of "map (expected f) subs"] by simp
    from feeds_Cons [OF roomy js ks c this]
    show "feeds accepts c (length (sub # subs)) (somes (map (expected f) (sub # subs)))
        (fst (do_subs to_value server c (sub # subs) s)) s
        (snd (do_subs to_value server c (sub # subs) s))"
      by (simp add: sub subs somes_Cons del: somes.simps)
  qed
qed

section \<open>Wrapped servers\<close>

text \<open>The endpoint knows a server by what it makes of requests and notifications.\<close>

lemma do_msg_cong_induct:
  fixes tv' :: "'w \<Rightarrow> 'y + value" and srv' :: "('s, 'w) server"
  shows "(\<forall>req s. do_request to_value server req s = do_request tv' srv' req s) \<and>
      (\<forall>n s. do_notification server n s = do_notification srv' n s) \<longrightarrow>
      do_msg to_value server msg s = do_msg tv' srv' msg s"
    and "(\<forall>req s. do_request to_value server req s = do_request tv' srv' req s) \<and>
      (\<forall>n s. do_notification server n s = do_notification srv' n s) \<longrightarrow>
      do_batch to_value server msgs s = do_batch tv' srv' msgs s"
    and "(\<forall>req s. do_request to_value server req s = do_request tv' srv' req s) \<and>
      (\<forall>n s. do_notification server n s = do_notification srv' n s) \<longrightarrow>
      do_subs to_value server c subs s = do_subs tv' srv' c subs s"
proof (induction to_value server msg s and to_value server msgs s and to_value server c subs s
    rule: do_msg_do_batch_do_subs.induct)
  case (1 to_value server msg s)
  show ?case
  proof (cases "stop s")
    case True
    then show ?thesis by (simp add: do_msg_stopped)
  next
    case running: False
    show ?thesis
    proof (cases msg)
      case (Inr m)
      then show ?thesis
        using 1(1) [OF refl running Inr] running by (cases m) (simp_all add: do_msg_running)
    qed (simp add: running do_msg_running)
  qed
next
  case (2 to_value server msgs s)
  obtain c s0 where new: "new_channel (length msgs) s = (c, s0)" by fastforce
  then show ?case using 2 [OF new [symmetric] refl] by (simp add: do_batch.simps)
next
  case (4 to_value server c sub subs s)
  obtain js t where sub: "do_msg to_value server (Inr sub) s = (js, t)" by fastforce
  show ?case
  proof
    assume same: "(\<forall>req s. do_request to_value server req s = do_request tv' srv' req s) \<and>
      (\<forall>n s. do_notification server n s = do_notification srv' n s)"
    then have "do_msg tv' srv' (Inr sub) s = (js, t)" using 4(1) sub by simp
    then show "do_subs to_value server c (sub # subs) s = do_subs tv' srv' c (sub # subs) s"
      using 4(2) [OF sub [symmetric] refl] same sub by simp
  qed
qed simp

lemma request_reply_wrapped:
  "(\<lambda>r. Option.bind (to_value_expect to_value r) (request_reply as_is req)) = request_reply to_value req"
proof
  fix r
  show "Option.bind (to_value_expect to_value r) (request_reply as_is req) = request_reply to_value req r"
    by (cases r; cases "to_value (projr r)")
       (auto simp: to_value_expect_def request_reply_def split: sum.split)
qed

lemma do_request_abstract:
  "do_request as_is (abstract_server to_value inner) req s = do_request to_value inner req s"
  by (cases "rpc inner (req_method req) (req_params req) s")
     (auto simp: do_request_def server_defs future_then_then request_reply_wrapped split: option.split)

lemma do_notification_abstract:
  "do_notification (abstract_server to_value inner) n s = do_notification inner n s"
  by (simp add: do_notification_def server_defs)

lemma iter_chain_one: "iter_chain f [sub] = f sub"
proof
  show "iter_chain f [sub] w = f sub w" for w
    by (cases "f sub w") (simp split: option.split)
qed

text \<open>Ready jobs leave the connection as it is, their channels apart.\<close>

lemma prompt_poll_stop: "prompt j \<Longrightarrow> stop (snd (poll_job accepts j s)) = stop s"
proof (induction j)
  case (Work f)
  then show ?case by (auto split: prod.split option.split sum.split)
next
  case (Sent c j)
  obtain o' t where p: "poll_job accepts j s = (o', t)" by fastforce
  with Sent have "stop t = stop s" by simp
  with p show ?case
    by (auto simp: poll_sending_def sender_drop_def set_chan_def Let_def
        split: outcome.split sum.split option.split)
qed (auto simp: poll_sending_def poll_collect_def sender_drop_def set_chan_def Let_def)

lemma work_off_stop:
  "list_all prompt js \<Longrightarrow> work_off accepts js s = Some (ms, t) \<Longrightarrow> stop t = stop s"
proof (induction js arbitrary: s ms)
  case Nil
  then show ?case by simp
next
  case (Cons j js)
  then obtain r u ns where "poll_job accepts j s = (Finished (Inr r), u)" "work_off accepts js u = Some (ns, t)"
    by (auto simp: work_off_Cons simp del: work_off.simps)
  with Cons prompt_poll_stop [of j accepts s] show ?case by simp
qed

lemma item_answered_quietly:
  assumes "implements server f" and "server_contract accepts server" and "roomy accepts"
    and "hungry e" and "pool e = []" and "\<not> stop (shared e)"
  shows "\<exists>u. \<not> stop u \<and> (event accepts as_is server Quiet)\<^sup>*\<^sup>* (receive as_is server item e)
    (e\<lparr>shared := u, wire := wire e @ as_list (expected_item f item)\<rparr>)"
proof -
  obtain js t where msg: "do_msg as_is server item (shared e) = (js, t)" by fastforce
  have answers: "answers accepts (as_list (expected_item f item)) js (shared e) t"
    using do_msg_answers_induct(1) [OF assms(3), of as_is server f "shared e" item] assms msg by simp
  then obtain u where w: "work_off accepts js t = Some (as_list (expected_item f item), u)"
    by (auto simp: answers_def later_def)
  have "\<not> stop u" using work_off_stop [OF _ w] answers by (simp add: answers_def)
  let ?e = "e\<lparr>shared := t, backlog := js\<rparr>"
  have "receive as_is server item e = ?e" by (simp add: receive_def msg)
  moreover have "(event accepts as_is server Quiet)\<^sup>*\<^sup>* ?e
      (?e\<lparr>shared := u, backlog := [], wire := wire ?e @ as_list (expected_item f item)\<rparr>)"
    by (rule work_off_quiet [OF w]) (use assms in \<open>auto simp: hungry_def running_def\<close>)
  moreover have "?e\<lparr>shared := u, backlog := [], wire := wire ?e @ as_list (expected_item f item)\<rparr> =
      e\<lparr>shared := u, wire := wire e @ as_list (expected_item f item)\<rparr>"
    using assms(4) by (cases e) (simp add: hungry_def)
  ultimately show ?thesis using \<open>\<not> stop u\<close> by metis
qed

lemma item_answered:
  assumes "implements server f" and "server_contract accepts server" and "roomy accepts"
    and "hungry e" and "pool e = []" and "\<not> stop (shared e)"
  shows "\<exists>u. (step accepts as_is server)\<^sup>*\<^sup>* (receive as_is server item e)
    (e\<lparr>shared := u, wire := wire e @ as_list (expected_item f item)\<rparr>)"
  using item_answered_quietly [OF assms] quiet_steps by metis

section \<open>Properties\<close>


text \<open>
  This is not everywhere what JSON-RPC 2.0 asks for.  An empty batch gets no reply, where the
  specification asks for an invalid-request error; and a batch among the entries of a batch is
  answered by a batch, where the specification knows no such entry.
\<close>

lemma empty_batch_unanswered:
  assumes "implements server f" and "server_contract accepts server" and "roomy accepts"
    and "hungry e" and "pool e = []" and "\<not> stop (shared e)"
  shows "\<exists>u. (event accepts as_is server Quiet)\<^sup>*\<^sup>* (receive as_is server (Inr (Batch [])) e) (e\<lparr>shared := u\<rparr>)"
proof -
  have "e\<lparr>shared := u, wire := wire e @ []\<rparr> = e\<lparr>shared := u\<rparr>" for u by (cases e) simp
  with item_answered_quietly [OF assms, of "Inr (Batch [])"] show ?thesis by (auto simp: batch_reply_def)
qed

text \<open>The sample server implements one method.\<close>

definition hello_methods :: methods where
  "hello_methods m p = (if m = ''hello'' then Some (Inr (String ''world'')) else None)"

lemma hello_implements: "implements hello_server hello_methods"
  unfolding implements_def hello_server_def hello_methods_def default_notification_def
  by (auto intro: exI [of _ None])

definition hello_batch :: parsed where
  "hello_batch = Inr (Batch
     [Request \<lparr>req_jsonrpc = Version, req_method = ''hello'', req_params = None, req_id = Null\<rparr>,
      message_notification ''hello'' None, UnmatchedSub Null])"


text \<open>
  C35. Wrapping is invisible: an endpoint treats every item the same, jobs and state, whether it
  has a server directly, behind \<open>AbstractServer\<close>, or as the one link of a \<open>ServerChain\<close>;
  and the wrapped server is initialized the same.
\<close>

theorem wrapping_is_transparent:
  "do_msg as_is (abstract_server to_value inner) item s = do_msg to_value inner item s \<and>
   do_msg as_is (server_chain [abstract_server to_value inner]) item s = do_msg to_value inner item s \<and>
   initialized (server_chain [abstract_server to_value inner]) s = initialized inner s"
proof (intro conjI)
  show "do_msg as_is (abstract_server to_value inner) item s = do_msg to_value inner item s"
    using do_msg_cong_induct(1) [of as_is "abstract_server to_value inner" to_value inner item s]
    by (simp add: do_request_abstract do_notification_abstract)
  have "do_request as_is (server_chain [abstract_server to_value inner]) req s =
      do_request to_value inner req s" for req s
    using do_request_abstract [of to_value inner req s]
    by (simp add: do_request_def server_chain_def chain_rpc_def iter_chain_one)
  moreover have "do_notification (server_chain [abstract_server to_value inner]) n s =
      do_notification inner n s" for n s
    using do_notification_abstract [of to_value inner n s]
    by (simp add: do_notification_def server_chain_def chain_notification_def iter_chain_one)
  ultimately show "do_msg as_is (server_chain [abstract_server to_value inner]) item s =
      do_msg to_value inner item s"
    using do_msg_cong_induct(1) [of as_is "server_chain [abstract_server to_value inner]" to_value inner item s]
    by simp
  show "initialized (server_chain [abstract_server to_value inner]) s = initialized inner s"
    by (simp add: server_defs)
qed

end
