(* ===== verification/Tickets.thy ===== *)
theory Tickets
  imports Replies "HOL-Library.Multiset"
begin

text \<open>
  What every job will have contributed in the end, whatever the reactor polls first.  Replies of a
  batch come in the order in which they are ready, so messages are compared up to the order inside of
  batches (\<open>digest\<close>).  A ticket says of a job what it is going to yield, what it is going to put
  into which channel, and what a collecting job will have found in its own; a poll trades a ticket for
  another and what has been handed over, and nothing is lost.
\<close>

section \<open>Messages up to the order of batches\<close>

datatype unordered =
    Single message
  | Bag "unordered multiset"

primrec digest :: "message \<Rightarrow> unordered" where
  "digest (Request r) = Single (Request r)"
| "digest (Response r) = Single (Response r)"
| "digest (Notification n) = Single (Notification n)"
| "digest (Batch ms) = Bag (mset (map digest ms))"
| "digest (UnmatchedSub v) = Single (UnmatchedSub v)"

definition as_mset :: "'a option \<Rightarrow> 'a multiset" where
  "as_mset x = (case x of None \<Rightarrow> {#} | Some y \<Rightarrow> {#y#})"

lemma as_mset_simps [simp]: "as_mset None = {#}" "as_mset (Some y) = {#y#}"
  by (simp_all add: as_mset_def)

lemma as_mset_as_list: "as_mset (map_option g x) = mset (map g (as_list x))"
  by (cases x) simp_all

abbreviation digests :: "message list \<Rightarrow> unordered multiset" where
  "digests ms \<equiv> mset (map digest ms)"

definition bag :: "unordered multiset \<Rightarrow> unordered multiset" where
  "bag M = (if M = {#} then {#} else {#Bag M#})"

lemma digest_batch_reply: "as_mset (map_option digest (batch_reply rs)) = bag (digests rs)"
  by (simp add: batch_reply_def bag_def)

section \<open>What a future can yield\<close>

text \<open>Whenever the future resolves it is to such a value; it need not ever resolve.\<close>

coinductive results :: "('a \<Rightarrow> bool) \<Rightarrow> ('w, 'a) future \<Rightarrow> bool" for Q where
  "(\<And>w r w'. poll f w = (r, w') \<Longrightarrow>
      (\<forall>a. r = Some (Inl a) \<longrightarrow> Q a) \<and> (\<forall>k. r = Some (Inr k) \<longrightarrow> results Q k)) \<Longrightarrow>
   results Q f"

lemma results_value: "results Q f \<Longrightarrow> poll f w = (Some (Inl a), w') \<Longrightarrow> Q a"
  by (erule results.cases) blast

lemma results_next: "results Q f \<Longrightarrow> poll f w = (Some (Inr k), w') \<Longrightarrow> results Q k"
  by (erule results.cases) blast

lemma results_ready [simp]: "results Q (ready x) = Q x"
proof
  show "Q x" if "results Q (ready x)" using results_value [OF that poll_ready] .
qed (rule results.intros, auto)

lemma results_True: "results (\<lambda>_. True) f"
  by (coinduction arbitrary: f) auto

lemma results_future_then:
  assumes "results Q f" and "\<And>a b. Q a \<Longrightarrow> g a = Some b \<Longrightarrow> R b"
  shows "results R (future_then g f)"
  using assms(1)
proof (coinduction arbitrary: f)
  case (results f)
  show ?case
  proof (intro exI [of _ "future_then g f"] conjI allI impI refl)
    fix w r w' a
    assume p: "poll (future_then g f) w = (r, w')"
    show "R a" if "r = Some (Inl a)"
      using p that results assms(2)
      by (auto simp: poll_future_then split: prod.splits option.splits sum.splits dest: results_value)
  next
    fix w r w' k
    assume "poll (future_then g f) w = (r, w')" "r = Some (Inr k)"
    then obtain h where "poll f w = (Some (Inr h), w')" "k = future_then g h"
      by (auto simp: poll_future_then split: prod.splits option.splits sum.splits)
    with results show "(\<exists>f. k = future_then g f \<and> results Q f) \<or> results R k"
      by (auto dest: results_next)
  qed
qed

section \<open>Tickets\<close>

text \<open>
  \<open>Gathers c M N\<close>: the job collects channel \<open>c\<close>, has \<open>N\<close> of it and will have had
  \<open>M\<close>.
\<close>

datatype ticket =
    Yields "unordered option"
  | Sends nat ticket
  | Passing nat unordered
  | Gathers nat "unordered multiset" "unordered multiset"

primrec pays :: "ticket \<Rightarrow> unordered multiset" where
  "pays (Yields d) = as_mset d"
| "pays (Sends c k) = {#}"
| "pays (Passing c d) = {#}"
| "pays (Gathers c M N) = bag M"

primrec brings :: "nat \<Rightarrow> ticket \<Rightarrow> unordered multiset" where
  "brings c (Yields d) = {#}"
| "brings c (Sends e k) = (if e = c then pays k else {#}) + brings c k"
| "brings c (Passing e d) = (if e = c then {#d#} else {#})"
| "brings c (Gathers e M N) = (if e = c then N else {#})"

primrec goal :: "nat \<Rightarrow> ticket \<Rightarrow> unordered multiset" where
  "goal c (Yields d) = {#}"
| "goal c (Sends e k) = goal c k"
| "goal c (Passing e d) = {#}"
| "goal c (Gathers e M N) = (if e = c then M else {#})"

primrec ticket_of :: "'s job \<Rightarrow> ticket \<Rightarrow> bool" where
  "ticket_of (Work f) k \<longleftrightarrow> (\<exists>m. k = Yields (map_option digest m) \<and> results (\<lambda>x. x = m) f)"
| "ticket_of (Sent c j) k \<longleftrightarrow> (\<exists>i. k = Sends c i \<and> ticket_of j i)"
| "ticket_of (Sending c m) k \<longleftrightarrow> k = Passing c (digest m)"
| "ticket_of (Collect c ms) k \<longleftrightarrow> (\<exists>M. k = Gathers c M (digests ms))"

definition over :: "(ticket \<Rightarrow> unordered multiset) \<Rightarrow> ticket list \<Rightarrow> unordered multiset" where
  "over g ks = sum_list (map g ks)"

lemma over_simps [simp]:
  "over g [] = {#}" "over g (k # ks) = g k + over g ks" "over g (ks @ ls) = over g ks + over g ls"
  by (simp_all add: over_def)

lemma over_Sends [simp]:
  "over pays (map (Sends c) ks) = {#}"
  "over (brings d) (map (Sends c) ks) = (if c = d then over pays ks else {#}) + over (brings d) ks"
  "over (goal d) (map (Sends c) ks) = over (goal d) ks"
  by (induction ks) auto

lemma tickets_Sent:
  "list_all2 ticket_of js ks \<Longrightarrow> list_all2 ticket_of (map (Sent c) js) (map (Sends c) ks)"
  by (induction rule: list_all2_induct) auto

lemma goal_collects: "ticket_of j k \<Longrightarrow> collects c j = 0 \<Longrightarrow> goal c k = {#}"
  by (induction j arbitrary: k) (auto split: if_splits)

lemma brings_absent: "ticket_of j k \<Longrightarrow> holders c j = 0 \<Longrightarrow> collects c j = 0 \<Longrightarrow> brings c k = {#}"
  by (induction j arbitrary: k) (auto split: if_splits)

lemma goals_collects:
  assumes "list_all2 ticket_of js ks" and "total (collects c) js = 0"
  shows "over (goal c) ks = {#}"
  using assms by (induction rule: list_all2_induct) (simp_all add: goal_collects)

lemma tickets_absent:
  assumes "list_all2 ticket_of js ks" and "absent js c"
  shows "over (brings c) ks = {#}" and "over (goal c) ks = {#}"
  using assms by (induction rule: list_all2_induct) (simp_all add: absent_def brings_absent goal_collects)

text \<open>What waits in a channel.\<close>

definition held :: "nat \<Rightarrow> 's conn \<Rightarrow> unordered multiset" where
  "held c s = digests (chan_queue (chans s ! c))"

lemma held_cong: "chans t ! c = chans s ! c \<Longrightarrow> held c t = held c s"
  by (simp add: held_def)

section \<open>Polling\<close>

fun paid :: "'s outcome \<Rightarrow> unordered multiset" where
  "paid (Finished (Inr (Some m))) = {#digest m#}"
| "paid _ = {#}"

definition conserves :: "ticket \<Rightarrow> 's conn \<Rightarrow> 's outcome \<Rightarrow> 's conn \<Rightarrow> bool" where
  "conserves k s out t \<longleftrightarrow>
     (\<exists>ks. list_all2 ticket_of (left out) ks \<and> over pays ks + paid out = pays k \<and>
        (\<forall>c < length (chans s). chan_open (chans t ! c) \<longrightarrow>
           held c t + over (brings c) ks = held c s + brings c k \<and> over (goal c) ks = goal c k))"

lemma poll_sending_conserves:
  assumes "c < length (chans s)" and "poll_sending accepts c m s = (out, t)"
  shows "conserves (Passing c (digest m)) s out t"
proof -
  let ?ch = "chans s ! c"
  consider (closed) "\<not> chan_open ?ch" "out = Finished (Inl (shouldnt_happen m))" "t = sender_drop c s"
    | (sent) "out = Finished (Inr None)"
        "t = sender_drop c (set_chan c (?ch\<lparr>chan_queue := chan_queue ?ch @ [m]\<rparr>) s)"
    | (full) "out = Again (Sending c m)" "t = s"
    using assms(2) by (auto simp: poll_sending_def Let_def split: if_splits)
  then show ?thesis
  proof cases
    case closed
    then show ?thesis using assms(1)
      by (auto simp: conserves_def held_def chans_sender_drop nth_list_update)
  next
    case sent
    then show ?thesis using assms(1)
      by (auto simp: conserves_def held_def chans_sender_drop set_chan_def nth_list_update)
  next
    case full
    then show ?thesis by (auto simp: conserves_def intro!: exI [of _ "[Passing c (digest m)]"])
  qed
qed

lemma poll_collect_conserves:
  assumes "c < length (chans s)" and "poll_collect c acc s = (out, t)"
    and "chan_senders (chans s ! c) = 0 \<Longrightarrow> held c s + digests acc = M"
  shows "conserves (Gathers c M (digests acc)) s out t"
proof (cases "chan_senders (chans s ! c) = 0")
  case True
  then have M: "M = digests (acc @ chan_queue (chans s ! c))"
    using assms(3) by (simp add: held_def add.commute)
  have t: "chans t = (chans s)[c := (chans s ! c)\<lparr>chan_queue := [], chan_open := False\<rparr>]"
    using True assms(2) by (auto simp: poll_collect_def Let_def set_chan_def)
  have "left out = []" "paid out = bag M"
    using True assms(2) M by (auto simp: poll_collect_def Let_def bag_def)
  then show ?thesis using t assms(1) by (auto simp: conserves_def held_def nth_list_update)
next
  case False
  let ?ms = "acc @ chan_queue (chans s ! c)"
  have t: "chans t = (chans s)[c := (chans s ! c)\<lparr>chan_queue := []\<rparr>]" "out = Again (Collect c ?ms)"
    using False assms(2) by (auto simp: poll_collect_def Let_def set_chan_def)
  then show ?thesis using assms(1)
    by (auto simp: conserves_def held_def nth_list_update intro!: exI [of _ "[Gathers c M (digests ?ms)]"])
qed

lemma poll_work_conserves:
  assumes "results (\<lambda>x. x = m) f" and "poll_job accepts (Work f) s = (out, t)" and "out \<noteq> Panic"
    and "chans t = chans s"
  shows "conserves (Yields (map_option digest m)) s out t"
proof -
  obtain r u where p: "poll f s = (r, u)" by fastforce
  then consider (resolved) "r = Some (Inl m)" "out = Finished (Inr m)"
    | (again) g where "r = Some (Inr g)" "out = Again (Work g)" "results (\<lambda>x. x = m) g"
    using assms(1-3) by (auto split: option.splits sum.splits dest: results_value results_next)
  then show ?thesis
  proof cases
    case resolved
    then show ?thesis using assms(4) by (cases m) (auto simp: conserves_def held_def)
  next
    case again
    then show ?thesis using assms(4)
      by (auto simp: conserves_def held_def intro!: exI [of _ "[Yields (map_option digest m)]"])
  qed
qed

lemma held_sender_drop [simp]: "held d (sender_drop c s) = held d s"
  by (cases "c < length (chans s)"; cases "c = d")
     (simp_all add: held_def chans_sender_drop list_update_beyond)

lemma open_sender_drop [simp]: "chan_open (chans (sender_drop c s) ! d) = chan_open (chans s ! d)"
  by (cases "c < length (chans s)"; cases "c = d")
     (simp_all add: chans_sender_drop list_update_beyond)

lemma poll_job_conserves:
  assumes "backed j s" and "nested j" and "tame_job accepts j" and "ticket_of j k"
    and "poll_job accepts j s = (out, t)" and "out \<noteq> Panic"
    and "\<forall>c. 0 < collects c j \<and> chan_senders (chans s ! c) = 0 \<longrightarrow> held c s + brings c k = goal c k"
  shows "conserves k s out t"
  using assms
proof (induction j arbitrary: k out t)
  case (Work f)
  obtain r u where p: "poll f s = (r, u)" by fastforce
  then have "u = t" using Work.prems(5) by (auto split: option.splits sum.splits)
  with p have "chans t = chans s" using Work.prems(3) by (auto dest: tame_poll chans_apis)
  then show ?case using Work.prems(4,5,6) by (auto intro: poll_work_conserves)
next
  case (Sent c j)
  from Sent.prems(4) obtain i where k: "k = Sends c i" and i: "ticket_of j i" by auto
  obtain o' t' where inner: "poll_job accepts j s = (o', t')" by fastforce
  have c: "c < length (chans s)" and j: "backed j s" using backed_Sent [OF Sent.prems(1)] by blast+
  have "o' \<noteq> Panic" using inner Sent.prems(5,6) by auto
  have "\<forall>d. 0 < collects d j \<and> chan_senders (chans s ! d) = 0 \<longrightarrow> held d s + brings d i = goal d i"
  proof (intro allI impI)
    fix d assume d: "0 < collects d j \<and> chan_senders (chans s ! d) = 0"
    then have "c < d" using Sent.prems(2) by simp
    moreover have "held d s + brings d k = goal d k" using d Sent.prems(7) by simp
    ultimately show "held d s + brings d i = goal d i" by (simp add: k)
  qed
  with i j inner \<open>o' \<noteq> Panic\<close> Sent.prems(2,3) have ok: "conserves i s o' t'"
    by (intro Sent.IH) auto
  have len: "length (chans t') = length (chans s)"
    using poll_job_ok [OF j _ _ inner \<open>o' \<noteq> Panic\<close>] Sent.prems(2,3) by (simp add: step_ok_def)
  from ok obtain ks where ks: "list_all2 ticket_of (left o') ks" "over pays ks + paid o' = pays i"
    "\<And>d. d < length (chans s) \<Longrightarrow> chan_open (chans t' ! d) \<Longrightarrow>
       held d t' + over (brings d) ks = held d s + brings d i \<and> over (goal d) ks = goal d i"
    unfolding conserves_def by blast
  consider (again) h where "o' = Again h" "out = Again (Sent c h)" "t = t'"
    | (silent) "left o' = []" "paid o' = {#}" "left out = []" "paid out = {#}" "t = sender_drop c t'"
    | (message) m where "o' = Finished (Inr (Some m))" "poll_sending accepts c m t' = (out, t)"
    using inner Sent.prems(5) \<open>o' \<noteq> Panic\<close> by (auto split: outcome.splits sum.splits option.splits)
  then show ?case
  proof cases
    case again
    from again(1) ks(1) obtain i' where i': "ks = [i']" "ticket_of h i'"
      by (auto simp: list_all2_Cons1)
    show ?thesis
      unfolding conserves_def k
    proof (intro exI [of _ "[Sends c i']"] conjI allI impI)
      show "list_all2 ticket_of (left out) [Sends c i']" using again i' by simp
      show "over pays [Sends c i'] + paid out = pays (Sends c i)" using again by simp
      fix d assume d: "d < length (chans s)" "chan_open (chans t ! d)"
      have "pays i' = pays i" using ks(2) again(1) i' by simp
      then show "held d t + over (brings d) [Sends c i'] = held d s + brings d (Sends c i)"
        using ks(3) [OF d(1)] d(2) again(3) i' by (auto simp: ac_simps)
      show "over (goal d) [Sends c i'] = goal d (Sends c i)"
        using ks(3) [OF d(1)] d(2) again(3) i' by simp
    qed
  next
    case silent
    then have *: "ks = []" "pays i = {#}" using ks(1,2) by simp_all
    show ?thesis
      unfolding conserves_def k
      by (intro exI [of _ "[]"]) (use * ks(3) silent(3-5) in simp)
  next
    case message
    then have i': "ks = []" "pays i = {#digest m#}" using ks(1,2) by simp_all
    have "conserves (Passing c (digest m)) t' out t"
      by (rule poll_sending_conserves [OF _ message(2)]) (simp add: c len)
    then obtain ls where ls: "list_all2 ticket_of (left out) ls" "over pays ls + paid out = {#}"
      "\<And>d. d < length (chans s) \<Longrightarrow> chan_open (chans t ! d) \<Longrightarrow>
         held d t + over (brings d) ls = held d t' + brings d (Passing c (digest m)) \<and> over (goal d) ls = {#}"
      unfolding conserves_def by (auto simp: len)
    have opn: "chan_open (chans t' ! d)" if "chan_open (chans t ! d)" for d
      using that message(2)
      by (cases "c = d"; cases "c < length (chans t')")
         (auto simp: poll_sending_def Let_def chans_sender_drop set_chan_def list_update_beyond split: if_splits)
    show ?thesis
      unfolding conserves_def k
    proof (intro exI [of _ ls] conjI allI impI)
      show "list_all2 ticket_of (left out) ls" by (fact ls(1))
      show "over pays ls + paid out = pays (Sends c i)" using ls(2) by simp
      fix d assume d: "d < length (chans s)" "chan_open (chans t ! d)"
      note * = ks(3) [OF d(1) opn [OF d(2)]] ls(3) [OF d]
      show "held d t + over (brings d) ls = held d s + brings d (Sends c i)"
        using * i' by (auto simp: ac_simps)
      show "over (goal d) ls = goal d (Sends c i)" using * i' by simp
    qed
  qed
next
  case (Sending c m)
  have "c < length (chans s)" by (rule backed_range [OF Sending.prems(1)]) simp
  then show ?case using Sending.prems(4,5) by (auto intro: poll_sending_conserves)
next
  case (Collect c acc)
  have "c < length (chans s)" by (rule backed_range [OF Collect.prems(1)]) simp
  moreover obtain M where k: "k = Gathers c M (digests acc)" using Collect.prems(4) by auto
  moreover have "held c s + digests acc = M" if "chan_senders (chans s ! c) = 0"
    using that Collect.prems(7) [THEN spec, of c] by (simp add: k)
  ultimately show ?case using Collect.prems(5) poll_collect_conserves [of c s acc out t M] by simp
qed

end
