(* ===== verification/Schedules.thy ===== *)
theory Schedules
  imports Tickets
begin

text \<open>
  The replies of a connection under every schedule (\<open>src/src/endpoint.rs\<close>).  The jobs of an item
  are lodged with tickets that pay, together, the reply the item deserves; whichever job is polled
  next, and whatever the users of the handles do meanwhile, what has been sent and what the tickets
  still pay stay together what the items received so far deserve.
\<close>

section \<open>A server for methods, fast or slow\<close>

text \<open>
  The server offers the methods: it refuses what they do not know, and where it gives a future, that
  yields nothing but the outcome of the method, should it ever resolve.  The call itself does not stop
  the connection; the future may.
\<close>

definition tells :: "('v \<Rightarrow> 'x + value) \<Rightarrow> rpc_error + value \<Rightarrow> rpc_error + 'v \<Rightarrow> bool" where
  "tells to_value r x =
     (case x of
        Inl e \<Rightarrow> r = Inl e
      | Inr v \<Rightarrow> \<forall>j. to_value v = Inr j \<longrightarrow> r = Inr j)"

definition offers :: "('v \<Rightarrow> 'x + value) \<Rightarrow> ('s, 'v) server \<Rightarrow> methods \<Rightarrow> bool" where
  "offers to_value server f \<longleftrightarrow>
     (\<forall>m p s. stop (snd (rpc server m p s)) = stop s \<and>
        (case fst (rpc server m p s) of
           None \<Rightarrow> f m p = None
         | Some g \<Rightarrow> \<exists>r. f m p = Some r \<and> results (tells to_value r) g)) \<and>
     (\<forall>m p s. stop (snd (notify server m p s)) = stop s)"

lemma offers_rpc:
  assumes "offers to_value server f" and "rpc server m p s = (q, t)"
  shows "stop t = stop s" and "q = None \<Longrightarrow> f m p = None"
    and "q = Some g \<Longrightarrow> \<exists>r. f m p = Some r \<and> results (tells to_value r) g"
proof -
  have "stop (snd (rpc server m p s)) = stop s \<and>
      (case fst (rpc server m p s) of
         None \<Rightarrow> f m p = None
       | Some g \<Rightarrow> \<exists>r. f m p = Some r \<and> results (tells to_value r) g)"
    using assms(1) unfolding offers_def by blast
  then show "stop t = stop s" "q = None \<Longrightarrow> f m p = None"
    "q = Some g \<Longrightarrow> \<exists>r. f m p = Some r \<and> results (tells to_value r) g"
    using assms(2) by simp_all
qed

lemma offers_notify: "offers to_value server f \<Longrightarrow> notify server m p s = (q, t) \<Longrightarrow> stop t = stop s"
  unfolding offers_def by (metis snd_conv)

lemma request_reply_tells:
  "tells to_value r x \<Longrightarrow> f (req_method req) (req_params req) = Some r \<Longrightarrow>
   request_reply to_value req x = Some y \<Longrightarrow> y = Some (expected_request f req)"
  by (auto simp: tells_def request_reply_def ok_of_def split: sum.splits)

lemma do_request_ticket:
  assumes "offers to_value server f" and "do_request to_value server req s = (j, t)"
  shows "ticket_of j (Yields (Some (digest (expected_request f req)))) \<and> stop t = stop s"
proof -
  obtain q u where q: "rpc server (req_method req) (req_params req) s = (q, u)" by fastforce
  note offered = offers_rpc [OF assms(1) q]
  show ?thesis
  proof (cases q)
    case None
    with q assms(2) offered(1,2) show ?thesis
      by (auto simp: do_request_def intro: exI [of _ "Some (expected_request f req)"])
  next
    case (Some g)
    then obtain r where r: "f (req_method req) (req_params req) = Some r" "results (tells to_value r) g"
      using offered(3) by blast
    have "results (\<lambda>y. y = Some (expected_request f req)) (future_then (request_reply to_value req) g)"
      using r by (intro results_future_then [OF r(2)] request_reply_tells [of to_value r _ f req])
    with q Some assms(2) offered(1) show ?thesis
      by (auto simp: do_request_def intro!: exI [of _ "Some (expected_request f req)"]
          simp del: expected_request.simps)
  qed
qed

lemma do_notification_ticket:
  fixes server :: "('s, 'v) server"
  assumes "offers to_value server f" and "do_notification server notif s = (j, t)"
  shows "ticket_of j (Yields None) \<and> stop t = stop s"
proof -
  obtain q u where q: "notify server (notif_method notif) (notif_params notif) s = (q, u)" by fastforce
  have "results (\<lambda>y. y = (None :: message option)) (future_then (\<lambda>_. Some None) g)" for g :: "('s conn, unit + unit) future"
    by (rule results_future_then [OF results_True]) simp
  then show ?thesis using q assms(2) offers_notify [OF assms(1) q]
    by (auto simp: do_notification_def split: option.splits)
qed

section \<open>Lodging the jobs of an item\<close>

text \<open>Jobs with their tickets, and the accounts of the channels that are new between two states.\<close>

definition lodged :: "'s job list \<Rightarrow> ticket list \<Rightarrow> 's conn \<Rightarrow> 's conn \<Rightarrow> bool" where
  "lodged js ks s t \<longleftrightarrow>
     list_all2 ticket_of js ks \<and>
     (\<forall>d. length (chans s) \<le> d \<and> d < length (chans t) \<longrightarrow>
        held d t = {#} \<and> over (brings d) ks = over (goal d) ks)"

lemma lodged_none: "chans t = chans s \<Longrightarrow> lodged [] [] s t"
  by (auto simp: lodged_def)

lemma lodged_one: "ticket_of j k \<Longrightarrow> chans t = chans s \<Longrightarrow> lodged [j] [k] s t"
  by (auto simp: lodged_def)

lemma lodged_batch:
  assumes new: "new_channel n s = (c, s0)" and fed: "fed c n js s0 t" and js: "lodged js ks s0 t"
  shows "lodged (js @ [Collect c []]) (ks @ [Gathers c (over (brings c) ks) {#}]) s t"
proof -
  from new have c: "c = length (chans s)" and s0: "length (chans s0) = Suc c"
    "chans s0 ! c = \<lparr>capacity = n, chan_queue = [], chan_senders = 0, chan_open = True\<rparr>"
    by (auto simp: new_channel_def nth_append)
  have tickets: "list_all2 ticket_of js ks" using js by (simp add: lodged_def)
  have "over (goal c) ks = {#}" using fed by (intro goals_collects [OF tickets]) (simp add: fed_def)
  moreover have "held c t = {#}" using fed s0 by (simp add: fed_def held_def)
  moreover have "held d t = {#} \<and> over (brings d) ks = over (goal d) ks"
    if "c < d" "d < length (chans t)" for d
    using js that s0(1) by (simp add: lodged_def)
  moreover have "c \<le> d \<Longrightarrow> d = c \<or> c < d" for d by auto
  ultimately show ?thesis
    using tickets c by (auto simp: lodged_def list_all2_appendI)
qed

lemma lodged_Cons:
  assumes js: "lodged js ks s t" "fresh js s t"
    and ls: "lodged hs ls v u" "fed c n hs v u"
    and t: "v = sender_clones c (length js) t" and c: "c < length (chans s)"
  shows "lodged (map (Sent c) js @ hs) (map (Sends c) ks @ ls) s u"
    and "over (brings c) (map (Sends c) ks @ ls) = over pays ks + over (brings c) ls"
proof -
  have len: "length (chans v) = length (chans t)" "length (chans s) \<le> length (chans t)"
    using js(2) by (simp_all add: t fresh_def grown_def)
  have tickets: "list_all2 ticket_of js ks" "list_all2 ticket_of hs ls"
    using js(1) ls(1) by (simp_all add: lodged_def)
  have old: "absent js d" if "d < length (chans s)" for d using js(2) that by (simp add: fresh_def)
  have new: "absent js d" if "length (chans t) \<le> d" for d using js(2) that by (simp add: fresh_def grown_def)
  have rest: "absent hs d" "chans u ! d = chans t ! d" if "d \<noteq> c" "d < length (chans t)" for d
    using ls(2) that len by (simp_all add: fed_def t)
  show "over (brings c) (map (Sends c) ks @ ls) = over pays ks + over (brings c) ls"
    using tickets_absent [OF tickets(1) old [OF c]] by simp
  have "held d u = {#} \<and>
      over (brings d) (map (Sends c) ks @ ls) = over (goal d) (map (Sends c) ks @ ls)"
    if d: "length (chans s) \<le> d" "d < length (chans u)" for d
  proof (cases "d < length (chans t)")
    case True
    then have "held d t = {#}" "over (brings d) ks = over (goal d) ks"
      using js(1) d by (simp_all add: lodged_def)
    then show ?thesis
      using rest [of d] True c d(1) tickets_absent [OF tickets(2), of d] by (simp add: held_def)
  next
    case False
    then have "held d u = {#}" "over (brings d) ls = over (goal d) ls"
      using ls(1) d len by (simp_all add: lodged_def)
    then show ?thesis
      using tickets_absent [OF tickets(1) new, of d] False c d(1) by simp
  qed
  then show "lodged (map (Sent c) js @ hs) (map (Sends c) ks @ ls) s u"
    using tickets by (simp add: lodged_def list_all2_appendI tickets_Sent)
qed

text \<open>What an item is owed.\<close>

definition due :: "methods \<Rightarrow> parsed \<Rightarrow> unordered multiset" where
  "due f item = as_mset (map_option digest (expected_item f item))"

definition lodges :: "unordered multiset \<Rightarrow> 's job list \<Rightarrow> 's conn \<Rightarrow> 's conn \<Rightarrow> bool" where
  "lodges M js s t \<longleftrightarrow> (\<exists>ks. lodged js ks s t \<and> over pays ks = M) \<and> stop t = stop s"

definition lodges_subs :: "nat \<Rightarrow> unordered multiset \<Rightarrow> 's job list \<Rightarrow> 's conn \<Rightarrow> 's conn \<Rightarrow> bool" where
  "lodges_subs c M js s t \<longleftrightarrow>
     (\<exists>ks. lodged js ks s t \<and> over pays ks = {#} \<and> over (brings c) ks = M) \<and> stop t = stop s"

lemma stop_sender_clones [simp]: "stop (sender_clones c n s) = stop s"
  by (simp add: sender_clones_def set_chan_def Let_def)

lemma lodges_one:
  assumes "ticket_of j (Yields d) \<and> stop t = stop s" and "chans t = chans s"
  shows "lodges (as_mset d) [j] s t"
  using assms lodged_one [of j "Yields d" t s] by (auto simp: lodges_def intro!: exI [of _ "[Yields d]"])

lemma do_msg_lodged_induct:
  shows "server_contract accepts server \<longrightarrow> offers to_value server f \<longrightarrow> \<not> stop s \<longrightarrow>
      lodges (due f msg) (fst (do_msg to_value server msg s)) s (snd (do_msg to_value server msg s))"
    and "server_contract accepts server \<longrightarrow> offers to_value server f \<longrightarrow> \<not> stop s \<longrightarrow>
      lodges (bag (digests (somes (map (expected f) msgs))))
        (fst (do_batch to_value server msgs s)) s (snd (do_batch to_value server msgs s))"
    and "server_contract accepts server \<longrightarrow> offers to_value server f \<longrightarrow> \<not> stop s \<longrightarrow> c < length (chans s) \<longrightarrow>
      lodges_subs c (digests (somes (map (expected f) subs)))
        (fst (do_subs to_value server c subs s)) s (snd (do_subs to_value server c subs s))"
proof (induction to_value server msg s and to_value server msgs s and to_value server c subs s
    rule: do_msg_do_batch_do_subs.induct)
  case (1 to_value server msg s)
  show ?case
  proof (intro impI)
    assume contract: "server_contract accepts server" and offered: "offers to_value server f"
      and running: "\<not> stop s"
    have one: "lodges (as_mset (Some (digest m))) [Work (ready (Some m))] s s" for m
      by (rule lodges_one) (auto intro: exI [of _ "Some m"])
    show "lodges (due f msg) (fst (do_msg to_value server msg s)) s (snd (do_msg to_value server msg s))"
    proof (cases msg)
      case (Inl broken)
      with one running show ?thesis by (simp add: do_msg_running due_def)
    next
      case (Inr m)
      show ?thesis
      proof (cases m)
        case (Request req)
        obtain j t where j: "do_request to_value server req s = (j, t)" by fastforce
        have "chans t = chans s"
          using server_contract.do_request_fresh [OF contract j] chans_apis by blast
        from lodges_one [OF do_request_ticket [OF offered j] this] show ?thesis
          using Inr Request j running by (simp add: do_msg_running due_def del: expected_request.simps)
      next
        case (Notification notif)
        obtain j t where j: "do_notification server notif s = (j, t)" by fastforce
        have "chans t = chans s"
          using server_contract.do_notification_fresh [OF contract j] chans_apis by blast
        from lodges_one [OF do_notification_ticket [OF offered j] this] show ?thesis
          using Inr Notification j running by (simp add: do_msg_running due_def)
      next
        case (Batch batch)
        then show ?thesis
          using 1(1) [OF refl running Inr] contract offered running Inr
          by (simp add: do_msg_running due_def digest_batch_reply)
      next
        case (UnmatchedSub v)
        with one running Inr show ?thesis by (simp add: do_msg_running due_def)
      next
        case (Response r)
        then show ?thesis using running Inr lodged_none [of "do_response r s" s]
          by (auto simp: do_msg_running due_def lodges_def intro!: exI [of _ "[]"])
      qed
    qed
  qed
next
  case (2 to_value server msgs s)
  obtain c s0 where new: "new_channel (length msgs) s = (c, s0)" by fastforce
  obtain js t where subs: "do_subs to_value server c msgs s0 = (js, t)" by fastforce
  have c: "c < length (chans s0)" and stop: "stop s0 = stop s" using new by (auto simp: new_channel_def)
  show ?case
  proof (intro impI)
    assume contract: "server_contract accepts server" and offered: "offers to_value server f"
      and running: "\<not> stop s"
    let ?M = "digests (somes (map (expected f) msgs))"
    have "lodges_subs c ?M js s0 t"
      using 2 [OF new [symmetric] refl] contract offered running stop c subs by simp
    then obtain ks where ks: "lodged js ks s0 t" "over pays ks = {#}" "over (brings c) ks = ?M"
      and t: "stop t = stop s" unfolding lodges_subs_def stop by blast
    have "fed c (length msgs) js s0 t"
      using do_msg_fresh_induct(3) [of accepts server c s0 msgs to_value] contract subs c by simp
    from lodged_batch [OF new this ks(1)] show "lodges (bag ?M)
        (fst (do_batch to_value server msgs s)) s (snd (do_batch to_value server msgs s))"
      using ks t by (auto simp: do_batch.simps new subs lodges_def)
  qed
next
  case (3 to_value server c s)
  show ?case by (auto simp: lodges_subs_def lodged_none intro!: exI [of _ "[]"])
next
  case (4 to_value server c sub subs s)
  obtain js t where sub: "do_msg to_value server (Inr sub) s = (js, t)" by fastforce
  let ?t = "sender_clones c (length js) t"
  obtain hs u where subs: "do_subs to_value server c subs ?t = (hs, u)" by fastforce
  show ?case
  proof (intro impI)
    assume contract: "server_contract accepts server" and offered: "offers to_value server f"
      and running: "\<not> stop s" and c: "c < length (chans s)"
    let ?M = "digests (somes (map (expected f) subs))"
    have "lodges (due f (Inr sub)) js s t" using 4(1) contract offered running sub by simp
    then obtain ks where ks: "lodged js ks s t" "over pays ks = due f (Inr sub)" "stop t = stop s"
      unfolding lodges_def by blast
    have js: "fresh js s t"
      using do_msg_fresh_induct(1) [of accepts server to_value "Inr sub" s] contract sub by simp
    then have ct: "c < length (chans ?t)" using c by (simp add: fresh_def grown_def)
    then have "lodges_subs c ?M hs ?t u"
      using 4(2) [OF sub [symmetric] refl] contract offered running subs ks(3) by simp
    then obtain ls where ls: "lodged hs ls ?t u" "over pays ls = {#}" "over (brings c) ls = ?M"
      "stop u = stop ?t" unfolding lodges_subs_def by blast
    have "fed c (length subs) hs ?t u"
      using do_msg_fresh_induct(3) [of accepts server c ?t subs to_value] contract subs ct by simp
    note all = lodged_Cons [OF ks(1) js ls(1) this refl c]
    have "over (brings c) (map (Sends c) ks @ ls) = digests (somes (map (expected f) (sub # subs)))"
      by (simp add: all(2) ks(2) ls(3) due_def as_mset_as_list somes_Cons del: somes.simps over_simps over_Sends)
    with all(1) ls ks(3) show "lodges_subs c (digests (somes (map (expected f) (sub # subs))))
        (fst (do_subs to_value server c (sub # subs) s)) s
        (snd (do_subs to_value server c (sub # subs) s))"
      by (auto simp: lodges_subs_def sub subs intro!: exI [of _ "map (Sends c) ks @ ls"])
  qed
qed

section \<open>Runs\<close>

text \<open>A run from a state: what was seen, and where it led.\<close>

inductive run ::
  "room \<Rightarrow> ('v \<Rightarrow> 'x + value) \<Rightarrow> ('s, 'v) server \<Rightarrow> 's endpoint \<Rightarrow> label list \<Rightarrow> 's endpoint \<Rightarrow> bool"
  for accepts to_value server e0 where
  run_start: "run accepts to_value server e0 [] e0"
| run_step:
    "run accepts to_value server e0 ls e \<Longrightarrow> event accepts to_value server l e e' \<Longrightarrow>
     run accepts to_value server e0 (ls @ [l]) e'"

inductive_cases run_NilE: "run accepts to_value server e0 [] e"
  and run_snocE: "run accepts to_value server e0 (ls @ [l]) e"

lemma run_reachable:
  "run accepts to_value (the_server b) (start b x) ls e \<Longrightarrow> reachable accepts to_value b x e"
  by (induction rule: run.induct) (auto intro: reachable_start reachable_step event_step)

lemma reachable_run:
  "reachable accepts to_value b x e \<Longrightarrow> \<exists>ls. run accepts to_value (the_server b) (start b x) ls e"
  unfolding reachable_def
  by (induction rule: rtranclp_induct) (auto simp: step_def intro: run_start run_step)

text \<open>What the connection owes the other side for what was seen.\<close>

fun owing :: "methods \<Rightarrow> label \<Rightarrow> unordered multiset" where
  "owing f (Received item) = due f item"
| "owing f (Ignored item) = {#}"
| "owing f (Forwarded m) = {#digest m#}"
| "owing f Quiet = {#}"
| "owing f Used = {#}"

definition dues :: "methods \<Rightarrow> label list \<Rightarrow> unordered multiset" where
  "dues f ls = sum_list (map (owing f) ls)"

lemma dues_simps [simp]:
  "dues f [] = {#}" "dues f (l # ls) = owing f l + dues f ls" "dues f (ls @ ks) = dues f ls + dues f ks"
  by (simp_all add: dues_def)

section \<open>What is sent and what is still to pay\<close>

definition settled_account :: "ticket list \<Rightarrow> 's conn \<Rightarrow> nat \<Rightarrow> bool" where
  "settled_account ks s c \<longleftrightarrow>
     (chan_open (chans s ! c) \<longrightarrow> held c s + over (brings c) ks = over (goal c) ks)"

definition solvent :: "unordered multiset \<Rightarrow> 's endpoint \<Rightarrow> bool" where
  "solvent M e \<longleftrightarrow>
     (\<exists>ks. list_all2 ticket_of (pool e @ backlog e) ks \<and>
        (\<forall>c < length (chans (shared e)). settled_account ks (shared e) c) \<and>
        digests (wire e) + over pays ks = M)"

lemma solvent_cong:
  assumes "chans (shared e') = chans (shared e)" and "pool e' @ backlog e' = pool e @ backlog e"
    and "wire e' = wire e"
  shows "solvent M e' = solvent M e"
  using assms by (simp add: solvent_def settled_account_def held_def)

lemma over_replace:
  assumes "i < length ks"
  shows "over g (take i ks @ ls @ drop (Suc i) ks) + g (ks ! i) = over g ks + over g ls"
proof -
  have "over g ks = over g (take i ks) + over g (ks ! i # drop (Suc i) ks)"
    using id_take_nth_drop [OF assms] by (metis over_simps(3))
  then show ?thesis by (simp add: ac_simps)
qed

lemma over_rest:
  assumes "i < length ks"
  shows "over g ks = g (ks ! i) + over g (take i ks @ drop (Suc i) ks)"
  using over_replace [OF assms, of g "[]"] by (simp add: ac_simps)

lemma exchange:
  assumes "x' + a = x + (y :: 'a multiset)" and "h' + y = h + a"
  shows "h' + x' = h + x"
proof -
  have "h' + x' + a = h' + y + x" using assms(1) by (simp add: ac_simps)
  also have "\<dots> = h + x + a" using assms(2) by (simp add: ac_simps)
  finally show ?thesis by simp
qed

lemma tickets_replace:
  assumes "list_all2 P js ks" and "list_all2 P hs ls"
  shows "list_all2 P (take i js @ hs @ drop (Suc i) js) (take i ks @ ls @ drop (Suc i) ks)"
  using assms by (intro list_all2_appendI list_all2_takeI list_all2_dropI)

text \<open>A collecting job whose channel has no sender left finds what it is to have.\<close>

lemma collector_satisfied:
  assumes "jobs_ok accepts e" and "list_all2 ticket_of (pool e @ backlog e) ks"
    and "\<forall>c < length (chans (shared e)). settled_account ks (shared e) c"
    and i: "i < length (pool e @ backlog e)" and "0 < collects c ((pool e @ backlog e) ! i)"
    and "chan_senders (chans (shared e) ! c) = 0"
  shows "held c (shared e) + brings c (ks ! i) = goal c (ks ! i)"
proof -
  let ?js = "pool e @ backlog e"
  have len: "length ks = length ?js" using list_all2_lengthD [OF assms(2)] by simp
  note split = total_split [OF i]
  have c: "c < length (chans (shared e))"
    using jobs_okD(2) [OF assms(1), of c] split [of "collects c"] assms(5)
    by (rule_tac ccontr) (simp add: absent_def)
  from jobs_okD(1) [OF assms(1) c] have b: "total (holders c) ?js = 0"
    "total (collects c) ?js = (if chan_open (chans (shared e) ! c) then 1 else 0)"
    using assms(6) by (simp_all only: balanced_def Let_def)
  then have opn: "chan_open (chans (shared e) ! c)"
    using split [of "collects c"] assms(5) by (simp split: if_splits)
  have "list_all2 ticket_of (take i ?js @ drop (Suc i) ?js) (take i ks @ drop (Suc i) ks)"
    using tickets_replace [OF assms(2), of "[]" "[]" i] by simp
  moreover have "absent (take i ?js @ drop (Suc i) ?js) c"
    using b opn split [of "holders c"] split [of "collects c"] assms(5)
    by (simp add: absent_def del: total_simps(3))
  ultimately have "over (brings c) (take i ks @ drop (Suc i) ks) = {#}"
    "over (goal c) (take i ks @ drop (Suc i) ks) = {#}"
    by (rule tickets_absent)+
  moreover have "held c (shared e) + over (brings c) ks = over (goal c) ks"
    using assms(3) c opn by (simp add: settled_account_def)
  ultimately show ?thesis
    using over_rest [of i ks "brings c"] over_rest [of i ks "goal c"] i len by simp
qed

text \<open>One poll.\<close>

lemma digests_polled:
  assumes "poll_job accepts (pool e ! i) (shared e) = (out, t)"
  shows "digests (wire (polled accepts i e)) = digests (wire e) + paid out"
  using assms
  by (auto simp: polled_def Let_def transmitted_def split: outcome.split sum.split option.split)

lemma solvent_poll:
  assumes ok: "jobs_ok accepts e" and "solvent M e" and i: "i < length (pool e)"
    and poll: "poll_job accepts (pool e ! i) (shared e) = (out, t)" and "out \<noteq> Panic"
  shows "\<exists>ks. list_all2 ticket_of (take i (pool e) @ left out @ drop (Suc i) (pool e) @ backlog e) ks \<and>
    (\<forall>c < length (chans t). settled_account ks t c) \<and> digests (wire e) + paid out + over pays ks = M"
proof -
  let ?js = "pool e @ backlog e"
  from assms(2) obtain ks where ks: "list_all2 ticket_of ?js ks"
    "\<forall>c < length (chans (shared e)). settled_account ks (shared e) c"
    "digests (wire e) + over pays ks = M" unfolding solvent_def by blast
  have js: "i < length ?js" "?js ! i = pool e ! i" using i by (simp_all add: nth_append)
  have z: "i - length (pool e) = 0" "Suc i - length (pool e) = 0" using i by simp_all
  have len: "i < length ks" using list_all2_lengthD [OF ks(1)] js(1) by simp
  have k: "ticket_of (pool e ! i) (ks ! i)" using list_all2_nthD [OF ks(1) js(1)] js(2) by simp
  note job = jobs_ok_backed [OF ok i] jobs_okD(5,6) [OF ok]
  have j: "nested (pool e ! i)" "tame_job accepts (pool e ! i)"
    using job(2,3) i by (simp_all add: list_all_iff decent_def)
  have open_before: "chan_open (chans (shared e) ! c)"
    if "c < length (chans (shared e))" "chan_open (chans t ! c)" for c
    using jobs_ok_poll(2) [OF ok i poll assms(5)] that by (auto simp: step_ok_def moved_def split: if_splits)
  have length_t: "length (chans t) = length (chans (shared e))"
    using jobs_ok_poll(2) [OF ok i poll assms(5)] by (simp add: step_ok_def)
  have "conserves (ks ! i) (shared e) out t"
    using collector_satisfied [OF ok ks(1,2) js(1)] js(2)
    by (intro poll_job_conserves [OF job(1) j k poll assms(5)]) auto
  then obtain ls where ls: "list_all2 ticket_of (left out) ls" "over pays ls + paid out = pays (ks ! i)"
    "\<And>c. c < length (chans (shared e)) \<Longrightarrow> chan_open (chans t ! c) \<Longrightarrow>
       held c t + over (brings c) ls = held c (shared e) + brings c (ks ! i) \<and>
       over (goal c) ls = goal c (ks ! i)"
    unfolding conserves_def by blast
  let ?ks = "take i ks @ ls @ drop (Suc i) ks"
  note swap = over_replace [OF len, where ls = ls]
  have "list_all2 ticket_of (take i (pool e) @ left out @ drop (Suc i) (pool e) @ backlog e) ?ks"
    using tickets_replace [OF ks(1) ls(1), of i] z by simp
  moreover have "settled_account ?ks t c" if "c < length (chans t)" for c
    unfolding settled_account_def
  proof (rule impI)
    assume opn: "chan_open (chans t ! c)"
    have c: "c < length (chans (shared e))" using that length_t by simp
    have "held c (shared e) + over (brings c) ks = over (goal c) ks"
      using ks(2) c open_before [OF c opn] by (simp add: settled_account_def)
    moreover have "over (goal c) ?ks = over (goal c) ks"
      using swap [of "goal c"] ls(3) [OF c opn] by simp
    ultimately show "held c t + over (brings c) ?ks = over (goal c) ?ks"
      using exchange [OF swap [of "brings c"]] ls(3) [OF c opn] by simp
  qed
  moreover have "digests (wire e) + paid out + over pays ?ks = M"
  proof -
    have "paid out + over pays ls = {#} + pays (ks ! i)" using ls(2) by (simp add: add.commute)
    from exchange [OF swap [of pays] this] have "paid out + over pays ?ks = over pays ks" by simp
    then show ?thesis using ks(3) by (simp only: add.assoc)
  qed
  ultimately show ?thesis by blast
qed

lemma solvent_polled:
  assumes ok: "jobs_ok accepts e" and "solvent M e" and i: "i < length (pool e)"
  shows "digests (wire (polled accepts i e)) \<subseteq># M"
    and "running (polled accepts i e) \<Longrightarrow> solvent M (polled accepts i e)"
proof -
  obtain out t where poll: "poll_job accepts (pool e ! i) (shared e) = (out, t)" by fastforce
  note sent = digests_polled [OF poll]
  have now: "digests (wire e) \<subseteq># M" using assms(2) by (auto simp: solvent_def)
  have "digests (wire (polled accepts i e)) \<subseteq># M \<and>
    (running (polled accepts i e) \<longrightarrow> solvent M (polled accepts i e))"
  proof (cases "out = Panic")
    case True
    then show ?thesis using sent now poll by (simp add: polled_def running_def)
  next
    case False
    from solvent_poll [OF ok assms(2) i poll False] obtain ks where ks:
      "list_all2 ticket_of (take i (pool e) @ left out @ drop (Suc i) (pool e) @ backlog e) ks"
      "\<forall>c < length (chans t). settled_account ks t c" "digests (wire e) + paid out + over pays ks = M"
      by blast
    have "digests (wire (polled accepts i e)) \<subseteq># M" using sent ks(3) by (metis mset_subset_eq_add_left)
    moreover have "shared (polled accepts i e) = t \<and> backlog (polled accepts i e) = backlog e \<and>
        pool (polled accepts i e) = take i (pool e) @ left out @ drop (Suc i) (pool e)"
      if "running (polled accepts i e)"
      using that poll False
      by (auto simp: polled_def running_def transmitted_def Let_def
          split: outcome.splits sum.splits option.splits)
    ultimately show ?thesis using ks sent by (auto simp: solvent_def)
  qed
  then show "digests (wire (polled accepts i e)) \<subseteq># M"
    "running (polled accepts i e) \<Longrightarrow> solvent M (polled accepts i e)" by blast+
qed

text \<open>A new item.\<close>

lemma settled_append:
  assumes "over (brings c) ls = {#}" and "over (goal c) ls = {#}"
  shows "settled_account (ks @ ls) s c = settled_account ks s c"
    and "settled_account (ls @ ks) s c = settled_account ks s c"
  using assms by (simp_all add: settled_account_def)

lemma solvent_receive:
  assumes contract: "server_contract accepts server" and offered: "offers to_value server f"
    and ok: "jobs_ok accepts e" and e: "solvent M e" and "backlog e = []" and "\<not> stop (shared e)"
  shows "solvent (M + due f item) (receive to_value server item e)"
proof -
  obtain js t where msg: "do_msg to_value server item (shared e) = (js, t)" by fastforce
  have "lodges (due f item) js (shared e) t"
    using do_msg_lodged_induct(1) [of accepts server to_value f "shared e" item] contract offered assms(6) msg
    by simp
  then obtain ls where ls: "lodged js ls (shared e) t" "over pays ls = due f item"
    unfolding lodges_def by blast
  from e obtain ks where ks: "list_all2 ticket_of (pool e) ks"
    "\<And>c. c < length (chans (shared e)) \<Longrightarrow> settled_account ks (shared e) c"
    "digests (wire e) + over pays ks = M"
    unfolding solvent_def using assms(5) by auto
  note fresh = server_contract.do_msg_fresh(1) [OF contract msg, unfolded fresh_def grown_def]
  have tickets: "list_all2 ticket_of js ls" using ls(1) by (simp add: lodged_def)
  have "settled_account (ks @ ls) t c" if c: "c < length (chans t)" for c
  proof (cases "c < length (chans (shared e))")
    case True
    with fresh have "chans t ! c = chans (shared e) ! c" "absent js c" by auto
    with ks(2) [OF True] show ?thesis
      by (subst settled_append) (simp_all add: tickets_absent [OF tickets] settled_account_def held_def)
  next
    case False
    then have "absent (pool e) c" using jobs_okD(2) [OF ok, of c] assms(5) by simp
    moreover have "settled_account ls t c"
      using ls(1) False c by (simp add: lodged_def settled_account_def)
    ultimately show ?thesis by (subst settled_append) (simp_all add: tickets_absent [OF ks(1)])
  qed
  then show ?thesis
    using ks(1,3) ls(2) tickets msg
    by (auto simp: solvent_def receive_def list_all2_appendI ac_simps intro!: exI [of _ "ks @ ls"])
qed

lemma receive_stopped:
  assumes "stop (shared e)" and "backlog e = []"
  shows "chans (shared (receive to_value server item e)) = chans (shared e)"
    and "pool (receive to_value server item e) @ backlog (receive to_value server item e) =
      pool e @ backlog e"
  using assms by (auto simp: receive_def do_msg_stopped split: sum.split message.split)

lemma solvent_event:
  assumes contract: "server_contract accepts server" and offered: "offers to_value server f"
    and ok: "endpoint_ok accepts e" and step: "event accepts to_value server l e e'"
    and solvent: "running e \<Longrightarrow> solvent M e" and within: "digests (wire e) \<subseteq># M"
  shows "(running e' \<longrightarrow> solvent (M + owing f l) e') \<and> digests (wire e') \<subseteq># M + owing f l"
proof -
  have sent: "digests (wire e) \<subseteq># M + K" for K
    using within by (metis add.right_neutral subset_mset.add_mono subset_mset.zero_le)
  from step show ?thesis
  proof (cases rule: event.cases)
    case (event_receive item)
    then have e: "solvent M e" "backlog e = []" "jobs_ok accepts e"
      using solvent ok by (simp_all add: hungry_def endpoint_ok_def)
    have "wire e' = wire e" using event_receive by (simp add: receive_def split: prod.split)
    moreover have "solvent (M + owing f l) e'"
    proof (cases "stop (shared e)")
      case True
      with event_receive e(1) receive_stopped [OF True e(2), of to_value server item] show ?thesis
        using solvent_cong [of "receive to_value server item e" e M]
        by (simp add: received_def) (simp add: receive_def split: prod.split)
    next
      case False
      with event_receive solvent_receive [OF contract offered e(3,1,2)] show ?thesis
        by (simp add: received_def)
    qed
    ultimately show ?thesis using sent by simp
  next
    case event_end
    then show ?thesis using solvent within solvent_cong [of "cleaner e" e M]
      by (auto simp: hungry_def cleaner_def idmap_clear_def)
  next
    case event_terminator
    then show ?thesis using solvent within solvent_cong [of "e\<lparr>reading := False\<rparr>" e M]
      by (auto simp: hungry_def)
  next
    case (event_pull j js)
    then show ?thesis using solvent within solvent_cong [of e' e M] by auto
  next
    case (event_poll i)
    then show ?thesis using solvent_polled [of accepts e M i] solvent ok by (simp add: endpoint_ok_def)
  next
    case (event_forward m ms)
    then have "solvent M e" using solvent by simp
    then show ?thesis
      using event_forward within
      by (auto simp: solvent_def settled_account_def held_def ac_simps)
  next
    case (event_user t)
    then have "running e' = running e" by (simp add: running_def)
    then show ?thesis
      using event_user solvent within solvent_cong [of "e\<lparr>shared := t\<rparr>" e M] api_frame [of accepts "shared e" t]
      by auto
  qed (use within in \<open>auto simp: transmitted_def running_def\<close>)
qed

lemma solvent_run:
  assumes "server_contract accepts (the_server b)" and "offers to_value (the_server b) f"
    and "run accepts to_value (the_server b) (start b x) ls e"
  shows "(running e \<longrightarrow> solvent (dues f ls) e) \<and> digests (wire e) \<subseteq># dues f ls"
  using assms(3)
proof (induction rule: run.induct)
  case run_start
  have "chans (initialized (the_server b) (client_new (start_conn x))) = []"
    using apis_chans_outbox [OF server_contract.initialized_apis [OF assms(1)], of "client_new (start_conn x)"]
    by (simp add: start_conn_def)
  then show ?case by (simp add: solvent_def start_def Let_def)
next
  case (run_step ls e l e')
  have "endpoint_ok accepts e"
    by (rule reachable_ok [OF assms(1) run_reachable [OF run_step.hyps(1)]])
  from solvent_event [OF assms(1,2) this run_step.hyps(2)] run_step.IH show ?case by simp
qed

section \<open>Properties\<close>

text \<open>
  C5. The replies of a connection, whatever the schedule.  Take any run of an endpoint whose server
  offers methods: the outcome of a request depends on its method and its parameters only, fast or slow,
  and no callback stops the connection while it is being called (its future may, and so may users,
  the peer and the end of input).  With any parallelism and any interleaving of items, polls and uses
  of the handles, what has been sent is, up to the order of messages and of entries of batches, part of
  what is due: for each item received before the connection was stopped the reply it deserves, once,
  and the messages of the clients that were forwarded; and it is all of it as soon as no job is
  left on a running connection.  (A callback that stops the connection in the midst of a batch, as
  that of the documented server does, leaves the later entries of the batch unanswered: see the theory \<open>Greeter\<close>.)
\<close>

theorem replies_under_every_schedule:
  assumes "server_contract accepts (the_server b)" and "offers to_value (the_server b) f"
    and "run accepts to_value (the_server b) (start b x) ls e"
  shows "digests (wire e) \<subseteq># dues f ls \<and>
    (running e \<and> pool e = [] \<and> backlog e = [] \<longrightarrow> digests (wire e) = dues f ls)"
  using solvent_run [OF assms] by (auto simp: solvent_def)

lemma hello_offers: "offers as_is (the_server hello) hello_methods"
  by (simp add: offers_def hello_server_def hello_methods_def default_notification_def tells_def)

definition ask_hello :: request where
  "ask_hello = \<lparr>req_jsonrpc = Version, req_method = ''hello'', req_params = None, req_id = Null\<rparr>"

definition hello_job :: "unit job" where
  "hello_job = Work (future_then (request_reply as_is ask_hello) (ready (Inr (String ''world''))))"

definition working_hello :: "unit endpoint" where
  "working_hello = idle\<lparr>pool := [hello_job]\<rparr>"

definition answered_hello :: "unit endpoint" where
  "answered_hello = idle\<lparr>wire := [reply ask_hello (String ''world'')]\<rparr>"

lemma run_working_hello:
  "run exact as_is (the_server hello) (start hello ()) [Received (Inr (Request ask_hello)), Quiet] working_hello"
proof -
  let ?item = "Inr (Request ask_hello) :: parsed"
  let ?e1 = "idle\<lparr>backlog := [hello_job]\<rparr>"
  have "receive as_is hello_server ?item idle = ?e1"
    by (simp add: receive_def do_msg_running do_request_def hello_server_def ask_hello_def hello_job_def)
  moreover have "received ?item idle = Received ?item" by (simp add: received_def)
  ultimately have 1: "event exact as_is hello_server (Received ?item) idle ?e1"
    using event_receive [of idle exact as_is hello_server ?item] by (simp add: hungry_def running_def)
  have pulled: "?e1\<lparr>backlog := [], pool := pool ?e1 @ [hello_job]\<rparr> = working_hello"
    by (cases idle) (use idle_fields in \<open>simp add: working_hello_def\<close>)
  have 2: "event exact as_is hello_server Quiet ?e1 working_hello"
    using event_pull [of ?e1 hello_job "[]" exact as_is hello_server] unfolding pulled
    by (simp add: running_def)
  show ?thesis using run_step [OF run_step [OF run_start 1] 2] by (simp add: idle_def)
qed

lemma polled_working_hello: "polled exact 0 working_hello = answered_hello"
  by (cases idle) (use idle_fields in
    \<open>simp add: polled_def poll_future_then request_reply_def ok_of_def answered_hello_def
       working_hello_def hello_job_def\<close>)

lemma run_hello:
  "run exact as_is (the_server hello) (start hello ()) [Received (Inr (Request ask_hello)), Quiet, Quiet] answered_hello"
proof -
  have "event exact as_is hello_server Quiet working_hello answered_hello"
    using event_poll [of working_hello 0 exact as_is hello_server]
    by (simp add: polled_working_hello) (simp add: running_def working_hello_def)
  then show ?thesis using run_step [OF run_working_hello] by simp
qed

theorem replies_under_every_schedule_witness:
  "digests (wire answered_hello) = {#digest (reply ask_hello (String ''world''))#}"
  using replies_under_every_schedule [OF hello_contract hello_offers run_hello]
  by (simp add: answered_hello_def running_def due_def ask_hello_def hello_methods_def)

end
