(* ===== verification/Wire.thy ===== *)
theory Wire
  imports Schedules
begin

text \<open>
  What can be on the wire at all (\<open>src/src/endpoint.rs\<close>): the type of the messages an endpoint
  sends, the room it takes, and that polling comes to an end.
\<close>

section \<open>The type of what is sent\<close>

text \<open>Answers are responses and non-empty batches of answers; a client sends requests and notifications.\<close>

primrec answering :: "message \<Rightarrow> bool" where
  "answering (Request r) = False"
| "answering (Response r) = True"
| "answering (Notification n) = False"
| "answering (Batch ms) \<longleftrightarrow> ms \<noteq> [] \<and> list_all answering ms"
| "answering (UnmatchedSub v) = False"

fun asking :: "message \<Rightarrow> bool" where
  "asking (Request r) = True"
| "asking (Notification n) = True"
| "asking _ = False"

definition answers_only :: "message option \<Rightarrow> bool" where
  "answers_only x \<longleftrightarrow> (\<forall>m. x = Some m \<longrightarrow> answering m)"

lemma answers_only_simps [simp]: "answers_only None" "answers_only (Some m) = answering m"
  by (simp_all add: answers_only_def)

lemma answer_serializable: "answering m \<Longrightarrow> serializable m"
  by (induction m) (auto simp: list_all_iff)

lemma asking_serializable: "asking m \<Longrightarrow> serializable m"
  by (cases m) auto

lemma encode_serializable: "serializable m \<Longrightarrow> fst (encode_codec lib m buf) = Inr ()"
  using ser_message_serializable(1) [of m] by (auto simp: encode_codec_def to_vec_def)

lemma answer_constructors [simp]:
  "answering (reply req v)" "answering (reply_error req e)" "answering (broken_reply b)"
  by (simp_all add: reply_def reply_error_def) (cases b; simp add: message_error_def)

lemma answers_request_reply: "request_reply to_value req x = Some y \<Longrightarrow> answers_only y"
  by (auto simp: request_reply_def split: sum.splits)

primrec typed_job :: "'s job \<Rightarrow> bool" where
  "typed_job (Work f) = results answers_only f"
| "typed_job (Sent c j) = typed_job j"
| "typed_job (Sending c m) = answering m"
| "typed_job (Collect c ms) = list_all answering ms"

definition typed_conn :: "'s conn \<Rightarrow> bool" where
  "typed_conn s \<longleftrightarrow>
     (\<forall>ch \<in> set (chans s). list_all answering (chan_queue ch)) \<and> list_all asking (outbox s)"

lemma typed_connD: "typed_conn s \<Longrightarrow> c < length (chans s) \<Longrightarrow> list_all answering (chan_queue (chans s ! c))"
  by (simp add: typed_conn_def)

lemma typed_set_chan:
  "typed_conn s \<Longrightarrow> list_all answering (chan_queue ch) \<Longrightarrow> typed_conn (set_chan c ch s)"
  by (auto simp: typed_conn_def set_chan_def dest!: set_update_subset_insert [THEN subsetD])

lemma typed_sender_drop: "typed_conn s \<Longrightarrow> c < length (chans s) \<Longrightarrow> typed_conn (sender_drop c s)"
  by (simp add: sender_drop_def Let_def typed_set_chan typed_connD)

lemma typed_api: "api accepts s t \<Longrightarrow> typed_conn s \<Longrightarrow> typed_conn t"
  by (induction rule: api.induct)
     (auto simp: typed_conn_def client_def client_clone_new client_call_def call_sent_poll_def notify_poll_def
       answer_poll_def received_poll_def send_poll_def rc_clone_def Let_def client_notify_def
       message_notification_def message_request_def
       split: option.splits sum.splits prod.splits poll.splits slot.splits if_splits)

lemma typed_apis: "apis accepts s t \<Longrightarrow> typed_conn s \<Longrightarrow> typed_conn t"
  by (induction rule: rtranclp_induct) (auto intro: typed_api)

lemma typed_do_response: "typed_conn s \<Longrightarrow> typed_conn (do_response r s)"
  by (simp add: do_response_def typed_conn_def split: option.split)

definition typed_out :: "'s outcome \<Rightarrow> bool" where
  "typed_out out \<longleftrightarrow> list_all typed_job (left out) \<and> (\<forall>r. out = Finished (Inr r) \<longrightarrow> answers_only r)"

lemma typed_poll_sending:
  assumes "answering m" and "c < length (chans s)" and "typed_conn s" and "poll_sending accepts c m s = (out, t)"
  shows "typed_out out \<and> typed_conn t"
  using assms
  by (auto simp: poll_sending_def typed_out_def Let_def typed_sender_drop split: if_splits
      intro!: typed_sender_drop typed_set_chan dest: typed_connD)

lemma typed_poll_job:
  assumes "typed_job j" and "tame_job accepts j" and "\<forall>c. 0 < holders c j + collects c j \<longrightarrow> c < length (chans s)"
    and "typed_conn s" and "poll_job accepts j s = (out, t)"
  shows "typed_out out \<and> typed_conn t \<and> length (chans t) = length (chans s)"
  using assms
proof (induction j arbitrary: out t)
  case (Work f)
  obtain r u where p: "poll f s = (r, u)" by fastforce
  then have "apis accepts s u" using Work.prems(2) by (auto dest: tame_poll)
  then have "typed_conn u" "chans u = chans s"
    using Work.prems(4) by (auto intro: typed_apis dest: chans_apis)
  then show ?case using p Work.prems(1,5)
    by (auto simp: typed_out_def split: option.splits sum.splits dest: results_value results_next)
next
  case (Sent c j)
  obtain o' t' where inner: "poll_job accepts j s = (o', t')" by fastforce
  have "\<forall>d. 0 < holders d j + collects d j \<longrightarrow> d < length (chans s)" using Sent.prems(3) by auto
  with Sent inner have ok: "typed_out o'" "typed_conn t'" "length (chans t') = length (chans s)" by auto
  have c: "c < length (chans t')" using Sent.prems(3) ok(3) by auto
  have dropped: "length (chans (sender_drop c t')) = length (chans s)"
    using ok(3) by (simp add: chans_sender_drop)
  show ?case
  proof (cases "\<exists>m. o' = Finished (Inr (Some m))")
    case True
    then obtain m where m: "o' = Finished (Inr (Some m))" by blast
    then have sending: "poll_sending accepts c m t' = (out, t)" using inner Sent.prems(5) by simp
    have "answering m" using ok(1) m by (simp add: typed_out_def)
    with typed_poll_sending [OF this c ok(2) sending] sending ok(3) show ?thesis
      by (auto simp: poll_sending_def Let_def sender_drop_def set_chan_def split: if_splits)
  next
    case False
    then show ?thesis using inner Sent.prems(5) ok c dropped typed_sender_drop [OF ok(2) c]
      by (auto simp: typed_out_def split: outcome.splits sum.splits option.splits)
  qed
next
  case (Sending c m)
  have "c < length (chans s)" using Sending.prems(3) by auto
  with Sending typed_poll_sending [of m c s accepts out t] show ?case
    by (auto simp: poll_sending_def Let_def sender_drop_def set_chan_def split: if_splits)
next
  case (Collect c acc)
  then have "c < length (chans s)" by auto
  then have "list_all answering (acc @ chan_queue (chans s ! c))"
    using Collect.prems(1,4) by (simp add: typed_connD)
  then show ?case using Collect.prems(4,5)
    by (auto simp: poll_collect_def Let_def typed_out_def set_chan_def [symmetric]
        intro!: typed_set_chan split: if_splits)
qed

lemma typed_future_then:
  "(\<And>a b. g a = Some b \<Longrightarrow> answers_only b) \<Longrightarrow> typed_job (Work (future_then g f))"
  by (simp add: results_future_then [OF results_True])

lemma typed_do_request: "typed_job (fst (do_request to_value server req s))"
  by (auto simp: do_request_def split: prod.split option.split simp del: typed_job.simps(1)
      intro: typed_future_then answers_request_reply) simp

lemma typed_do_notification: "typed_job (fst (do_notification server notif s))"
  by (auto simp: do_notification_def split: prod.split option.split simp del: typed_job.simps(1)
      intro: typed_future_then) simp

lemma typed_sender_clones: "typed_conn s \<Longrightarrow> typed_conn (sender_clones c n s)"
  by (cases "c < length (chans s)")
     (auto simp: sender_clones_def Let_def typed_set_chan typed_connD,
      simp add: set_chan_def list_update_beyond)

lemma list_all_typed_Sent [simp]: "list_all typed_job (map (Sent c) js) = list_all typed_job js"
  by (simp add: list_all_iff)

lemma do_msg_typed_induct:
  "server_contract accepts server \<longrightarrow> typed_conn s \<longrightarrow>
     list_all typed_job (fst (do_msg to_value server msg s)) \<and> typed_conn (snd (do_msg to_value server msg s))"
  "server_contract accepts server \<longrightarrow> typed_conn s \<longrightarrow>
     list_all typed_job (fst (do_batch to_value server msgs s)) \<and> typed_conn (snd (do_batch to_value server msgs s))"
  "server_contract accepts server \<longrightarrow> typed_conn s \<longrightarrow>
     list_all typed_job (fst (do_subs to_value server c subs s)) \<and>
     typed_conn (snd (do_subs to_value server c subs s))"
proof (induction to_value server msg s and to_value server msgs s and to_value server c subs s
    rule: do_msg_do_batch_do_subs.induct)
  case (1 to_value server msg s)
  show ?case
  proof (cases "stop s")
    case True
    then show ?thesis by (simp add: do_msg_stopped typed_do_response split: sum.split message.split)
  next
    case running: False
    show ?thesis
    proof (intro impI)
      assume contract: "server_contract accepts server" and ok: "typed_conn s"
      show "list_all typed_job (fst (do_msg to_value server msg s)) \<and>
        typed_conn (snd (do_msg to_value server msg s))"
      proof (cases msg)
        case (Inl broken)
        then show ?thesis using running ok by (simp add: do_msg_running)
      next
        case (Inr m)
        show ?thesis
        proof (cases m)
          case (Request req)
          obtain j t where "do_request to_value server req s = (j, t)" by fastforce
          with server_contract.do_request_fresh [OF contract this] ok Inr Request running
            typed_do_request [of to_value server req s]
          show ?thesis by (auto simp: do_msg_running intro: typed_apis)
        next
          case (Notification notif)
          obtain j t where "do_notification server notif s = (j, t)" by fastforce
          with server_contract.do_notification_fresh [OF contract this] ok Inr Notification running
            typed_do_notification [of server notif s]
          show ?thesis by (auto simp: do_msg_running intro: typed_apis)
        next
          case (Batch batch)
          then show ?thesis
            using 1(1) [OF refl running Inr] contract ok running Inr by (simp add: do_msg_running)
        qed (use ok Inr running in \<open>simp_all add: do_msg_running typed_do_response message_error_def\<close>)
      qed
    qed
  qed
next
  case (2 to_value server msgs s)
  obtain c s0 where new: "new_channel (length msgs) s = (c, s0)" by fastforce
  obtain js t where subs: "do_subs to_value server c msgs s0 = (js, t)" by fastforce
  have "typed_conn s \<Longrightarrow> typed_conn s0" using new by (auto simp: new_channel_def typed_conn_def)
  then show ?case using 2 [OF new [symmetric] refl] by (simp add: do_batch.simps new subs)
next
  case (4 to_value server c sub subs s)
  obtain js t where sub: "do_msg to_value server (Inr sub) s = (js, t)" by fastforce
  obtain ks u where subs: "do_subs to_value server c subs (sender_clones c (length js) t) = (ks, u)"
    by fastforce
  show ?case using 4(1) 4(2) [OF sub [symmetric] refl] typed_sender_clones [of t c "length js"]
    by (simp add: sub subs)
qed simp

text \<open>All of an endpoint.\<close>

definition sendable :: "message \<Rightarrow> bool" where
  "sendable m \<longleftrightarrow> answering m \<or> asking m"

definition typed_endpoint :: "'s endpoint \<Rightarrow> bool" where
  "typed_endpoint e \<longleftrightarrow>
     typed_conn (shared e) \<and> list_all typed_job (pool e @ backlog e) \<and> list_all sendable (wire e)"

lemma typed_transmitted: "typed_endpoint e \<Longrightarrow> typed_endpoint (transmitted r e)"
  by (simp add: typed_endpoint_def transmitted_def typed_conn_def idmap_clear_def)

lemma typed_polled:
  assumes "typed_endpoint e" and ok: "jobs_ok accepts e" and i: "i < length (pool e)"
  shows "typed_endpoint (polled accepts i e)"
proof -
  obtain out t where poll: "poll_job accepts (pool e ! i) (shared e) = (out, t)" by fastforce
  have "typed_job (pool e ! i)" "tame_job accepts (pool e ! i)"
    using assms jobs_okD(6) [OF ok] by (simp_all add: typed_endpoint_def list_all_iff decent_def)
  then have new: "typed_out out" "typed_conn t"
    using typed_poll_job [OF _ _ _ _ poll] assms(1) backed_range [OF jobs_ok_backed [OF ok i]]
    by (auto simp: typed_endpoint_def)
  let ?e = "e\<lparr>shared := t, pool := take i (pool e) @ left out @ drop (Suc i) (pool e)\<rparr>"
  have e: "typed_endpoint ?e"
    using assms(1) new by (auto simp: typed_endpoint_def typed_out_def list_all_iff dest: in_set_takeD in_set_dropD)
  have "typed_endpoint (?e\<lparr>wire := wire ?e @ [m]\<rparr>)" if "out = Finished (Inr (Some m))" for m
    using e new(1) that by (simp add: typed_endpoint_def typed_out_def sendable_def)
  moreover have "typed_endpoint (?e\<lparr>crashed := True\<rparr>)" using e by (simp add: typed_endpoint_def)
  ultimately show ?thesis using e poll typed_transmitted [OF e]
    by (auto simp: polled_def Let_def split: outcome.split sum.split option.split)
qed

lemma typed_step:
  assumes "server_contract accepts server" and "endpoint_ok accepts e" and "step accepts to_value server e e'"
    and e: "typed_endpoint e"
  shows "typed_endpoint e'"
  using assms(3)
proof (cases rule: step_cases)
  case (step_receive item)
  then show ?thesis
    using do_msg_typed_induct(1) [of accepts server "shared e" to_value item] assms(1) e
    by (cases "do_msg to_value server item (shared e)") (simp add: receive_def typed_endpoint_def)
next
  case (step_poll i)
  then show ?thesis using assms(2) e by (simp add: endpoint_ok_def typed_polled)
next
  case (step_user t)
  then show ?thesis using e typed_api [of accepts "shared e" t] by (simp add: typed_endpoint_def)
next
  case (step_forward m ms)
  then show ?thesis using e by (simp add: typed_endpoint_def typed_conn_def sendable_def)
qed (use e typed_transmitted [OF e] in
    \<open>auto simp: typed_endpoint_def cleaner_def typed_conn_def idmap_clear_def\<close>)

lemma typed_reachable:
  assumes "server_contract accepts (the_server b)" and "reachable accepts to_value b x e"
  shows "typed_endpoint e"
  using assms(2) unfolding reachable_def
proof (induction rule: rtranclp_induct)
  case base
  have "typed_conn (client_new (start_conn x))" by (simp add: typed_conn_def start_conn_def)
  then have "typed_conn (initialized (the_server b) (client_new (start_conn x)))"
    by (rule typed_apis [OF server_contract.initialized_apis [OF assms(1)]])
  then show ?case by (simp add: typed_endpoint_def typed_conn_def start_def Let_def)
next
  case (step e e')
  have "endpoint_ok accepts e"
    by (rule reachable_ok [OF assms(1)]) (use step.hyps(1) in \<open>simp add: reachable_def\<close>)
  then show ?case by (rule typed_step [OF assms(1) _ step.hyps(2) step.IH])
qed

section \<open>Properties\<close>

text \<open>
  C12. The type of the wire: whatever the server does, an endpoint sends only requests and
  notifications of its clients, responses, and non-empty batches of answers; so what it sends
  always serializes, and the codec never ends the connection.
\<close>

theorem wire_well_typed:
  assumes "server_contract accepts (the_server b)" and "reachable accepts to_value b x e"
    and "m \<in> set (wire e)"
  shows "(answering m \<or> asking m) \<and> fst (encode_codec lib m buf) = Inr ()"
proof -
  have "sendable m" using typed_reachable [OF assms(1,2)] assms(3) by (simp add: typed_endpoint_def list_all_iff)
  then show ?thesis
    by (auto simp: sendable_def intro: encode_serializable answer_serializable asking_serializable)
qed

theorem wire_well_typed_witness:
  "\<forall>lib buf. fst (encode_codec lib (reply ask_hello (String ''world'')) buf) = Inr ()"
  using wire_well_typed [OF hello_contract run_reachable [OF run_hello]]
  by (simp add: answered_hello_def)

end
