(* ===== verification/Limits.thy ===== *)
theory Limits
  imports Wire
begin

text \<open>
  The room a connection takes and how much it sends, measured by the items it has received, and that
  polling comes to an end (\<open>src/src/endpoint.rs\<close>).
\<close>

section \<open>Bounds\<close>

text \<open>A bounded channel holds at most \<open>k\<close> messages beyond its capacity.\<close>

definition strict :: "nat \<Rightarrow> room \<Rightarrow> bool" where
  "strict k accepts \<longleftrightarrow> (\<forall>c n. accepts c n \<longrightarrow> n < c + k)"

definition outbox_within :: "nat \<Rightarrow> 's conn \<Rightarrow> bool" where
  "outbox_within n s \<longleftrightarrow> length (outbox s) \<le> n"

lemma outbox_within_chans: "outbox_within n s \<Longrightarrow> outbox_within n (s\<lparr>chans := cs\<rparr>)"
  by (simp add: outbox_within_def)

lemma api_outbox:
  "api accepts s t \<Longrightarrow>
   outbox t = outbox s \<or> (\<exists>m. outbox t = outbox s @ [m] \<and> accepts outgoing_capacity (length (outbox s)))"
  by (induction rule: api.induct)
     (auto simp: client_def client_clone_new client_call_def call_sent_poll_def notify_poll_def
       answer_poll_def received_poll_def send_poll_def rc_clone_def Let_def
       split: option.splits sum.splits prod.splits poll.splits slot.splits if_splits)

lemma outbox_within_api:
  "strict k accepts \<Longrightarrow> api accepts s t \<Longrightarrow> outbox_within (outgoing_capacity + k) s \<Longrightarrow>
   outbox_within (outgoing_capacity + k) t"
  by (drule api_outbox) (auto simp: outbox_within_def strict_def Suc_le_eq)

lemma outbox_within_do_response: "outbox_within n s \<Longrightarrow> outbox_within n (do_response r s)"
  by (simp add: outbox_within_def do_response_def split: option.split)

lemma outbox_within_step:
  assumes "strict k accepts" and "server_contract accepts server" and "endpoint_ok accepts e"
    and "step accepts to_value server e e'" and e: "outbox_within (outgoing_capacity + k) (shared e)"
  shows "outbox_within (outgoing_capacity + k) (shared e')"
  using assms(4)
proof (cases rule: step_cases)
  case (step_receive item)
  obtain js t where msg: "do_msg to_value server item (shared e) = (js, t)" by fastforce
  have "outbox_within (outgoing_capacity + k) t"
    using msg e
    by (rule server_contract.do_msg_keeps [OF assms(2)])
       (auto intro: outbox_within_api [OF assms(1)] outbox_within_chans outbox_within_do_response)
  then show ?thesis using step_receive msg by (simp add: receive_def)
next
  case (step_poll i)
  then have "tame_job accepts (pool e ! i)"
    using assms(3) by (auto simp: endpoint_ok_def jobs_ok_def decent_def list_all_iff)
  then have t: "outbox_within (outgoing_capacity + k) (snd (poll_job accepts (pool e ! i) (shared e)))"
    using e by (rule poll_job_keeps) (auto intro: outbox_within_api [OF assms(1)] outbox_within_chans)
  then show ?thesis using step_poll
    by (auto simp: polled_def transmitted_def outbox_within_def Let_def
        split: prod.split outcome.split sum.split option.split)
qed (use e outbox_within_api [OF assms(1)] in
    \<open>auto simp: outbox_within_def transmitted_def cleaner_def idmap_clear_def\<close>)

lemma outbox_within_start:
  assumes "strict k accepts" and "server_contract accepts (the_server b)"
  shows "outbox_within (outgoing_capacity + k) (shared (start b x))"
proof -
  have "outbox_within (outgoing_capacity + k) t" if "apis accepts (client_new (start_conn x)) t" for t
    using that
  proof (induction rule: rtranclp_induct)
    case base
    show ?case by (simp add: outbox_within_def start_conn_def)
  qed (rule outbox_within_api [OF assms(1)])
  then have "outbox_within (outgoing_capacity + k) (initialized (the_server b) (client_new (start_conn x)))"
    using server_contract.initialized_apis [OF assms(2)] by blast
  then show ?thesis by (simp add: start_def outbox_within_def Let_def)
qed

lemma outbox_within_reachable:
  assumes "strict k accepts" and "server_contract accepts (the_server b)"
    and "reachable accepts to_value b x e"
  shows "outbox_within (outgoing_capacity + k) (shared e)"
  using assms(3) unfolding reachable_def
proof (induction rule: rtranclp_induct)
  case base
  show ?case by (rule outbox_within_start [OF assms(1,2)])
next
  case (step e e')
  have "endpoint_ok accepts e"
    by (rule reachable_ok [OF assms(2)]) (use step.hyps(1) in \<open>simp add: reachable_def\<close>)
  then show ?case by (rule outbox_within_step [OF assms(1,2) _ step.hyps(2) step.IH])
qed

section \<open>The channels of batches\<close>

text \<open>The batches in a message: itself, when it is one, and those among its entries.\<close>

fun batches :: "message \<Rightarrow> message list list" where
  "batches (Batch ms) = ms # concat (map batches ms)"
| "batches _ = []"

definition item_batches :: "parsed \<Rightarrow> message list list" where
  "item_batches item = (case item of Inl _ \<Rightarrow> [] | Inr m \<Rightarrow> batches m)"

lemma item_batches_simps [simp]: "item_batches (Inl b) = []" "item_batches (Inr m) = batches m"
  by (simp_all add: item_batches_def)

definition capacities :: "'s conn \<Rightarrow> nat list" where
  "capacities s = map capacity (chans s)"

lemma capacities_same_chans: "chans t = chans s \<Longrightarrow> capacities t = capacities s"
  by (simp add: capacities_def)

lemma capacities_set_chan: "capacity ch = capacity (chans s ! c) \<Longrightarrow> capacities (set_chan c ch s) = capacities s"
  by (cases "c < length (chans s)")
     (simp_all add: capacities_def set_chan_def map_update list_update_same_conv list_update_beyond)

lemma capacities_sender_clones [simp]: "capacities (sender_clones c n s) = capacities s"
  by (simp add: sender_clones_def Let_def capacities_set_chan)

lemma capacities_sender_drop [simp]: "capacities (sender_drop c s) = capacities s"
  by (simp add: sender_drop_def Let_def capacities_set_chan)

lemma capacities_poll_sending: "poll_sending accepts c m s = (out, t) \<Longrightarrow> capacities t = capacities s"
  by (auto simp: poll_sending_def Let_def capacities_set_chan split: if_splits)

lemma capacities_poll_job:
  "tame_job accepts j \<Longrightarrow> poll_job accepts j s = (out, t) \<Longrightarrow> capacities t = capacities s"
proof (induction j arbitrary: out t)
  case (Work f)
  obtain r u where p: "poll f s = (r, u)" by fastforce
  with Work have "capacities u = capacities s"
    by (auto dest: tame_poll chans_apis intro: capacities_same_chans)
  with p Work.prems(2) show ?case by (auto split: option.splits sum.splits)
next
  case (Sent c j)
  obtain o' t' where inner: "poll_job accepts j s = (o', t')" by fastforce
  with Sent have "capacities t' = capacities s" by simp
  with inner Sent.prems(2) show ?case
    by (auto dest: capacities_poll_sending split: outcome.splits sum.splits option.splits)
next
  case (Sending c m)
  then show ?case by (simp add: capacities_poll_sending)
next
  case (Collect c acc)
  then show ?case by (auto simp: poll_collect_def Let_def capacities_set_chan split: if_splits)
qed

text \<open>A channel is opened for a batch that was received, and is as large as that.\<close>

definition opened :: "message list list \<Rightarrow> 's conn \<Rightarrow> 's conn \<Rightarrow> bool" where
  "opened bs s t \<longleftrightarrow> set (capacities t) \<subseteq> set (capacities s) \<union> set (map length bs)"

lemma opened_same: "chans t = chans s \<Longrightarrow> opened bs s t"
  by (simp add: opened_def capacities_def)

lemma do_msg_opened_induct:
  "server_contract accepts server \<longrightarrow> opened (item_batches msg) s (snd (do_msg to_value server msg s))"
  "server_contract accepts server \<longrightarrow>
     opened (msgs # concat (map batches msgs)) s (snd (do_batch to_value server msgs s))"
  "server_contract accepts server \<longrightarrow>
     opened (concat (map batches subs)) s (snd (do_subs to_value server c subs s))"
proof (induction to_value server msg s and to_value server msgs s and to_value server c subs s
    rule: do_msg_do_batch_do_subs.induct)
  case (1 to_value server msg s)
  show ?case
  proof (cases "stop s")
    case True
    then show ?thesis by (auto simp: do_msg_stopped intro!: opened_same split: sum.split message.split)
  next
    case running: False
    show ?thesis
    proof (cases msg)
      case (Inl b)
      with running show ?thesis by (auto simp: do_msg_running intro: opened_same)
    next
      case (Inr m)
      show ?thesis
      proof (cases m)
        case (Request req)
        obtain j t where "do_request to_value server req s = (j, t)" by fastforce
        with Inr Request running show ?thesis
          by (auto simp: do_msg_running intro: opened_same
              dest: server_contract.do_request_fresh chans_apis)
      next
        case (Notification n)
        obtain j t where "do_notification server n s = (j, t)" by fastforce
        with Inr Notification running show ?thesis
          by (auto simp: do_msg_running intro: opened_same
              dest: server_contract.do_notification_fresh chans_apis)
      next
        case (Batch ms)
        with Inr 1(1) [OF refl running Inr] running show ?thesis by (simp add: do_msg_running)
      qed (use Inr running in \<open>auto simp: do_msg_running intro: opened_same\<close>)
    qed
  qed
next
  case (2 to_value server msgs s)
  obtain c s0 where new: "new_channel (length msgs) s = (c, s0)" by fastforce
  then have "capacities s0 = capacities s @ [length msgs]"
    by (auto simp: new_channel_def capacities_def)
  then show ?case using 2 [OF new [symmetric] refl] new
    by (cases "do_subs to_value server c msgs s0") (auto simp: do_batch.simps opened_def)
next
  case (4 to_value server c sub subs s)
  obtain js t where sub: "do_msg to_value server (Inr sub) s = (js, t)" by fastforce
  then show ?case using 4(1) 4(2) [OF sub [symmetric] refl]
    by (cases "do_subs to_value server c subs (sender_clones c (length js) t)") (auto simp: opened_def)
qed (simp add: opened_def)

definition from_batches :: "label list \<Rightarrow> 's endpoint \<Rightarrow> bool" where
  "from_batches ls e \<longleftrightarrow>
     (\<forall>n \<in> set (capacities (shared e)). \<exists>m ms. Received (Inr m) \<in> set ls \<and> ms \<in> set (batches m) \<and> n = length ms)"

lemma from_batches_mono:
  "from_batches ls e \<Longrightarrow> capacities (shared e') = capacities (shared e) \<Longrightarrow> from_batches (ls @ ks) e'"
  by (fastforce simp: from_batches_def)

lemma from_batches_event:
  assumes "event accepts to_value server l e e'" and "server_contract accepts server"
    and "endpoint_ok accepts e" and since: "from_batches ls e"
  shows "from_batches (ls @ [l]) e'"
  using assms(1)
proof (cases rule: event.cases)
  case (event_receive item)
  have o: "opened (item_batches item) (shared e) (snd (do_msg to_value server item (shared e)))"
    using do_msg_opened_induct(1) assms(2) by blast
  show ?thesis
  proof (cases "stop (shared e)")
    case True
    then have "chans (snd (do_msg to_value server item (shared e))) = chans (shared e)"
      by (auto simp: do_msg_stopped split: sum.split message.split)
    then have "chans (shared e') = chans (shared e)"
      by (cases "do_msg to_value server item (shared e)") (simp add: event_receive receive_def)
    then show ?thesis by (intro from_batches_mono [OF since] capacities_same_chans)
  next
    case False
    show ?thesis
    proof (cases item)
      case (Inl b)
      with o since event_receive False show ?thesis
        by (fastforce simp: from_batches_def opened_def receive_def received_def split: prod.splits)
    next
      case (Inr m)
      with o since event_receive False show ?thesis
        by (fastforce simp: from_batches_def opened_def receive_def received_def split: prod.splits)
    qed
  qed
next
  case (event_poll i)
  obtain out t where poll: "poll_job accepts (pool e ! i) (shared e) = (out, t)" by fastforce
  have "tame_job accepts (pool e ! i)"
    using assms(3) event_poll by (auto simp: endpoint_ok_def jobs_ok_def decent_def list_all_iff)
  from capacities_poll_job [OF this poll] have "capacities (shared e') = capacities (shared e)"
    unfolding event_poll(2)
    by (auto simp: polled_def poll transmitted_def idmap_clear_def capacities_def Let_def
        split: outcome.split sum.split option.split)
  then show ?thesis by (rule from_batches_mono [OF since])
next
  case (event_user t)
  with api_frame [OF event_user(3)] show ?thesis
    by (intro from_batches_mono [OF since] capacities_same_chans) simp
qed (auto intro!: from_batches_mono [OF since] capacities_same_chans simp: transmitted_def cleaner_def idmap_clear_def)

lemma from_batches_run:
  assumes "server_contract accepts (the_server b)"
    and "run accepts to_value (the_server b) (start b x) ls e"
  shows "from_batches ls e"
  using assms(2)
proof (induction rule: run.induct)
  case run_start
  have "chans (shared (start b x)) = []"
    using apis_chans_outbox [OF server_contract.initialized_apis [OF assms(1)]]
    by (simp add: start_def Let_def start_conn_def)
  then show ?case by (simp add: from_batches_def capacities_def)
next
  case (run_step ls e l e')
  have "endpoint_ok accepts e" by (rule reachable_ok [OF assms(1) run_reachable [OF run_step.hyps(1)]])
  with from_batches_event [OF run_step.hyps(2) assms(1)] run_step.IH show ?case by blast
qed

section \<open>The end of polling\<close>

text \<open>A prompt future resolves, or panics, at its first poll.\<close>

definition prompt :: "('w, 'a) future \<Rightarrow> bool" where
  "prompt f \<longleftrightarrow> (\<forall>w g w'. poll f w \<noteq> (Some (Inr g), w'))"

lemma prompt_ready [simp]: "prompt (ready x)"
  by (simp add: prompt_def)

lemma prompt_future_then: "prompt f \<Longrightarrow> prompt (future_then g f)"
  by (auto simp: prompt_def poll_future_then split: prod.split option.split sum.split)

definition prompt_server :: "('s, 'v) server \<Rightarrow> bool" where
  "prompt_server server \<longleftrightarrow>
     (\<forall>m p s g. fst (rpc server m p s) = Some g \<longrightarrow> prompt g) \<and>
     (\<forall>m p s g. fst (notify server m p s) = Some g \<longrightarrow> prompt g)"

primrec prompt_job :: "'s job \<Rightarrow> bool" where
  "prompt_job (Work f) = prompt f"
| "prompt_job (Sent c j) = prompt_job j"
| "prompt_job (Sending c m) = True"
| "prompt_job (Collect c ms) = True"

lemma list_all_prompt_Sent [simp]: "list_all prompt_job (map (Sent c) js) = list_all prompt_job js"
  by (simp add: list_all_iff)

lemma prompt_do_request: "prompt_server server \<Longrightarrow> prompt_job (fst (do_request to_value server req s))"
  by (auto simp: do_request_def prompt_server_def prompt_future_then split: prod.split option.split)
     (metis fst_conv prompt_future_then)

lemma prompt_do_notification: "prompt_server server \<Longrightarrow> prompt_job (fst (do_notification server notif s))"
  by (auto simp: do_notification_def prompt_server_def prompt_future_then split: prod.split option.split)
     (metis fst_conv prompt_future_then)

lemma do_msg_prompt_induct:
  "prompt_server server \<longrightarrow> list_all prompt_job (fst (do_msg to_value server msg s))"
  "prompt_server server \<longrightarrow> list_all prompt_job (fst (do_batch to_value server msgs s))"
  "prompt_server server \<longrightarrow> list_all prompt_job (fst (do_subs to_value server c subs s))"
proof (induction to_value server msg s and to_value server msgs s and to_value server c subs s
    rule: do_msg_do_batch_do_subs.induct)
  case (1 to_value server msg s)
  show ?case
  proof (cases "stop s")
    case True
    then show ?thesis by (simp add: do_msg_stopped split: sum.split message.split)
  next
    case running: False
    show ?thesis
    proof (cases msg)
      case (Inr m)
      then show ?thesis
        using 1(1) [OF refl running Inr] running
          prompt_do_request [of server to_value _ s] prompt_do_notification [of server _ s]
        by (cases m) (simp_all add: do_msg_running)
    qed (simp add: running do_msg_running)
  qed
next
  case (2 to_value server msgs s)
  obtain c s0 where new: "new_channel (length msgs) s = (c, s0)" by fastforce
  then show ?case using 2 [OF new [symmetric] refl]
    by (cases "do_subs to_value server c msgs s0") (simp add: do_batch.simps)
next
  case (4 to_value server c sub subs s)
  obtain js t where sub: "do_msg to_value server (Inr sub) s = (js, t)" by fastforce
  then show ?case using 4(1) 4(2) [OF sub [symmetric] refl]
    by (cases "do_subs to_value server c subs (sender_clones c (length js) t)") simp
qed simp

text \<open>
  The work that is left: what waits in channels, the jobs and how deep they are, and for jobs of the
  backlog that they have to be pulled first.
\<close>

primrec weight :: "'s job \<Rightarrow> nat" where
  "weight (Work f) = 1"
| "weight (Sent c j) = Suc (weight j)"
| "weight (Sending c m) = 1"
| "weight (Collect c ms) = 1"

definition queued :: "'s conn \<Rightarrow> nat" where
  "queued s = sum_list (map (\<lambda>ch. length (chan_queue ch)) (chans s))"

definition left_to_do :: "'s endpoint \<Rightarrow> nat" where
  "left_to_do e =
     queued (shared e) + 2 * total weight (pool e) + total (\<lambda>j. 2 * weight j + 1) (backlog e)"

lemma queued_set_chan:
  assumes "c < length (chans s)"
  shows "queued (set_chan c ch s) + length (chan_queue (chans s ! c)) = queued s + length (chan_queue ch)"
proof -
  have "length (chan_queue (chans s ! c)) \<le> queued s"
    using assms by (auto simp: queued_def intro!: member_le_sum_list)
  then show ?thesis using assms by (simp add: queued_def set_chan_def map_update sum_list_update)
qed

lemma queued_sender_drop:
  assumes "c < length (chans s)"
  shows "queued (sender_drop c s) = queued s"
  using queued_set_chan [OF assms, of "(chans s ! c)\<lparr>chan_senders := chan_senders (chans s ! c) - 1\<rparr>"]
  by (simp add: sender_drop_def Let_def)

definition advances :: "'s job \<Rightarrow> 's conn \<Rightarrow> 's outcome \<Rightarrow> 's conn \<Rightarrow> bool" where
  "advances j s out t \<longleftrightarrow>
     length (chans t) = length (chans s) \<and> list_all prompt_job (left out) \<and>
     (out = Again j \<and> t = s \<or> queued t + 2 * total weight (left out) < queued s + 2 * weight j)"

lemma poll_sending_advances:
  assumes "c < length (chans s)" and "poll_sending accepts c m s = (out, t)"
  shows "advances (Sending c m) s out t"
proof -
  let ?ch = "chans s ! c"
  let ?s = "set_chan c (?ch\<lparr>chan_queue := chan_queue ?ch @ [m]\<rparr>) s"
  have "queued ?s = Suc (queued s)" using queued_set_chan [OF assms(1), of "?ch\<lparr>chan_queue := chan_queue ?ch @ [m]\<rparr>"]
    by simp
  moreover have "c < length (chans ?s)" using assms(1) by (simp add: set_chan_def)
  ultimately show ?thesis using assms queued_sender_drop [of c ?s] queued_sender_drop [of c s]
    by (auto simp: poll_sending_def advances_def Let_def chans_sender_drop split: if_splits)
qed

lemma poll_collect_advances:
  assumes "c < length (chans s)" and "poll_collect c acc s = (out, t)"
  shows "advances (Collect c acc) s out t"
proof (cases "chan_senders (chans s ! c) = 0")
  case True
  then show ?thesis
    using assms queued_set_chan [OF assms(1), of "(chans s ! c)\<lparr>chan_queue := [], chan_open := False\<rparr>"]
    by (auto simp: poll_collect_def advances_def Let_def)
next
  case False
  let ?ch = "(chans s ! c)\<lparr>chan_queue := []\<rparr>"
  have out: "out = Again (Collect c (acc @ chan_queue (chans s ! c)))" "t = set_chan c ?ch s"
    using False assms(2) by (auto simp: poll_collect_def Let_def)
  show ?thesis
  proof (cases "chan_queue (chans s ! c) = []")
    case True
    then have "?ch = chans s ! c" by (cases "chans s ! c") simp
    then have "set_chan c ?ch s = s" using assms(1) by (cases s) (simp add: set_chan_def)
    with True out show ?thesis by (simp add: advances_def)
  next
    case False
    then have "0 < length (chan_queue (chans s ! c))" by simp
    then have "queued (set_chan c ?ch s) < queued s"
      using queued_set_chan [OF assms(1), of ?ch] by (simp del: length_greater_0_conv)
    with out show ?thesis by (simp add: advances_def)
  qed
qed

lemma poll_job_advances:
  assumes "prompt_job j" and "tame_job accepts j"
    and "\<forall>c. 0 < holders c j + collects c j \<longrightarrow> c < length (chans s)"
    and "poll_job accepts j s = (out, t)"
  shows "advances j s out t"
  using assms
proof (induction j arbitrary: out t)
  case (Work f)
  obtain r u where p: "poll f s = (r, u)" by fastforce
  then have "chans u = chans s" using Work.prems(2) by (auto dest: tame_poll chans_apis)
  with p Work.prems(1,4) show ?case
    by (auto simp: advances_def queued_def prompt_def split: option.splits sum.splits)
next
  case (Sent c j)
  obtain o' t' where inner: "poll_job accepts j s = (o', t')" by fastforce
  have "\<forall>d. 0 < holders d j + collects d j \<longrightarrow> d < length (chans s)" using Sent.prems(3) by auto
  with Sent inner have ok: "advances j s o' t'" by auto
  have c: "c < length (chans t')" using Sent.prems(3) ok by (auto simp: advances_def)
  show ?case
  proof (cases "\<exists>m. o' = Finished (Inr (Some m))")
    case True
    then obtain m where m: "o' = Finished (Inr (Some m))" by blast
    then have "poll_sending accepts c m t' = (out, t)" using inner Sent.prems(4) by simp
    then have "advances (Sending c m) t' out t" by (rule poll_sending_advances [OF c])
    then show ?thesis using ok m by (auto simp: advances_def)
  next
    case False
    then show ?thesis using inner Sent.prems(4) ok queued_sender_drop [OF c]
      by (auto simp: advances_def chans_sender_drop split: outcome.splits sum.splits option.splits)
  qed
next
  case (Sending c m)
  then show ?case by (auto intro: poll_sending_advances)
next
  case (Collect c acc)
  then show ?case by (auto intro: poll_collect_advances)
qed

definition prompt_jobs :: "'s endpoint \<Rightarrow> bool" where
  "prompt_jobs e \<longleftrightarrow> list_all prompt_job (pool e @ backlog e)"

lemma poll_advances:
  assumes ok: "jobs_ok accepts e" and i: "i < length (pool e)" and "prompt_jobs e"
    and poll: "poll_job accepts (pool e ! i) (shared e) = (out, t)"
  shows "advances (pool e ! i) (shared e) out t"
proof -
  have "prompt_job (pool e ! i)" "tame_job accepts (pool e ! i)"
    using assms(3) jobs_okD(6) [OF ok] i by (simp_all add: prompt_jobs_def list_all_iff decent_def)
  then show ?thesis
    using backed_range [OF jobs_ok_backed [OF ok i]] by (intro poll_job_advances [OF _ _ _ poll]) auto
qed

lemma left_to_do_polled:
  assumes ok: "jobs_ok accepts e" and i: "i < length (pool e)" and "prompt_jobs e"
  shows "polled accepts i e = e \<or> left_to_do (polled accepts i e) < left_to_do e"
proof -
  obtain out t where poll: "poll_job accepts (pool e ! i) (shared e) = (out, t)" by fastforce
  have adv: "advances (pool e ! i) (shared e) out t" by (rule poll_advances [OF assms poll])
  show ?thesis
  proof (cases "out = Again (pool e ! i) \<and> t = shared e")
    case True
    then have "polled accepts i e = e" using poll i
      by (cases e) (simp add: polled_def id_take_nth_drop [symmetric])
    then show ?thesis by simp
  next
    case False
    then have less: "queued t + 2 * total weight (left out) < queued (shared e) + 2 * weight (pool e ! i)"
      using adv by (auto simp: advances_def)
    let ?e = "e\<lparr>shared := t, pool := take i (pool e) @ left out @ drop (Suc i) (pool e)\<rparr>"
    have now: "left_to_do ?e < left_to_do e"
      using less total_replace [OF i, of weight "left out"] by (simp add: left_to_do_def)
    have "left_to_do (polled accepts i e) \<le> left_to_do ?e"
      using poll
      by (auto simp: polled_def Let_def left_to_do_def transmitted_def queued_def idmap_clear_def
          split: outcome.split sum.split option.split)
    with now show ?thesis by simp
  qed
qed

lemma prompt_polled:
  assumes ok: "jobs_ok accepts e" and i: "i < length (pool e)" and "prompt_jobs e"
  shows "prompt_jobs (polled accepts i e)"
proof -
  obtain out t where poll: "poll_job accepts (pool e ! i) (shared e) = (out, t)" by fastforce
  have "list_all prompt_job (left out)" using poll_advances [OF assms poll] by (simp add: advances_def)
  then show ?thesis using poll assms(3)
    by (auto simp: prompt_jobs_def polled_def transmitted_def Let_def list_all_iff
        split: outcome.split sum.split option.split dest: in_set_takeD in_set_dropD)
qed

lemma prompt_reachable:
  assumes "server_contract accepts (the_server b)" and "prompt_server (the_server b)"
    and "reachable accepts to_value b x e"
  shows "prompt_jobs e"
  using assms(3) unfolding reachable_def
proof (induction rule: rtranclp_induct)
  case base
  show ?case by (simp add: prompt_jobs_def start_def Let_def)
next
  case (step e e')
  have ok: "endpoint_ok accepts e"
    by (rule reachable_ok [OF assms(1)]) (use step.hyps(1) in \<open>simp add: reachable_def\<close>)
  from step.hyps(2) show ?case
  proof (cases rule: step_cases)
    case (step_receive item)
    then show ?thesis using step.IH assms(2) do_msg_prompt_induct(1) [of "the_server b" to_value item "shared e"]
      by (cases "do_msg to_value (the_server b) item (shared e)") (simp add: receive_def prompt_jobs_def)
  next
    case (step_poll i)
    then show ?thesis using step.IH ok by (simp add: endpoint_ok_def prompt_polled)
  qed (use step.IH in \<open>auto simp: prompt_jobs_def transmitted_def cleaner_def\<close>)
qed

section \<open>Properties\<close>

text \<open>
  C18. A connection takes bounded room.  In every state of every run never more jobs run at once than
  \<open>parallel\<close> allows; the messages of the clients wait in a channel of 32 (and \<open>k\<close> more, where the
  channel gives each sender a slot of its own), and where that is full they wait in the clients; and
  every channel was opened for a batch that this connection has received and served, or for one
  among its entries: it has exactly the room for one reply to each entry, and while the connection
  runs it never holds more.
\<close>

theorem room_is_bounded:
  assumes "strict k accepts" and "server_contract accepts (the_server b)"
    and "run accepts to_value (the_server b) (start b x) ls e"
  shows "length (pool e) \<le> parallel_jobs b \<and> length (outbox (shared e)) \<le> 32 + k \<and>
    (\<forall>ch \<in> set (chans (shared e)). \<exists>m ms. Received (Inr m) \<in> set ls \<and> ms \<in> set (batches m) \<and>
       capacity ch = length ms \<and> (running e \<longrightarrow> length (chan_queue ch) \<le> length ms))"
proof (intro conjI ballI)
  note reach = run_reachable [OF assms(3)]
  have ok: "endpoint_ok accepts e" by (rule reachable_ok [OF assms(2) reach])
  then show "length (pool e) \<le> parallel_jobs b"
    using reachable_width [OF reach] by (simp add: endpoint_ok_def)
  show "length (outbox (shared e)) \<le> 32 + k"
    using outbox_within_reachable [OF assms(1,2) reach] by (simp add: outbox_within_def outgoing_capacity_def)
  fix ch
  assume ch: "ch \<in> set (chans (shared e))"
  have "length (chan_queue ch) \<le> capacity ch" if "running e"
  proof -
    from that ok have "jobs_ok accepts e" by (simp add: endpoint_ok_def)
    then have "\<forall>c < length (chans (shared e)).
        length (chan_queue (chans (shared e) ! c)) \<le> capacity (chans (shared e) ! c)"
      using jobs_okD(1) by (fastforce simp: balanced_def Let_def)
    with ch show ?thesis by (auto simp: in_set_conv_nth)
  qed
  with from_batches_run [OF assms(2,3)] ch
  show "\<exists>m ms. Received (Inr m) \<in> set ls \<and> ms \<in> set (batches m) \<and>
      capacity ch = length ms \<and> (running e \<longrightarrow> length (chan_queue ch) \<le> length ms)"
    by (fastforce simp: from_batches_def capacities_def)
qed

text \<open>With the batch of one bad entry, whose channel has room for its one reply.\<close>

lemma bad_batch_run: "run exact as_is hello_server (start hello ())
    [Received (Inr (Batch [UnmatchedSub Null])), Quiet] bad_batch"
proof -
  let ?item = "Inr (Batch [UnmatchedSub Null])"
  let ?e = "receive as_is hello_server ?item idle"
  have "event exact as_is hello_server (received ?item idle) idle ?e"
    by (rule event_receive) (simp add: hungry_def running_def)
  then have 1: "event exact as_is hello_server (Received ?item) idle ?e" by (simp add: received_def)
  have "event exact as_is hello_server Quiet ?e (?e\<lparr>backlog := [bad_jobs ! 1], pool := pool ?e @ [bad_jobs ! 0]\<rparr>)"
    by (rule event_pull) (simp_all add: bad_batch_received running_def bad_jobs_def)
  then have 2: "event exact as_is hello_server Quiet ?e bad_batch"
    by (simp add: bad_batch_received bad_batch_def)
  from run_step [OF run_step [OF run_start 1] 2] show ?thesis by (simp add: idle_def)
qed

theorem room_is_bounded_witness:
  "length (pool bad_batch) \<le> 1 \<and> length (outbox (shared bad_batch)) \<le> 32 \<and>
   chans (shared bad_batch) \<noteq> [] \<and>
   list_all (\<lambda>ch. capacity ch = 1 \<and> length (chan_queue ch) \<le> 1) (chans (shared bad_batch))"
proof -
  have "run exact as_is (the_server hello) (start hello ())
      [Received (Inr (Batch [UnmatchedSub Null])), Quiet] bad_batch" using bad_batch_run by simp
  from room_is_bounded [OF _ hello_contract this, of 0] show ?thesis
    by (auto simp: strict_def exact_def hello_def endpoint_new_def bad_batch_fields(1) list_all_iff)
       (auto simp: bad_batch_def bad_conn_def)
qed

text \<open>What a step may add to what has been sent and what the jobs may still send together.\<close>

fun may_add :: "label \<Rightarrow> nat" where
  "may_add (Received item) = 1"
| "may_add (Forwarded m) = 1"
| "may_add _ = 0"

lemma owed_event:
  assumes "event accepts to_value server l e e'" and "server_contract accepts server"
    and "endpoint_ok accepts e"
  shows "owed e' \<le> owed e + may_add l"
  using assms(1)
proof (cases rule: event.cases)
  case (event_receive item)
  obtain js t where msg: "do_msg to_value server item (shared e) = (js, t)" by fastforce
  have "length (filter yields js) \<le> 1"
    using server_contract.do_msg_fresh(1) [OF assms(2) msg] by (simp add: fresh_def)
  moreover have "js = []" if "stop (shared e)"
    using msg that by (auto simp: do_msg_stopped split: sum.splits message.splits)
  ultimately show ?thesis using event_receive msg
    by (auto simp: receive_def owed_def hungry_def received_def)
next
  case (event_poll i)
  then have "jobs_ok accepts e" using assms(3) by (simp add: endpoint_ok_def)
  from owed_polled [OF this event_poll(4)] event_poll show ?thesis by simp
qed (auto simp: owed_def transmitted_def cleaner_def)

text \<open>
  C40. At most one message goes out for each item that comes in, whatever the server does, and however
  the item nests batches: in every run, what has been sent and what the jobs at hand may still send
  are together no more than the items that were received and served and the messages of clients that
  were forwarded.
\<close>

theorem one_message_per_item:
  assumes "server_contract accepts (the_server b)"
    and "run accepts to_value (the_server b) (start b x) ls e"
  shows "length (wire e) + length (filter yields (pool e @ backlog e)) \<le>
    length (filter (\<lambda>l. \<exists>item. l = Received item) ls) + length (filter (\<lambda>l. \<exists>m. l = Forwarded m) ls)"
proof -
  let ?count = "\<lambda>ls. length (filter (\<lambda>l. \<exists>item. l = Received item) ls) + length (filter (\<lambda>l. \<exists>m. l = Forwarded m) ls)"
  have "owed e \<le> ?count ls"
    using assms(2)
  proof (induction rule: run.induct)
    case run_start
    show ?case by (simp add: owed_def start_def Let_def)
  next
    case (run_step ls e l e')
    have "endpoint_ok accepts e" by (rule reachable_ok [OF assms(1) run_reachable [OF run_step.hyps(1)]])
    from owed_event [OF run_step.hyps(2) assms(1) this] run_step.IH show ?case by (cases l) auto
  qed
  then show ?thesis by (simp add: owed_def)
qed

theorem one_message_per_item_witness:
  "length (wire bad_batch) + length (filter yields (pool bad_batch @ backlog bad_batch)) \<le> 1"
  using one_message_per_item [of exact hello as_is "()"] hello_contract bad_batch_run by fastforce

text \<open>
  C19. Polling comes to an end: with a server that answers at once, every poll of a job on a reachable
  running connection either finds nothing to do and changes nothing, or leaves less to do, and so does
  pulling a job; so whatever the order, only so many polls do something before no job is left.
\<close>

theorem polling_ends:
  assumes "server_contract accepts (the_server b)" and "prompt_server (the_server b)"
    and "reachable accepts to_value b x e" and "running e"
  shows "(\<forall>i < length (pool e). polled accepts i e = e \<or> left_to_do (polled accepts i e) < left_to_do e) \<and>
    (\<forall>j js. backlog e = j # js \<longrightarrow> left_to_do (e\<lparr>backlog := js, pool := pool e @ [j]\<rparr>) < left_to_do e)"
proof -
  have "jobs_ok accepts e" using reachable_ok [OF assms(1,3)] assms(4) by (simp add: endpoint_ok_def)
  with prompt_reachable [OF assms(1-3)] show ?thesis
    by (auto simp: left_to_do_polled) (simp add: left_to_do_def)
qed

lemma prompt_hello: "prompt_server (the_server hello)"
  by (auto simp: prompt_server_def hello_server_def default_notification_def)

theorem polling_ends_witness:
  "left_to_do working_hello = 2 \<and> left_to_do (polled exact 0 working_hello) < 2"
proof -
  have "pool (polled exact 0 working_hello) \<noteq> pool working_hello"
    by (simp add: polled_working_hello) (simp add: working_hello_def answered_hello_def)
  then have "polled exact 0 working_hello \<noteq> working_hello" by metis
  moreover have "left_to_do working_hello = 2"
    by (simp add: left_to_do_def working_hello_def queued_def hello_job_def)
  ultimately show ?thesis
    using polling_ends [OF hello_contract prompt_hello run_reachable [OF run_working_hello]]
    by (simp add: working_hello_def running_def)
qed

end
