(* ===== verification/Echo.thy ===== *)
theory Echo
  imports Codec
begin

text \<open>
  The example \<open>src/examples/echo_params.rs\<close>: a server without an endpoint.  It splits a framed
  connection, answers each item by itself and sends the answers back.

  The connection is given as the chunks its transport reads, up to the end of input, and the result
  is what the answers' encoder has written.  What \<open>Framed\<close> makes of an unfinished line at the end of
  the input belongs to \<open>tokio_io\<close> and is left out.  Printing to the console is left out as well.
\<close>

section \<open>The service\<close>

text \<open>\<open>json!\<close> of an \<open>Option<Value>\<close>.\<close>

definition json_params :: "value option \<Rightarrow> value" where
  "json_params p = (case p of None \<Rightarrow> Null | Some v \<Rightarrow> v)"

fun echo_answer :: "parsed \<Rightarrow> message option" where
  "echo_answer (Inr (Request req)) =
     (if req_method req = ''echo'' then
        Some (reply req (Array [String (req_method req), json_params (req_params req)]))
      else Some (reply_error req (method_not_found (req_method req))))"
| "echo_answer (Inr (Notification n)) = None"
| "echo_answer (Inl e) = Some (broken_reply e)"
| "echo_answer _ = None"

text \<open>\<open>w.send_all(answers)\<close>: the first message that cannot be encoded ends it.\<close>

fun send_all :: "json_lib \<Rightarrow> message list \<Rightarrow> byte list \<Rightarrow> (io_error + unit) \<times> byte list" where
  "send_all lib [] buf = (Inr (), buf)"
| "send_all lib (m # ms) buf =
     (case line_encode lib m buf of
        (Inl e, buf') \<Rightarrow> (Inl e, buf')
      | (Inr _, buf') \<Rightarrow> send_all lib ms buf')"

definition echo_connection :: "json_lib \<Rightarrow> byte list list \<Rightarrow> ((io_error + unit) \<times> byte list) option" where
  "echo_connection lib chunks =
     map_option (\<lambda>(items, _). send_all lib (List.map_filter echo_answer items) [])
       (feed (line_decode lib) line_new [] chunks)"

section \<open>Lemmas\<close>

text \<open>Every answer is a response, so it can be encoded.\<close>

lemma echo_answer_response: "echo_answer item = Some m \<Longrightarrow> \<exists>r. m = Response r"
proof -
  have "\<exists>r. broken_reply b = Response r" for b
    by (cases b) (simp_all add: constructor_defs)
  then show "echo_answer item = Some m \<Longrightarrow> \<exists>r. m = Response r"
    by (cases item rule: echo_answer.cases) (auto simp: constructor_defs split: if_splits)
qed

definition encoded_response :: "json_lib \<Rightarrow> response \<Rightarrow> byte list" where
  "encoded_response lib r = print_value lib (ser_response r) @ [newline]"

lemma encode_response:
  "encode_codec lib (Response r) buf = (Inr (), buf @ encoded_response lib r)"
  by (simp add: encode_codec_def to_vec_def encoded_response_def)

lemma send_all_responses:
  "send_all lib (map Response rs) buf = (Inr (), buf @ concat (map (encoded_response lib) rs))"
  by (induction rs arbitrary: buf) (simp_all add: encode_response)

lemma encode_all_responses:
  "encode_all lib (map Response rs) buf = buf @ concat (map (encoded_response lib) rs)"
  by (induction rs arbitrary: buf) (simp_all add: encode_response)

definition echo_line :: "json_lib \<Rightarrow> byte list \<Rightarrow> byte list" where
  "echo_line lib l =
     (case Option.bind (echo_answer (from_slice lib l)) response_of of
        None \<Rightarrow> []
      | Some r \<Rightarrow> encoded_response lib r)"

lemma send_all_echo:
  "send_all lib (List.map_filter echo_answer (map (from_slice lib) ls)) buf =
     (Inr (), buf @ concat (map (echo_line lib) ls))"
proof (induction ls arbitrary: buf)
  case Nil
  then show ?case by (simp add: map_filter_simps)
next
  case (Cons l ls)
  show ?case
  proof (cases "echo_answer (from_slice lib l)")
    case None
    with Cons show ?thesis by (simp add: map_filter_simps echo_line_def)
  next
    case (Some m)
    then obtain r where "m = Response r" using echo_answer_response by blast
    with Some Cons show ?thesis by (simp add: map_filter_simps echo_line_def encode_response)
  qed
qed

lemma echo_connection_lines:
  "echo_connection lib chunks = Some (Inr (), concat (map (echo_line lib) (fst (lines (concat chunks)))))"
  using line.feed_stream [of lib chunks] send_all_echo [of lib "fst (lines (concat chunks))" "[]"]
  by (auto simp: echo_connection_def line_new_def)

section \<open>Properties\<close>

text \<open>
  What a line deserves, as the document that goes back: for a request for \<open>echo\<close> the result, for any
  other request error -32601, for a line that is no JSON error -32700 and for JSON that is no message
  error -32600, both under the id \<open>null\<close>.
\<close>

definition response_document :: "string \<times> value \<Rightarrow> value \<Rightarrow> value" where
  "response_document body i = Object [(''jsonrpc'', String ''2.0''), body, (''id'', i)]"

definition error_entry :: "i64 \<Rightarrow> string \<Rightarrow> string option \<Rightarrow> string \<times> value" where
  "error_entry code text data =
     (''error'', Object ([(''code'', Number (NegInt code)), (''message'', String text)] @
        (case data of None \<Rightarrow> [] | Some d \<Rightarrow> [(''data'', String d)])))"

fun deserved :: "parsed \<Rightarrow> value option" where
  "deserved (Inr (Request req)) = Some (response_document
     (if req_method req = ''echo''
      then (''result'', Array [String ''echo'', (case req_params req of None \<Rightarrow> Null | Some v \<Rightarrow> v)])
      else error_entry (- 32601) ''Method not found'' (Some (req_method req))) (req_id req))"
| "deserved (Inl (SyntaxError e)) = Some (response_document (error_entry (- 32700) ''Parse error'' (Some e)) Null)"
| "deserved (Inl (Unmatched v)) = Some (response_document (error_entry (- 32600) ''Invalid request'' None) Null)"
| "deserved _ = None"

lemma echo_answer_deserved: "Option.bind (echo_answer item) response_of = None \<longleftrightarrow> deserved item = None"
  "Option.bind (echo_answer item) response_of = Some r \<Longrightarrow> deserved item = Some (ser_response r)"
  by (cases item rule: deserved.cases;
      auto simp: constructor_defs error_defs ser_response_def ser_rpc_error_def ser_i64_def
        response_document_def error_entry_def json_params_def split: if_splits)+

lemma echo_line_deserved:
  "echo_line lib l = (case deserved (from_slice lib l) of None \<Rightarrow> [] | Some d \<Rightarrow> print_value lib d @ [newline])"
  using echo_answer_deserved [of "from_slice lib l"]
  by (auto simp: echo_line_def encoded_response_def split: option.split)


text \<open>The result of calling a method of the echo server.\<close>

definition echo_outcome :: "string \<Rightarrow> value option \<Rightarrow> rpc_error + value" where
  "echo_outcome m p =
     (if m = ''echo'' then Inr (Array [String m, json_params p]) else Inl (method_not_found m))"

definition echo_response :: "request \<Rightarrow> response" where
  "echo_response req =
     \<lparr>resp_jsonrpc = Version, resp_result = echo_outcome (req_method req) (req_params req),
      resp_id = req_id req\<rparr>"

lemma echo_answer_request: "echo_answer (Inr (Request req)) = Some (Response (echo_response req))"
  by (simp add: echo_response_def echo_outcome_def constructor_defs)

lemma echo_answers_requests:
  "List.map_filter echo_answer (map (Inr \<circ> Request) reqs) = map (Response \<circ> echo_response) reqs"
  by (induction reqs) (simp_all add: map_filter_simps echo_answer_request del: echo_answer.simps)

text \<open>
  C39. A client of the echo server gets its answers: requests it has encoded, in any number and cut
  in any way, come back, over a way back that may cut the bytes differently, as as many responses, in
  the order of the requests and each under the id of its request; for the method \<open>echo\<close> the result is
  the method's name and the parameters, \<open>null\<close> where there are none.
\<close>

theorem echo_round_trip:
  assumes "\<forall>req \<in> set reqs. line_safe lib (Request req) \<and>
      line_safe lib (Response (echo_response (norm_request req)))"
    and "concat chunks = encode_all lib (map Request reqs) []"
    and "echo_connection lib chunks = Some (res, out)" and "concat home = out"
  shows "res = Inr () \<and>
    (\<exists>pos. feed (line_decode lib) line_new [] home =
       Some (map (\<lambda>req. Inr (Response (norm_response (echo_response (norm_request req))))) reqs, pos, []))"
proof -
  have "\<forall>m \<in> set (map Request reqs). line_safe lib m" using assms(1) by auto
  from feed_encoded [OF this assms(2)] obtain pos where
    "feed (line_decode lib) line_new [] chunks = Some (map (Inr \<circ> Request) (map norm_request reqs), pos, [])"
    by (auto simp: comp_def)
  then have out: "(res, out) = send_all lib (map Response (map (echo_response \<circ> norm_request) reqs)) []"
    using assms(3) echo_answers_requests [of "map norm_request reqs"]
    by (simp add: echo_connection_def comp_assoc)
  then have "concat home = encode_all lib (map Response (map (echo_response \<circ> norm_request) reqs)) []"
    using assms(4) by (simp add: send_all_responses encode_all_responses del: map_map)
  with feed_encoded [of "map Response (map (echo_response \<circ> norm_request) reqs)" lib home] assms(1)
  have "\<exists>pos. feed (line_decode lib) line_new [] home =
      Some (map (\<lambda>req. Inr (Response (norm_response (echo_response (norm_request req))))) reqs, pos, [])"
    by (auto simp: comp_def)
  with out show ?thesis by (simp add: send_all_responses del: map_map)
qed

text \<open>One request there and its answer back, cut into single bytes both ways.\<close>

definition echo_request :: request where
  "echo_request = \<lparr>req_jsonrpc = Version, req_method = ''echo'', req_params = None, req_id = String ''1''\<rparr>"

definition echo_text :: "byte list" where
  \<open>echo_text = as_bytes ''{"jsonrpc":"2.0","method":"echo","id":"1"}''\<close>

definition echoed_text :: "byte list" where
  \<open>echoed_text = as_bytes ''{"jsonrpc":"2.0","result":["echo",null],"id":"1"}''\<close>

definition echo_lib :: json_lib where
  "echo_lib = table_lib [(echo_text, ser_request echo_request), (echoed_text, ser_response (echo_response echo_request))]"

lemma echo_safe:
  "line_safe echo_lib (Request echo_request)" "line_safe echo_lib (Response (echo_response echo_request))"
  by (simp_all add: line_safe_def echo_lib_def table_lib_def echo_text_def echoed_text_def echo_request_def
      echo_response_def echo_outcome_def json_params_def ser_request_def ser_response_def
      ok_request_def ok_response_def as_bytes_def newline_def)

lemma norm_echo_request: "norm_request echo_request = echo_request"
  by (simp add: norm_request_def echo_request_def norm_option_def)

theorem echo_round_trip_witness:
  "\<exists>out pos. echo_connection echo_lib (map (\<lambda>b. [b]) (encode_all echo_lib [Request echo_request] [])) = Some (Inr (), out) \<and>
     feed (line_decode echo_lib) line_new [] (map (\<lambda>b. [b]) out) =
       Some ([Inr (Response (norm_response (echo_response echo_request)))], pos, [])"
proof -
  let ?chunks = "map (\<lambda>b. [b]) (encode_all echo_lib [Request echo_request] [])"
  obtain res out where out: "echo_connection echo_lib ?chunks = Some (res, out)"
    by (simp add: echo_connection_lines)
  have single: "concat (map (\<lambda>b. [b]) bs) = bs" for bs :: "byte list" by (induction bs) auto
  from echo_round_trip [of "[echo_request]" echo_lib ?chunks res out "map (\<lambda>b. [b]) out"] out
  show ?thesis by (auto simp: echo_safe norm_echo_request single)
qed

end
