(* ===== verification/Discipline.thy ===== *)
theory Discipline
  imports Connection
begin

text \<open>
  What a particular server promises about the connection it serves.  \<open>server_contract\<close> says that any
  server stays within the public interface; here a server keeps a property \<open>P\<close> of the shared state, in
  its callbacks and in its futures (\<open>discipline\<close>), so that handling a message and polling a job keep
  it; and where also the end of the input and of the transmission leave it alone (\<open>upkeep\<close>),
  everything the endpoint does by itself keeps it.
\<close>

section \<open>Futures and jobs that keep a property\<close>

coinductive keeping :: "('w \<Rightarrow> bool) \<Rightarrow> ('w, 'a) future \<Rightarrow> bool" for P where
  "(\<And>s r t. poll f s = (r, t) \<Longrightarrow> (P s \<longrightarrow> P t) \<and> (\<forall>k. r = Some (Inr k) \<longrightarrow> keeping P k)) \<Longrightarrow>
   keeping P f"

lemma keeping_poll: "keeping P f \<Longrightarrow> P s \<Longrightarrow> poll f s = (r, t) \<Longrightarrow> P t"
  by (auto elim: keeping.cases)

lemma keeping_next: "keeping P f \<Longrightarrow> poll f s = (Some (Inr k), t) \<Longrightarrow> keeping P k"
  by (auto elim: keeping.cases)

lemma keeping_ready [simp]: "keeping P (ready x)"
  by (rule keeping.intros) auto

lemma keeping_panicking [simp]: "keeping P panicking"
  by (rule keeping.intros) (auto simp: panicking_def)

lemma keeping_future_then: "keeping P f \<Longrightarrow> keeping P (future_then g f)"
proof (coinduction arbitrary: f)
  case (keeping f)
  show ?case
  proof (intro exI [of _ "future_then g f"] conjI allI impI refl)
    fix s r t
    assume p: "poll (future_then g f) s = (r, t)"
    then have "\<exists>q. poll f s = (q, t)"
      by (auto simp: poll_future_then split: prod.splits option.splits sum.splits)
    with keeping show "P s \<Longrightarrow> P t" by (auto dest: keeping_poll)
    fix k
    assume "r = Some (Inr k)"
    with p obtain h where "poll f s = (Some (Inr h), t)" "k = future_then g h"
      by (auto simp: poll_future_then split: prod.splits option.splits sum.splits)
    with keeping show "(\<exists>f. k = future_then g f \<and> keeping P f) \<or> keeping P k"
      by (auto dest: keeping_next)
  qed
qed

primrec keeping_job :: "('s conn \<Rightarrow> bool) \<Rightarrow> 's job \<Rightarrow> bool" where
  "keeping_job P (Work f) = keeping P f"
| "keeping_job P (Sent c j) = keeping_job P j"
| "keeping_job P (Sending c m) = True"
| "keeping_job P (Collect c ms) = True"

lemma list_all_keeping_Sent [simp]:
  "list_all (keeping_job P) (map (Sent c) js) = list_all (keeping_job P) js"
  by (induction js) auto

section \<open>The steps of the endpoint itself\<close>

lemma own_step_running: "event accepts to_value server l e e' \<Longrightarrow> l \<noteq> Used \<Longrightarrow> running e"
  by (cases rule: event.cases) (auto simp: hungry_def)

lemma own_step_finish:
  assumes "event accepts to_value server l e e'" and "l \<noteq> Used" and "finish e' \<noteq> None"
  shows "\<not> outbox_open (shared e') \<and>
    (finish e' = Some (Inr ()) \<longrightarrow> senders (shared e) = 0 \<or> kill_fired (shared e)) \<and>
    (finish e' = Some (Inr ()) \<longrightarrow> srv (shared e') = srv (shared e))"
proof -
  have "finish e = None" using own_step_running [OF assms(1,2)] by (simp add: running_def)
  with assms show ?thesis
    by (cases rule: event.cases)
      (auto simp: receive_def cleaner_def transmitted_def polled_def idmap_clear_def Let_def
        split: prod.splits outcome.splits sum.splits option.splits)
qed

lemma endpoint_ok_apis: "apis accepts (shared e) t \<Longrightarrow> endpoint_ok accepts e \<Longrightarrow> endpoint_ok accepts (e\<lparr>shared := t\<rparr>)"
proof (induction rule: rtranclp_induct)
  case base
  then show ?case by simp
next
  case (step t u)
  then show ?case using endpoint_ok_user [of accepts "e\<lparr>shared := t\<rparr>" u] by simp
qed

section \<open>The contract\<close>

locale discipline =
  fixes P :: "'s conn \<Rightarrow> bool"
    and server :: "('s, 'v) server"
  assumes rpc_keeps: "P s \<Longrightarrow> rpc server m p s = (r, t) \<Longrightarrow> P t"
    and rpc_keeping: "rpc server m p s = (Some f, t) \<Longrightarrow> keeping P f"
    and notify_keeps: "P s \<Longrightarrow> notify server m p s = (q, t) \<Longrightarrow> P t"
    and notify_keeping: "notify server m p s = (Some g, t) \<Longrightarrow> keeping P g"
    and initialized_keeps: "P s \<Longrightarrow> P (initialized server s)"
    and response_keeps: "P s \<Longrightarrow> P (do_response a s)"
    and channels_keep: "P s \<Longrightarrow> P (s\<lparr>chans := cs\<rparr>)"
begin

definition tidy :: "'s endpoint \<Rightarrow> bool" where
  "tidy e \<longleftrightarrow> list_all (keeping_job P) (pool e @ backlog e)"

definition orderly :: "'s endpoint \<Rightarrow> bool" where
  "orderly e \<longleftrightarrow> P (shared e) \<and> tidy e"

lemma do_request_keeps:
  assumes "do_request to_value server req s = (j, t)"
  shows "(P s \<longrightarrow> P t) \<and> keeping_job P j"
proof -
  obtain r u where r: "rpc server (req_method req) (req_params req) s = (r, u)" by fastforce
  with assms rpc_keeps [OF _ r] rpc_keeping show ?thesis
    by (cases r) (auto simp: do_request_def intro!: keeping_future_then)
qed

lemma do_notification_keeps:
  assumes "do_notification server n s = (j, t)"
  shows "(P s \<longrightarrow> P t) \<and> keeping_job P j"
proof -
  obtain r u where r: "notify server (notif_method n) (notif_params n) s = (r, u)" by fastforce
  with assms notify_keeps [OF _ r] notify_keeping show ?thesis
    by (cases r) (auto simp: do_notification_def intro!: keeping_future_then)
qed

lemma do_subs_keeps:
  assumes "\<forall>sub \<in> set subs. \<forall>s js t. do_msg to_value server (Inr sub) s = (js, t) \<longrightarrow>
      (P s \<longrightarrow> P t) \<and> list_all (keeping_job P) js"
    and "do_subs to_value server c subs s = (js, t)"
  shows "(P s \<longrightarrow> P t) \<and> list_all (keeping_job P) js"
  using assms
proof (induction subs arbitrary: s js)
  case Nil
  then show ?case by simp
next
  case (Cons sub subs)
  obtain js1 t1 where one: "do_msg to_value server (Inr sub) s = (js1, t1)" by fastforce
  obtain js2 t2 where rest: "do_subs to_value server c subs (sender_clones c (length js1) t1) = (js2, t2)"
    by fastforce
  have t: "t2 = t" "js = map (Sent c) js1 @ js2" using Cons.prems(2) one rest by simp_all
  have 1: "(P s \<longrightarrow> P t1) \<and> list_all (keeping_job P) js1"
    using Cons.prems(1) one by (meson list.set_intros(1))
  then have "P s \<longrightarrow> P (sender_clones c (length js1) t1)"
    by (simp add: sender_clones_def set_chan_def Let_def channels_keep)
  with Cons.IH [OF _ rest [unfolded t(1)]] Cons.prems(1) 1 show ?case by (simp add: t(2))
qed

lemma do_message_keeps:
  "do_msg to_value server (Inr m) s = (js, t) \<Longrightarrow> (P s \<longrightarrow> P t) \<and> list_all (keeping_job P) js"
proof (induction m arbitrary: s js t)
  case (Batch ms)
  show ?case
  proof (cases "stop s")
    case True
    with Batch.prems show ?thesis by (simp add: do_msg_stopped)
  next
    case False
    obtain c s0 where new: "new_channel (length ms) s = (c, s0)" by fastforce
    obtain js' t' where subs: "do_subs to_value server c ms s0 = (js', t')" by fastforce
    have "P s \<longrightarrow> P s0" using new by (auto simp: new_channel_def channels_keep)
    moreover have "(P s0 \<longrightarrow> P t') \<and> list_all (keeping_job P) js'"
      using do_subs_keeps [OF _ subs] Batch.IH by blast
    ultimately show ?thesis using new subs Batch.prems False by (auto simp: do_msg_running do_batch.simps)
  qed
next
  case (Request req)
  obtain j u where "do_request to_value server req s = (j, u)" by fastforce
  with do_request_keeps [OF this] Request.prems show ?case
    by (cases "stop s") (auto simp: do_msg_stopped do_msg_running)
next
  case (Notification n)
  obtain j u where "do_notification server n s = (j, u)" by fastforce
  with do_notification_keeps [OF this] Notification.prems show ?case
    by (cases "stop s") (auto simp: do_msg_stopped do_msg_running)
next
  case (Response r)
  then show ?case by (cases "stop s") (auto simp: do_msg_stopped do_msg_running response_keeps)
next
  case (UnmatchedSub v)
  then show ?case by (cases "stop s") (auto simp: do_msg_stopped do_msg_running)
qed

lemma do_msg_keeps:
  assumes "do_msg to_value server item s = (js, t)"
  shows "(P s \<longrightarrow> P t) \<and> list_all (keeping_job P) js"
proof (cases item)
  case (Inl broken)
  with assms show ?thesis by (cases "stop s") (auto simp: do_msg_stopped do_msg_running)
next
  case (Inr m)
  with assms do_message_keeps show ?thesis by blast
qed

lemma poll_sending_keeps: "P s \<Longrightarrow> P (snd (poll_sending accepts c m s))"
  by (simp add: poll_sending_def sender_drop_def set_chan_def Let_def channels_keep)

lemma polled_job_keeps:
  "keeping_job P j \<Longrightarrow> poll_job accepts j s = (out, t) \<Longrightarrow>
   (P s \<longrightarrow> P t) \<and> list_all (keeping_job P) (left out)"
proof (induction j arbitrary: out t)
  case (Work f)
  obtain r u where "poll f s = (r, u)" by fastforce
  with Work show ?case
    by (auto split: option.splits sum.splits dest: keeping_poll keeping_next)
next
  case (Sent c j)
  obtain o' u where p: "poll_job accepts j s = (o', u)" by fastforce
  with Sent have u: "(P s \<longrightarrow> P u) \<and> list_all (keeping_job P) (left o')" by simp
  have sending: "list_all (keeping_job P) (left (fst (poll_sending accepts c m u)))" for m
    by (simp add: poll_sending_def Let_def)
  show ?case
    using p u Sent.prems(2) sending poll_sending_keeps [of u accepts c]
    by (auto simp: sender_drop_def set_chan_def Let_def channels_keep
        split: outcome.splits sum.splits option.splits) (metis fst_conv snd_conv)+
next
  case (Sending c m)
  then show ?case using poll_sending_keeps [of s accepts c m]
    by (auto simp: poll_sending_def Let_def split: if_splits)
next
  case (Collect c ms)
  then show ?case
    by (auto simp: poll_collect_def set_chan_def Let_def channels_keep split: if_splits)
qed

text \<open>No step brings a job that does not keep the property.\<close>

lemma tidy_step:
  assumes "event accepts to_value server l e e'" and "tidy e"
  shows "tidy e'"
  using assms(1)
proof (cases rule: event.cases)
  case (event_receive item)
  obtain js t where msg: "do_msg to_value server item (shared e) = (js, t)" by fastforce
  with assms(2) do_msg_keeps [OF msg] event_receive show ?thesis
    by (auto simp: tidy_def receive_def hungry_def)
next
  case (event_poll i)
  obtain out t where poll: "poll_job accepts (pool e ! i) (shared e) = (out, t)" by fastforce
  have "list_all (keeping_job P) (left out)"
    using polled_job_keeps [OF _ poll] assms(2) event_poll by (simp add: tidy_def list_all_iff)
  then have "list_all (keeping_job P) (take i (pool e) @ left out @ drop (Suc i) (pool e) @ backlog e)"
    using assms(2) by (auto simp: tidy_def list_all_iff dest: in_set_takeD in_set_dropD)
  then show ?thesis using event_poll poll
    by (auto simp: polled_def tidy_def transmitted_def Let_def split: outcome.split sum.split option.split)
qed (use assms(2) in \<open>simp_all add: tidy_def transmitted_def cleaner_def\<close>)

end

text \<open>A property that also what is not the server's doing leaves alone: then it holds throughout.\<close>

locale upkeep = discipline P server
  for P :: "'s conn \<Rightarrow> bool" and server :: "('s, 'v) server" +
  assumes clear_keeps: "P s \<Longrightarrow> P (idmap_clear s)"
    and terminate_keeps: "P s \<Longrightarrow> P (terminate s)"
    and outbox_keeps: "P s \<Longrightarrow> P (s\<lparr>outbox := ms, outbox_open := b\<rparr>)"
begin

lemma transmitted_keeps: "P (shared e) \<Longrightarrow> P (shared (transmitted r e))"
  by (simp add: transmitted_def clear_keeps outbox_keeps)

lemma own_step_keeps:
  assumes "event accepts to_value server l e e'" and "l \<noteq> Used" and "orderly e"
  shows "orderly e'"
proof -
  have P: "P (shared e)" and tidy: "tidy e" using assms(3) by (simp_all add: orderly_def)
  from assms(1) have "P (shared e')"
  proof (cases rule: event.cases)
    case (event_receive item)
    obtain js t where msg: "do_msg to_value server item (shared e) = (js, t)" by fastforce
    with P do_msg_keeps [OF msg] event_receive show ?thesis by (simp add: receive_def)
  next
    case (event_poll i)
    obtain out t where poll: "poll_job accepts (pool e ! i) (shared e) = (out, t)" by fastforce
    have "P t"
      using polled_job_keeps [OF _ poll] P tidy event_poll by (simp add: tidy_def list_all_iff)
    with event_poll poll transmitted_keeps
      [of "e\<lparr>shared := t, pool := take i (pool e) @ left out @ drop (Suc i) (pool e)\<rparr>"]
    show ?thesis by (auto simp: polled_def Let_def split: outcome.split sum.split option.split)
  next
    case (event_forward m ms)
    have "P ((shared e)\<lparr>outbox := ms, outbox_open := outbox_open (shared e)\<rparr>)"
      using P by (rule outbox_keeps)
    then have "P ((shared e)\<lparr>outbox := ms\<rparr>)" by simp
    with event_forward show ?thesis by simp
  qed (use assms(2) P in \<open>simp_all add: transmitted_keeps cleaner_def clear_keeps terminate_keeps\<close>)
  with tidy_step [OF assms(1) tidy] show ?thesis by (simp add: orderly_def)
qed

end

end
