(* ===== verification/Params.thy ===== *)
theory Params
  imports Message
begin

text \<open>
  The macro \<open>jsonrpc_params!\<close> of \<open>src/src/server.rs\<close>, one definition per arm.

  A type stands here as what \<open>from_value\<close> does for it: a function that gives the decoded value
  or the text of the error.  The tuple the macro builds is a list.  Where an arm returns
  \<open>Some(Err(e))\<close> from the function around it the result is \<open>Inl e\<close>; an index out of range,
  which panics, is \<open>None\<close>.
\<close>

section \<open>Texts\<close>

function display_nat :: "nat \<Rightarrow> string" where
  "display_nat n =
     (if n < 10 then [char_of (48 + n)] else display_nat (n div 10) @ [char_of (48 + n mod 10)])"
  by pat_completeness auto
termination
  by (relation "measure id") auto

declare display_nat.simps [simp del]

type_synonym 'x decoder = "value \<Rightarrow> string + 'x"

definition bad_params :: "string \<Rightarrow> rpc_error + 'a" where
  "bad_params msg = Inl (invalid_params (Some msg))"

section \<open>The arms\<close>

text \<open>No parameters: nothing, \<open>null\<close>, an empty array, an empty object.\<close>

fun params_none :: "value option \<Rightarrow> rpc_error + unit" where
  "params_none None = Inr ()"
| "params_none (Some Null) = Inr ()"
| "params_none (Some (Array vs)) = (if length vs = 0 then Inr () else bad_params ''Expected no params'')"
| "params_none (Some (Object kvs)) = (if length kvs = 0 then Inr () else bad_params ''Expected no params'')"
| "params_none (Some _) = bad_params ''Expected no params''"

definition params_single :: "'x decoder \<Rightarrow> value \<Rightarrow> rpc_error + 'x" where
  "params_single ty val = map_err (\<lambda>e. invalid_params (Some (''Incompatible type: '' @ e))) (ty val)"

fun arity :: "'x decoder list \<Rightarrow> nat" where
  "arity [] = 0"
| "arity [ty] = 1"
| "arity (ty # tys) = 1 + arity tys"

text \<open>The blocks of a tuple run from left to right; the first that fails returns.\<close>

fun tuple :: "(rpc_error + 'x) list \<Rightarrow> rpc_error + 'x list" where
  "tuple [] = Inr []"
| "tuple (b # bs) = and_then b (\<lambda>x. map_ok ((#) x) (tuple bs))"

fun positional_decode ::
  "value list \<Rightarrow> (rpc_error + 'x) list \<Rightarrow> 'x decoder list \<Rightarrow> (rpc_error + 'x list) option"
where
  "positional_decode spl acc [] = Some (tuple acc)"
| "positional_decode spl acc [ty] =
     (case spl of
        [] \<Rightarrow> None
      | v # vs \<Rightarrow> Some (tuple (acc @ [params_single ty v])))"
| "positional_decode spl acc (ty # tys) =
     (case spl of
        [] \<Rightarrow> None
      | v # vs \<Rightarrow> positional_decode vs (acc @ [params_single ty v]) tys)"

fun params_positional ::
  "value option \<Rightarrow> 'x decoder list \<Rightarrow> (rpc_error + 'x list) option"
where
  "params_positional None tys = Some (bad_params ''Expected parameters'')"
| "params_positional (Some (Array vec)) tys =
     (let cnt = arity tys
      in if cnt \<noteq> length vec then
           Some (bad_params (''Wrong number of parameters: expected: '' @ display_nat cnt
             @ '', got: '' @ display_nat (length vec)))
         else positional_decode vec [] tys)"
| "params_positional (Some _) tys = Some (bad_params ''Expected an array as parameters'')"

definition subval :: "(string \<times> value) list \<Rightarrow> string \<Rightarrow> value" where
  "subval m k = (case btree_get m k of None \<Rightarrow> Null | Some v \<Rightarrow> v)"

fun params_named ::
  "value option \<Rightarrow> (string \<times> 'x decoder) list \<Rightarrow> rpc_error + 'x list"
where
  "params_named None vars = bad_params ''Expected parameters''"
| "params_named (Some (Object m)) vars =
     tuple (map (\<lambda>(k, ty). params_single ty (subval m k)) vars)"
| "params_named (Some _) vars = bad_params ''Expected an object as parameters''"

fun params_decide ::
  "value option \<Rightarrow> (string \<times> 'x decoder) list \<Rightarrow> (rpc_error + 'x list) option"
where
  "params_decide None vars = Some (bad_params ''Expected parameters'')"
| "params_decide (Some (Array vec)) vars = params_positional (Some (Array vec)) (map snd vars)"
| "params_decide (Some (Object m)) vars = Some (params_named (Some (Object m)) vars)"
| "params_decide (Some _) vars = Some (bad_params ''Expected an object or an array as parameters'')"

text \<open>One variable: the whole value is tried first.\<close>

definition params_one ::
  "value option \<Rightarrow> string \<times> 'x decoder \<Rightarrow> (rpc_error + 'x list) option"
where
  "params_one val var =
     (let single = map_option (params_single (snd var)) val
      in case single of
           Some (Inr result) \<Rightarrow> Some (Inr [result])
         | _ \<Rightarrow> params_decide val [var])"

fun jsonrpc_params ::
  "value option \<Rightarrow> (string \<times> 'x decoder) list \<Rightarrow> (rpc_error + 'x list) option"
where
  "jsonrpc_params val [] = Some (map_ok (\<lambda>_. []) (params_none val))"
| "jsonrpc_params val [var] = params_one val var"
| "jsonrpc_params val vars = params_decide val vars"

text \<open>
  The \<open>wrap\<close> arms put the expansion into a function that returns \<open>Some(Ok(..))\<close>, or
  \<open>Some(Err(..))\<close> early, and unwrap the \<open>Some\<close>.
\<close>

definition wrapped :: "(rpc_error + 'a) option \<Rightarrow> (rpc_error + 'a) option option" where
  "wrapped r = map_option Some r"

definition unwrap :: "'a option option \<Rightarrow> 'a option" where
  "unwrap r = (case r of Some x \<Rightarrow> x | None \<Rightarrow> None)"

definition params_wrap ::
  "value option \<Rightarrow> (string \<times> 'x decoder) list \<Rightarrow> (rpc_error + 'x list) option" where
  "params_wrap val vars = unwrap (wrapped (jsonrpc_params val vars))"

definition params_wrap_named ::
  "value option \<Rightarrow> (string \<times> 'x decoder) list \<Rightarrow> (rpc_error + 'x list) option" where
  "params_wrap_named val vars = unwrap (wrapped (Some (params_named val vars)))"

definition params_wrap_positional ::
  "value option \<Rightarrow> 'x decoder list \<Rightarrow> (rpc_error + 'x list) option" where
  "params_wrap_positional val tys = unwrap (wrapped (params_positional val tys))"

lemma unwrap_wrapped [simp]: "unwrap (wrapped r) = r"
  by (cases r) (simp_all add: unwrap_def wrapped_def)

section \<open>Lemmas\<close>

lemma arity_length [simp]: "arity tys = length tys"
  by (induction tys rule: arity.induct) auto

lemma tuple_eq_Inr:
  "tuple bs = Inr rs \<longleftrightarrow> bs = map Inr rs"
proof (induction bs arbitrary: rs)
  case Nil
  then show ?case by auto
next
  case (Cons b bs)
  then show ?case by (cases b; cases rs) (auto simp: result_simps)
qed

lemma tuple_eq_Inl:
  "tuple bs = Inl e \<longleftrightarrow> (\<exists>i < length bs. bs ! i = Inl e \<and> (\<forall>j < i. \<exists>x. bs ! j = Inr x))"
proof (induction bs)
  case Nil
  then show ?case by simp
next
  case (Cons b bs)
  show ?case
  proof (cases b)
    case (Inl d)
    then show ?thesis by (auto simp: nth_Cons' intro: exI [of _ 0])
  next
    case (Inr x)
    have "tuple (b # bs) = Inl e \<longleftrightarrow> tuple bs = Inl e" using Inr by (cases "tuple bs") auto
    also have "\<dots> \<longleftrightarrow> (\<exists>i < length bs. bs ! i = Inl e \<and> (\<forall>j < i. \<exists>x. bs ! j = Inr x))"
      by (rule Cons.IH)
    also have "\<dots> \<longleftrightarrow> (\<exists>i < length (b # bs). (b # bs) ! i = Inl e \<and> (\<forall>j < i. \<exists>x. (b # bs) ! j = Inr x))"
      using Inr by (simp add: Ex_less_Suc2 All_less_Suc2)
    finally show ?thesis .
  qed
qed

lemma positional_decode_eq:
  "length spl = length tys \<Longrightarrow>
   positional_decode spl acc tys = Some (tuple (acc @ map2 params_single tys spl))"
  by (induction spl acc tys rule: positional_decode.induct) (auto split: list.splits)

lemma params_single_eq_Inr: "params_single ty v = Inr x \<longleftrightarrow> ty v = Inr x"
  by (simp add: params_single_def result_simps)

lemma params_positional_Array:
  "length vs = length tys \<Longrightarrow>
   params_positional (Some (Array vs)) tys = Some (tuple (map2 params_single tys vs))"
  by (simp add: positional_decode_eq)

text \<open>An outcome of the macro for \<open>n\<close> variables: that many values, or an invalid-params error.\<close>

definition proper :: "nat \<Rightarrow> rpc_error + 'x list \<Rightarrow> bool" where
  "proper n r =
     (case r of
        Inl e \<Rightarrow> err_code e = - 32602 \<and> err_message e = ''Invalid params''
      | Inr xs \<Rightarrow> length xs = n)"

lemma proper_bad [simp]: "proper n (bad_params t)"
  by (simp add: proper_def bad_params_def error_defs)

lemma proper_tuple:
  "\<forall>b \<in> set bs. \<exists>ty v. b = params_single ty v \<Longrightarrow> proper (length bs) (tuple bs)"
proof (induction bs)
  case Nil
  then show ?case by (simp add: proper_def)
next
  case (Cons b bs)
  then obtain ty v where "b = params_single ty v" by auto
  then show ?case using Cons
    by (cases "ty v"; cases "tuple bs") (auto simp: proper_def params_single_def error_defs)
qed

lemma proper_positional: "\<exists>r. params_positional val tys = Some r \<and> proper (length tys) r"
proof (cases "(val, tys)" rule: params_positional.cases)
  case (2 vs tys')
  have "proper (length tys) (tuple (map2 params_single tys vs))" if "length vs = length tys"
    using that proper_tuple [of "map2 params_single tys vs"] by (auto simp: set_zip)
  with 2 show ?thesis
    by (cases "length vs = length tys") (auto simp: positional_decode_eq)
qed auto

lemma proper_named: "proper (length vars) (params_named val vars)"
proof -
  have "proper (length vars) (tuple (map (\<lambda>(k, ty). params_single ty (subval m k)) vars))" for m
    using proper_tuple [of "map (\<lambda>(k, ty). params_single ty (subval m k)) vars"] by fastforce
  then show ?thesis by (cases "(val, vars)" rule: params_named.cases) auto
qed

lemma proper_decide: "\<exists>r. params_decide val vars = Some r \<and> proper (length vars) r"
  using proper_positional [of val "map snd vars"] proper_named [of vars val]
  by (cases "(val, vars)" rule: params_decide.cases)
     (auto simp del: params_positional.simps params_named.simps)

lemma proper_none: "\<exists>r. jsonrpc_params val [] = Some r \<and> proper 0 r"
  by (cases val rule: params_none.cases) (auto simp: bad_params_def proper_def error_defs)

section \<open>Properties\<close>

text \<open>
  C37. The macro always answers: it never panics (no index is out of range, the \<open>unwrap\<close> of
  the wrapping arms finds a value), and it gives one value per variable or an error of code
  -32602.
\<close>

theorem jsonrpc_params_total:
  "\<exists>r. jsonrpc_params val vars = Some r \<and> params_wrap val vars = Some r \<and>
     params_wrap_named val vars = Some (params_named val vars) \<and>
     params_wrap_positional val (map snd vars) = params_positional val (map snd vars) \<and>
     params_positional val (map snd vars) \<noteq> None \<and>
     (case r of
        Inl e \<Rightarrow> err_code e = - 32602 \<and> err_message e = ''Invalid params''
      | Inr xs \<Rightarrow> length xs = length vars)"
proof -
  have "\<exists>r. jsonrpc_params val vars = Some r \<and> proper (length vars) r"
  proof (cases "(val, vars)" rule: jsonrpc_params.cases)
    case (2 val' var)
    have "\<exists>r. params_one val var = Some r \<and> proper 1 r"
      using proper_decide [of val "[var]"]
      by (auto simp: params_one_def proper_def Let_def split: option.split sum.split)
    with 2 show ?thesis by simp
  next
    case (3 val' v1 v2 vs)
    then show ?thesis using proper_decide [of val vars] by simp
  qed (use proper_none in simp)
  then show ?thesis using proper_positional [of val "map snd vars"]
    by (auto simp: proper_def params_wrap_def params_wrap_named_def params_wrap_positional_def)
qed

text \<open>
  Positional parameters: exactly the arrays with one element per type, each of which
  converts; the values come in the order of the array.
\<close>

lemma positional_exact:
  "params_positional val tys = Some (Inr xs) \<longleftrightarrow>
   (\<exists>vs. val = Some (Array vs) \<and> length vs = length tys \<and> map2 (\<lambda>ty v. ty v) tys vs = map Inr xs)"
proof -
  have "tuple (map2 params_single tys vs) = Inr xs \<longleftrightarrow> map2 (\<lambda>ty v. ty v) tys vs = map Inr xs"
    if "length vs = length tys" for vs
  proof -
    have "map2 params_single tys vs = map Inr xs \<longleftrightarrow> map2 (\<lambda>ty v. ty v) tys vs = map Inr xs"
      using that
      by (auto simp: list_eq_iff_nth_eq params_single_eq_Inr)
    then show ?thesis by (simp add: tuple_eq_Inr)
  qed
  then show ?thesis
    by (cases "(val, tys)" rule: params_positional.cases)
       (auto simp: positional_decode_eq bad_params_def Let_def split: if_splits)
qed

text \<open>
  Named parameters: exactly the objects whose member of each name, or \<open>null\<close> where there
  is none, converts; other members are ignored, the order of the members does not matter, and an
  absent parameter cannot be told from a \<open>null\<close> one.
\<close>

lemma named_exact:
  "params_named val vars = Inr xs \<longleftrightarrow>
   (\<exists>m. val = Some (Object m) \<and>
      map (\<lambda>(k, ty). ty (case map_of m k of None \<Rightarrow> Null | Some v \<Rightarrow> v)) vars = map Inr xs)"
proof -
  have "map (\<lambda>(k, ty). params_single ty (subval m k)) vars = map Inr xs \<longleftrightarrow>
      map (\<lambda>(k, ty). ty (case map_of m k of None \<Rightarrow> Null | Some v \<Rightarrow> v)) vars = map Inr xs" for m
    by (auto simp: list_eq_iff_nth_eq params_single_eq_Inr subval_def split_def)
  then show ?thesis
    by (cases "(val, vars)" rule: params_named.cases) (auto simp: bad_params_def tuple_eq_Inr)
qed

text \<open>
  C38. What the parameters must be.  By position: exactly an array with one element per type, each of which
  converts, the values in the order of the array.  By name: exactly an object whose member of each
  name, or \<open>null\<close> where there is none, converts; other members are ignored, and the order of the
  members does not matter.
\<close>

theorem params_exact:
  "(params_positional val tys = Some (Inr xs) \<longleftrightarrow>
     (\<exists>vs. val = Some (Array vs) \<and> length vs = length tys \<and> map2 (\<lambda>ty v. ty v) tys vs = map Inr xs)) \<and>
   (params_named val vars = Inr ys \<longleftrightarrow>
     (\<exists>m. val = Some (Object m) \<and>
        map (\<lambda>(k, ty). ty (case map_of m k of None \<Rightarrow> Null | Some v \<Rightarrow> v)) vars = map Inr ys))"
  using positional_exact named_exact by blast

text \<open>
  The caller may choose: with several variables, an array of the values and any object that
  has them under the right names give the same result, errors included.
\<close>

lemma positional_named_agree:
  assumes "2 \<le> length vars" and "length vs = length vars"
    and "\<forall>i < length vars. map_of m (fst (vars ! i)) = Some (vs ! i)"
  shows "jsonrpc_params (Some (Array vs)) vars = jsonrpc_params (Some (Object m)) vars"
proof -
  have "map2 params_single (map snd vars) vs = map (\<lambda>(k, ty). params_single ty (subval m k)) vars"
    using assms(2,3) by (auto simp: list_eq_iff_nth_eq subval_def split_def)
  moreover obtain v1 v2 rest where "vars = v1 # v2 # rest"
    using assms(1) by (cases vars; cases "tl vars") auto
  ultimately show ?thesis
    using assms(2) by (simp add: params_positional_Array del: params_positional.simps)
qed

text \<open>
  Of several failing parameters the first one declared is reported, with the text of its
  conversion error.
\<close>

lemma first_error_reported:
  assumes "i < length vars" and "snd (vars ! i) (subval m (fst (vars ! i))) = Inl t"
    and "\<forall>j < i. \<exists>x. snd (vars ! j) (subval m (fst (vars ! j))) = Inr x"
  shows "params_named (Some (Object m)) vars = Inl (invalid_params (Some (''Incompatible type: '' @ t)))"
  using assms by (auto simp: tuple_eq_Inl split_def params_single_def result_simps intro!: exI [of _ i])

text \<open>
  A single variable is first converted from the whole value, and only where that fails by
  position or name: so a type that accepts any document always gets the whole value, the
  array around the one argument included.
\<close>

lemma single_variable:
  "jsonrpc_params None [(k, ty)] = Some (bad_params ''Expected parameters'') \<and>
   jsonrpc_params (Some v) [(k, ty)] =
     (case ty v of
        Inr x \<Rightarrow> Some (Inr [x])
      | Inl _ \<Rightarrow> params_decide (Some v) [(k, ty)]) \<and>
   jsonrpc_params (Some (Array [w])) [(k, Inr)] = Some (Inr [Array [w]])"
  by (simp add: params_one_def params_single_def split: sum.split)

text \<open>
  A method without parameters accepts their absence, \<open>null\<close>, the empty array and the
  empty object, and nothing else.
\<close>

lemma no_params_exact:
  "params_none val = Inr () \<longleftrightarrow> val \<in> {None, Some Null, Some (Array []), Some (Object [])}"
  by (cases val rule: params_none.cases) (auto simp: bad_params_def)

end
