(* ===== verification/Time_Server.thy ===== *)
theory Time_Server
  imports Discipline Params Serde
begin

text \<open>
  The example \<open>src/examples/time_server.rs\<close>: a \<open>Server\<close> that tells the time, once or, to
  subscribers, periodically.

  The server's own state is what its callbacks reach through the handle of the reactor: the system
  clock (\<open>None\<close> while it is before the epoch, where \<open>now\<close> panics), the outcome of making an
  interval (\<open>Interval::new\<close> is \<open>tokio_core\<close>'s; \<open>None\<close> where it panics), and the tasks it has
  spawned.  A spawned task is the \<open>fold\<close> over an interval: it waits for a tick, or sends the
  notification of the last one; the client it folds over is counted with the connection's.  Logging is
  left out.
\<close>

section \<open>Parameters of a subscription\<close>

record subscribe_params =
  sub_secs :: "64 word"
  sub_nsecs :: "32 word"

text \<open>
  The derived deserializer: other members are ignored, and \<open>nsecs\<close> has a default, in an object
  and at the end of an array.
\<close>

record subscribe_fields =
  sf_secs :: "64 word option"
  sf_nsecs :: "32 word option"

definition no_subscribe_fields :: subscribe_fields where
  "no_subscribe_fields = \<lparr>sf_secs = None, sf_nsecs = None\<rparr>"

fun subscribe_field :: "string \<times> value \<Rightarrow> subscribe_fields \<Rightarrow> de_error + subscribe_fields" where
  "subscribe_field (k, v) acc =
     (if k = ''secs'' then store_field k (sf_secs acc) (de_u64 v) (\<lambda>x. acc\<lparr>sf_secs := x\<rparr>)
      else if k = ''nsecs'' then store_field k (sf_nsecs acc) (de_u32 v) (\<lambda>x. acc\<lparr>sf_nsecs := x\<rparr>)
      else Inr acc)"

definition or_default :: "32 word option \<Rightarrow> 32 word" where
  "or_default x = (case x of None \<Rightarrow> 0 | Some n \<Rightarrow> n)"

definition subscribe_of_fields :: "subscribe_fields \<Rightarrow> de_error + subscribe_params" where
  "subscribe_of_fields acc =
     map_ok (\<lambda>s. \<lparr>sub_secs = s, sub_nsecs = or_default (sf_nsecs acc)\<rparr>)
       (required ''secs'' (sf_secs acc))"

fun de_subscribe_params :: "value \<Rightarrow> de_error + subscribe_params" where
  "de_subscribe_params (Object kvs) =
     and_then (fold_result subscribe_field kvs no_subscribe_fields) subscribe_of_fields"
| "de_subscribe_params (Array vs) =
     next_element 0 de_u64 vs (\<lambda>s vs.
     (if vs = [] then Inr \<lparr>sub_secs = s, sub_nsecs = or_default None\<rparr>
      else next_element 1 de_u32 vs (\<lambda>n vs. no_more 2 vs \<lparr>sub_secs = s, sub_nsecs = n\<rparr>)))"
| "de_subscribe_params _ = Inl (InvalidType ''struct SubscribeParams'')"

section \<open>State\<close>

text \<open>\<open>std::time::Duration\<close>.\<close>

record duration =
  whole_secs :: "64 word"
  nanos :: "32 word"

text \<open>\<open>Duration::new\<close> carries whole seconds over and panics where they do not fit.\<close>

definition duration_new :: "64 word \<Rightarrow> 32 word \<Rightarrow> duration option" where
  "duration_new s n =
     (let carry = ucast (n div 1000000000) :: 64 word
      in if uint s + uint carry < 2 ^ 64 then Some \<lparr>whole_secs = s + carry, nanos = n mod 1000000000\<rparr>
         else None)"

datatype subscription =
    Ticking duration
  | Notifying duration message
  | Over io_error

record reactor =
  unix_time :: "64 word option"
  make_interval :: "duration \<Rightarrow> (string + unit) option"
  tasks :: "subscription list"

definition now :: "reactor conn \<Rightarrow> 64 word option" where
  "now s = unix_time (srv s)"

section \<open>The server\<close>

definition spawn :: "subscription \<Rightarrow> reactor conn \<Rightarrow> reactor conn" where
  "spawn task s = s\<lparr>srv := (srv s)\<lparr>tasks := tasks (srv s) @ [task]\<rparr>\<rparr>"

text \<open>
  From the parsed parameters on, with the client at hand: where there is no interval the closure that
  owns the client is dropped.  \<open>None\<close> is a panic.
\<close>

definition subscribe :: "subscribe_params \<Rightarrow> reactor conn \<Rightarrow> ((rpc_error + value) \<times> reactor conn) option" where
  "subscribe s_params s =
     (case duration_new (sub_secs s_params) (sub_nsecs s_params) of
        None \<Rightarrow> None
      | Some d \<Rightarrow>
          (case make_interval (srv s) d of
             None \<Rightarrow> None
           | Some (Inl e) \<Rightarrow>
               map_option (\<lambda>err. (Inl err, client_drop s))
                 (server_error (\<lambda>t. as_is (String t)) (Some (''Interval: '' @ e)))
           | Some (Inr _) \<Rightarrow> Some (Inr Null, spawn (Ticking d) s)))"

definition time_rpc ::
  "(de_error \<Rightarrow> string) \<Rightarrow> string \<Rightarrow> value option \<Rightarrow> reactor conn
   \<Rightarrow> ((reactor, value) rpc_result option \<times> reactor conn) option"
where
  "time_rpc display method params s =
     (if method = ''now'' then
        map_option (\<lambda>t. (Some (ready (Inr (Number (PosInt t)))), s)) (now s)
      else if method = ''subscribe'' then
        (case jsonrpc_params params [(''s_params'', \<lambda>v. map_err display (de_subscribe_params v))] of
           None \<Rightarrow> None
         | Some (Inl e) \<Rightarrow> Some (Some (ready (Inl e)), s)
         | Some (Inr s_params) \<Rightarrow>
             (case client s of
                (Inl _, t) \<Rightarrow> None
              | (Inr _, t) \<Rightarrow>
                  map_option (\<lambda>(result, u). (Some (ready result), u)) (subscribe (hd s_params) t)))
      else Some (None, s))"

text \<open>
  As a \<open>Server\<close>: a callback that panics gives a future that does.
\<close>

definition time_server :: "(de_error \<Rightarrow> string) \<Rightarrow> (reactor, value) server" where
  "time_server display =
     \<lparr>rpc = (\<lambda>m p s. case time_rpc display m p s of None \<Rightarrow> (Some panicking, s) | Some r \<Rightarrow> r),
      notify = default_notification, initialized = default_initialized\<rparr>"

section \<open>The subscriptions\<close>

text \<open>
  One round of polling the \<open>fold\<close>.  The tick is \<open>None\<close> while the interval runs; where the interval
  fails the client is dropped with the future.  \<open>None\<close> is a panic.
\<close>

definition time_notification :: "64 word \<Rightarrow> message" where
  "time_notification t = client_notify ''time'' (Some (Array [Number (PosInt t)]))"

fun poll_subscription ::
  "room \<Rightarrow> (io_error + unit) option \<Rightarrow> subscription \<Rightarrow> reactor conn \<Rightarrow> (subscription \<times> reactor conn) option"
where
  "poll_subscription accepts tick (Ticking d) s =
     (case tick of
        None \<Rightarrow> Some (Ticking d, s)
      | Some (Inl e) \<Rightarrow> Some (Over e, client_drop s)
      | Some (Inr _) \<Rightarrow>
          map_option (\<lambda>t. (Notifying d (time_notification t), s)) (now s))"
| "poll_subscription accepts tick (Notifying d m) s =
     (case notify_poll accepts m s of
        (NotReady, t) \<Rightarrow> Some (Notifying d m, t)
      | (Ready (Inl e), t) \<Rightarrow> Some (Over e, t)
      | (Ready (Inr _), t) \<Rightarrow> Some (Ticking d, t))"
| "poll_subscription accepts tick (Over e) s = Some (Over e, s)"

definition poll_task :: "room \<Rightarrow> (io_error + unit) option \<Rightarrow> nat \<Rightarrow> reactor conn \<Rightarrow> reactor conn option" where
  "poll_task accepts tick i s =
     map_option (\<lambda>(task, t). t\<lparr>srv := (srv t)\<lparr>tasks := (tasks (srv t))[i := task]\<rparr>\<rparr>)
       (poll_subscription accepts tick (tasks (srv s) ! i) s)"

section \<open>A connection\<close>

text \<open>The closure in \<open>main\<close>: the client that \<open>start\<close> gives is dropped at its end.\<close>

definition time_builder :: "(de_error \<Rightarrow> string) \<Rightarrow> 'c \<Rightarrow> ('c, reactor, value) builder" where
  "time_builder display socket = logger True (endpoint_new socket (time_server display))"

definition time_connection :: "(de_error \<Rightarrow> string) \<Rightarrow> 'c \<Rightarrow> reactor \<Rightarrow> reactor endpoint" where
  "time_connection display socket world =
     (let e = start (time_builder display socket) world
      in e\<lparr>shared := client_drop (shared e)\<rparr>)"

section \<open>The server keeps to the interface\<close>

text \<open>The ways out of a call of \<open>rpc\<close>.\<close>

lemma time_rpc_cases:
  assumes "time_rpc display m p s = Some (r, t)"
  obtains (same) "t = s" and "\<forall>f. r = Some f \<longrightarrow> (\<exists>x. f = ready x)"
  | (refused) err where "t = client_drop (client_new s)" and "r = Some (ready (Inl err))"
      and "terminator s" and "ctl_sender s"
  | (granted) d where "t = spawn (Ticking d) (client_new s)" and "r = Some (ready (Inr Null))"
      and "terminator s" and "ctl_sender s"
  using assms
  by (auto simp: time_rpc_def client_def subscribe_def
      split: if_splits option.splits sum.splits prod.splits)

lemma apis_subscribed:
  assumes "terminator s" and "ctl_sender s"
  shows "apis accepts s (client_drop (client_new s))" and "apis accepts s (spawn task (client_new s))"
proof -
  have "api accepts s (client_new s)"
    using api_client [of accepts s] assms by (simp add: client_def)
  moreover have "api accepts (client_new s) (client_drop (client_new s))" by (intro api_drop) simp
  moreover have "api accepts (client_new s) (spawn task (client_new s))" by (simp add: spawn_def api_srv)
  ultimately show "apis accepts s (client_drop (client_new s))" "apis accepts s (spawn task (client_new s))"
    by (meson rtranclp.rtrancl_refl rtranclp.rtrancl_into_rtrancl)+
qed

lemma time_rpc_tame:
  assumes "time_rpc display m p s = Some (r, t)"
  shows "apis accepts s t \<and> (\<forall>f. r = Some f \<longrightarrow> tame accepts f)"
  using assms by (cases rule: time_rpc_cases) (auto simp: apis_subscribed)

interpretation time: server_contract accepts "time_server display" for accepts display
  by unfold_locales
    (auto simp: time_server_def default_notification_def default_initialized_def
      dest: time_rpc_tame [where accepts = accepts] split: option.splits)

section \<open>The clients of the subscriptions\<close>

primrec ongoing :: "subscription \<Rightarrow> bool" where
  "ongoing (Ticking d) = True"
| "ongoing (Notifying d m) = True"
| "ongoing (Over e) = False"

primrec telling_time :: "subscription \<Rightarrow> bool" where
  "telling_time (Ticking d) = True"
| "telling_time (Notifying d m) = (\<exists>t. m = time_notification t)"
| "telling_time (Over e) = True"

definition watching :: "reactor conn \<Rightarrow> nat" where
  "watching s = length (filter ongoing (tasks (srv s)))"

text \<open>Every client but \<open>k\<close> is a subscription's, and clients are used for nothing else.\<close>

definition attended :: "nat \<Rightarrow> reactor conn \<Rightarrow> bool" where
  "attended k s \<longleftrightarrow>
     clients s = watching s + k \<and> calls s = [] \<and> \<not> kill_fired s \<and> list_all telling_time (tasks (srv s))"

lemma attended_spawn: "attended k s \<Longrightarrow> attended k (spawn (Ticking d) (client_new s))"
  by (simp add: attended_def watching_def spawn_def)

lemma attended_refused: "attended k s \<Longrightarrow> attended k (client_drop (client_new s))"
  by (simp add: attended_def watching_def)

lemma time_rpc_attended:
  assumes "time_rpc display m p s = Some (r, t)"
  shows "(attended k s \<longrightarrow> attended k t) \<and> (\<forall>f. r = Some f \<longrightarrow> keeping (attended k) f)"
  using assms
  by (cases rule: time_rpc_cases) (auto simp: attended_spawn attended_refused)

lemma time_server_attended:
  assumes "rpc (time_server display) m p s = (r, t)"
  shows "(attended k s \<longrightarrow> attended k t) \<and> (\<forall>f. r = Some f \<longrightarrow> keeping (attended k) f)"
  using assms time_rpc_attended by (auto simp: time_server_def split: option.splits)

interpretation clock: upkeep "attended k" "time_server display" for k display
proof
  fix m p s t f
  assume "rpc (time_server display) m p s = (Some f, t)"
  then show "keeping (attended k) f" using time_server_attended by blast
next
  fix m p s t f
  assume "notify (time_server display) m p s = (Some f, t)"
  then show "keeping (attended k) f" by (simp add: time_server_def default_notification_def)
next
  fix s assume s: "attended k s"
  show "attended k t" if "rpc (time_server display) m p s = (r, t)" for m p r t
    using time_server_attended [OF that] s by blast
  show "attended k t" if "notify (time_server display) m p s = (q, t)" for m p q t
    using that s by (simp add: time_server_def default_notification_def)
  show "attended k (do_response a s)" for a
    using s by (simp add: do_response_def attended_def watching_def arrive_def split: option.split)
  show "attended k (idmap_clear s)"
    using s by (simp add: idmap_clear_def attended_def watching_def)
  show "attended k (initialized (time_server display) s)"
    using s by (simp add: time_server_def default_initialized_def)
  show "attended k (terminate s)" "attended k (s\<lparr>chans := cs\<rparr>)"
    "attended k (s\<lparr>outbox := ms, outbox_open := b\<rparr>)" for cs ms b
    using s by (simp_all add: attended_def watching_def)
qed

text \<open>Polling a subscription.\<close>

lemma poll_subscription_attended:
  assumes "attended k s" and "i < length (tasks (srv s))"
    and "poll_subscription accepts tick (tasks (srv s) ! i) s = Some (task, t)"
  shows "apis accepts s t" and "srv t = srv s" and "telling_time task" and "calls t = calls s"
    and "kill_fired t = kill_fired s" and "outbox_open t = outbox_open s"
    and "ongoing task \<Longrightarrow> ongoing (tasks (srv s) ! i)"
    and "clients t = (if ongoing (tasks (srv s) ! i) \<and> \<not> ongoing task then clients s - 1 else clients s)"
proof -
  obtain old where o: "tasks (srv s) ! i = old" by blast
  note poll = assms(3) [unfolded o]
  have old: "telling_time old" using assms(1,2) by (auto simp: attended_def list_all_length o)
  have some: "0 < clients s" if "ongoing old"
  proof -
    have "old \<in> set (filter ongoing (tasks (srv s)))" using assms(2) that o by auto
    then have "0 < watching s" unfolding watching_def by (metis length_pos_if_in_set)
    then show ?thesis using assms(1) by (simp add: attended_def)
  qed
  have "apis accepts s t \<and> srv t = srv s \<and> telling_time task \<and> calls t = calls s \<and>
      kill_fired t = kill_fired s \<and> outbox_open t = outbox_open s \<and> (ongoing task \<longrightarrow> ongoing old) \<and>
      clients t = (if ongoing old \<and> \<not> ongoing task then clients s - 1 else clients s)"
  proof (cases old)
    case (Ticking d)
    then show ?thesis using poll some api_drop [of s accepts]
      by (auto split: option.splits sum.splits)
  next
    case (Notifying d m)
    obtain r u where n: "notify_poll accepts m s = (r, u)" by fastforce
    from old Notifying obtain x where "m = client_notify ''time'' (Some (Array [Number (PosInt x)]))"
      by (auto simp: time_notification_def)
    from api_notify [OF _ this, of s accepts] some Notifying n have "api accepts s u" by simp
    with n Notifying old poll show ?thesis
      by (auto simp: notify_poll_def send_poll_def split: poll.splits sum.splits if_splits)
  next
    case (Over e)
    then show ?thesis using poll by auto
  qed
  then show "apis accepts s t" "srv t = srv s" "telling_time task" "calls t = calls s"
    "kill_fired t = kill_fired s" "outbox_open t = outbox_open s"
    "ongoing task \<Longrightarrow> ongoing (tasks (srv s) ! i)"
    "clients t = (if ongoing (tasks (srv s) ! i) \<and> \<not> ongoing task then clients s - 1 else clients s)"
    unfolding o by blast+
qed

lemma poll_task_attended:
  assumes "attended k s" and i: "i < length (tasks (srv s))" and "poll_task accepts tick i s = Some t"
  shows "apis accepts s t" and "attended k t" and "watching t \<le> watching s"
    and "outbox_open t = outbox_open s"
proof -
  from assms(3) obtain task u where p: "poll_subscription accepts tick (tasks (srv s) ! i) s = Some (task, u)"
    and t: "t = u\<lparr>srv := (srv u)\<lparr>tasks := (tasks (srv u))[i := task]\<rparr>\<rparr>"
    by (auto simp: poll_task_def)
  note poll = poll_subscription_attended [OF assms(1) i p]
  have "api accepts u t" unfolding t by (rule api_srv)
  with poll(1) show "apis accepts s t" by simp
  have w: "watching t = (if ongoing (tasks (srv s) ! i) \<and> \<not> ongoing task then watching s - 1 else watching s)"
    using poll(2,7) i filter_update_same [of i "tasks (srv s)" ongoing task]
      filter_update_drop [of i "tasks (srv s)" ongoing task]
    by (auto simp: watching_def t)
  then show "watching t \<le> watching s" by simp
  have "0 < watching s" if "ongoing (tasks (srv s) ! i)"
    using filter_update_drop [of i "tasks (srv s)" ongoing "Over (OtherError [])"] i that
    by (simp add: watching_def)
  moreover have "list_all telling_time ((tasks (srv s))[i := task])"
    using assms(1) poll(3) by (auto simp: attended_def list_all_iff dest: set_update_subset_insert [THEN subsetD])
  ultimately show "attended k t"
    using assms(1) poll w by (auto simp: attended_def t)
  show "outbox_open t = outbox_open s" using poll(6) by (simp add: t)
qed

end
