(* ===== verification/Subscriptions.thy ===== *)
theory Subscriptions
  imports Time_Server
begin

text \<open>
  What the time server of the examples (\<open>src/examples/time_server.rs\<close>) does: which parameters
  \<open>subscribe\<close> takes, what becomes of a subscription, and how subscriptions and the end of a connection
  depend on each other.
\<close>

section \<open>The parameters\<close>

text \<open>A member that may be absent: \<open>None\<close> where it is there and does not convert.\<close>

definition optional_member ::
  "string \<Rightarrow> (value \<Rightarrow> de_error + 'x) \<Rightarrow> (string \<times> value) list \<Rightarrow> 'x option option"
where
  "optional_member k f kvs =
     (case map_of kvs k of None \<Rightarrow> Some None | Some v \<Rightarrow> map_option Some (ok_of (f v)))"

definition over :: "'x option \<Rightarrow> 'x option \<Rightarrow> 'x option" where
  "over new old = (case new of None \<Rightarrow> old | Some x \<Rightarrow> Some x)"

lemma ok_of_simps [simp]:
  "ok_of (and_then r f) = Option.bind (ok_of r) (\<lambda>x. ok_of (f x))"
  "ok_of (map_ok g r) = map_option g (ok_of r)"
  by (cases r; simp)+

lemma store_field_ok:
  "ok_of (store_field k old new upd) = (if old = None then map_option (\<lambda>x. upd (Some x)) (ok_of new) else None)"
  by (cases new) (auto simp: store_field_def)

lemma fold_subscribe_fields:
  "distinct (map fst kvs) \<Longrightarrow>
   (sf_secs acc \<noteq> None \<longrightarrow> map_of kvs ''secs'' = None) \<Longrightarrow>
   (sf_nsecs acc \<noteq> None \<longrightarrow> map_of kvs ''nsecs'' = None) \<Longrightarrow>
   ok_of (fold_result subscribe_field kvs acc) =
     Option.bind (optional_member ''secs'' de_u64 kvs) (\<lambda>s.
     Option.bind (optional_member ''nsecs'' de_u32 kvs) (\<lambda>n.
       Some \<lparr>sf_secs = over s (sf_secs acc), sf_nsecs = over n (sf_nsecs acc)\<rparr>))"
proof (induction kvs arbitrary: acc)
  case Nil
  then show ?case by (simp add: optional_member_def over_def)
next
  case (Cons p kvs)
  obtain k v where p: "p = (k, v)" by (cases p)
  have new: "map_of kvs k = None" using Cons.prems(1) p by (simp add: map_of_eq_None_iff)
  consider (secs) "k = ''secs''" | (nsecs) "k = ''nsecs''" | (other) "k \<noteq> ''secs''" "k \<noteq> ''nsecs''" by blast
  then show ?case
  proof cases
    case secs
    then have "sf_secs acc = None" using Cons.prems(2) p by auto
    with secs new p Cons.prems show ?thesis
      by (cases "de_u64 v") (simp_all add: store_field_ok Cons.IH optional_member_def over_def)
  next
    case nsecs
    then have "sf_nsecs acc = None" using Cons.prems(3) p by auto
    with nsecs new p Cons.prems show ?thesis
      by (cases "de_u32 v") (simp_all add: store_field_ok Cons.IH optional_member_def over_def)
  next
    case other
    with p Cons.prems show ?thesis by (simp add: Cons.IH optional_member_def)
  qed
qed

lemma subscribe_object:
  assumes "btree_inv kvs"
  shows "de_subscribe_params (Object kvs) = Inr sp \<longleftrightarrow>
    (\<exists>w. map_of kvs ''secs'' = Some w \<and> de_u64 w = Inr (sub_secs sp)) \<and>
    (case map_of kvs ''nsecs'' of None \<Rightarrow> sub_nsecs sp = 0 | Some w \<Rightarrow> de_u32 w = Inr (sub_nsecs sp))"
proof -
  have "distinct (map fst kvs)" using assms by (simp add: btree_inv_def strict_sorted_iff)
  from fold_subscribe_fields [OF this, of no_subscribe_fields]
  have "ok_of (de_subscribe_params (Object kvs)) =
      Option.bind (optional_member ''secs'' de_u64 kvs) (\<lambda>s.
      Option.bind (optional_member ''nsecs'' de_u32 kvs) (\<lambda>n.
        map_option (\<lambda>s. \<lparr>sub_secs = s, sub_nsecs = or_default n\<rparr>) s))"
    by (cases "optional_member ''secs'' de_u64 kvs"; cases "optional_member ''nsecs'' de_u32 kvs")
      (auto simp: no_subscribe_fields_def over_def subscribe_of_fields_def required_def split: option.splits)
  then have "de_subscribe_params (Object kvs) = Inr sp \<longleftrightarrow>
      Option.bind (optional_member ''secs'' de_u64 kvs) (\<lambda>s.
      Option.bind (optional_member ''nsecs'' de_u32 kvs) (\<lambda>n.
        map_option (\<lambda>s. \<lparr>sub_secs = s, sub_nsecs = or_default n\<rparr>) s)) = Some sp"
    by (metis ok_of_eq_Some)
  then show ?thesis
    by (cases sp) (auto simp: optional_member_def or_default_def bind_eq_Some_conv
        simp del: de_subscribe_params.simps split: option.splits)
qed

lemma subscribe_array:
  "de_subscribe_params (Array vs) = Inr sp \<longleftrightarrow>
   (\<exists>w. vs = [w] \<and> de_u64 w = Inr (sub_secs sp) \<and> sub_nsecs sp = 0) \<or>
   (\<exists>w x. vs = [w, x] \<and> de_u64 w = Inr (sub_secs sp) \<and> de_u32 x = Inr (sub_nsecs sp))"
proof -
  consider "vs = []" | w where "vs = [w]" | w x where "vs = [w, x]"
    | w x y ys where "vs = w # x # y # ys"
    by (metis list.exhaust)
  then show ?thesis by cases (cases sp; auto simp: result_simps or_default_def)+
qed

text \<open>
  What the caller of \<open>subscribe\<close> asks for: the parameters may be the structure itself, an array that
  holds it, or an object that has it as the member \<open>s_params\<close>.
\<close>

fun unwrapped :: "value \<Rightarrow> subscribe_params option" where
  "unwrapped (Array [v]) = ok_of (de_subscribe_params v)"
| "unwrapped (Object m) = Option.bind (map_of m ''s_params'') (\<lambda>v. ok_of (de_subscribe_params v))"
| "unwrapped v = None"

definition requested :: "value option \<Rightarrow> subscribe_params option" where
  "requested p =
     Option.bind p (\<lambda>v. over (ok_of (de_subscribe_params v)) (unwrapped v))"

lemma one_variable:
  "\<exists>e. jsonrpc_params p [(k, ty)] =
     Some (case Option.bind p (\<lambda>v. over (ok_of (ty v))
               (case v of Array [w] \<Rightarrow> ok_of (ty w) | Object m \<Rightarrow> ok_of (ty (subval m k)) | _ \<Rightarrow> None)) of
             Some x \<Rightarrow> Inr [x]
           | None \<Rightarrow> Inl (invalid_params (Some e)))"
proof (cases p)
  case None
  then show ?thesis using single_variable [of k ty] by (auto simp: bad_params_def)
next
  case (Some v)
  have one: "\<exists>e. tuple [params_single ty w] =
      (case ok_of (ty w) of Some x \<Rightarrow> Inr [x] | None \<Rightarrow> Inl (invalid_params (Some e)))" for w
    by (cases "ty w") (auto simp: params_single_def)
  show ?thesis
  proof (cases "ty v")
    case (Inr x)
    with Some show ?thesis using single_variable [of k ty v] by (simp add: over_def)
  next
    case (Inl e)
    then have p: "jsonrpc_params p [(k, ty)] = params_decide (Some v) [(k, ty)]" "over (ok_of (ty v)) y = y" for y
      using single_variable [of k ty v] Some by (simp_all add: over_def)
    show ?thesis
    proof (cases v)
      case (Array vs)
      consider "vs = []" | w where "vs = [w]" | w x ws where "vs = w # x # ws" by (metis list.exhaust)
      then show ?thesis using one by cases (use Some p Array in \<open>auto simp: bad_params_def\<close>)
    next
      case (Object m)
      then show ?thesis using Some p one by simp
    qed (use Some p in \<open>auto simp: bad_params_def\<close>)
  qed
qed

lemma params_requested:
  "\<exists>e. jsonrpc_params p [(''s_params'', \<lambda>v. map_err display (de_subscribe_params v))] =
     Some (case requested p of Some sp \<Rightarrow> Inr [sp] | None \<Rightarrow> Inl (invalid_params (Some e)))"
proof -
  have ok: "ok_of (map_err f r) = ok_of r" for f :: "de_error \<Rightarrow> string" and r :: "de_error + subscribe_params"
    by (cases r) auto
  have "(case v of Array [w] \<Rightarrow> ok_of (de_subscribe_params w)
         | Object m \<Rightarrow> ok_of (de_subscribe_params (subval m ''s_params'')) | _ \<Rightarrow> None) = unwrapped v" for v
    by (cases v rule: unwrapped.cases) (auto simp: subval_def split: option.split)
  then show ?thesis
    using one_variable [of p "''s_params''" "\<lambda>v. map_err display (de_subscribe_params v)"]
    by (simp only: ok requested_def)
qed

section \<open>Subscribing\<close>

text \<open>
  What \<open>subscribe\<close> takes.  A document asks for a subscription in exactly these forms: an object
  with a member \<open>secs\<close> that is an unsigned 64-bit number and, if it has a member \<open>nsecs\<close>, one that is
  an unsigned 32-bit number, whatever other members there are; or an array of the one or the two
  numbers, in this order.  Where the nanoseconds are left out they are zero.
\<close>

lemma subscribe_params_exact:
  assumes "wf_value v"
  shows "de_subscribe_params v = Inr sp \<longleftrightarrow>
    (\<exists>m w. v = Object m \<and> map_of m ''secs'' = Some w \<and> de_u64 w = Inr (sub_secs sp) \<and>
       (case map_of m ''nsecs'' of None \<Rightarrow> sub_nsecs sp = 0 | Some x \<Rightarrow> de_u32 x = Inr (sub_nsecs sp))) \<or>
    (\<exists>w. v = Array [w] \<and> de_u64 w = Inr (sub_secs sp) \<and> sub_nsecs sp = 0) \<or>
    (\<exists>w x. v = Array [w, x] \<and> de_u64 w = Inr (sub_secs sp) \<and> de_u32 x = Inr (sub_nsecs sp))"
proof (cases v)
  case (Array vs)
  then show ?thesis using subscribe_array [of vs sp] by auto
next
  case (Object m)
  then have "btree_inv m" using assms by simp
  from subscribe_object [OF this, of sp] Object show ?thesis by auto
qed simp_all

lemma client_refused [simp]: "0 < term_refs s \<Longrightarrow> client_drop (client_new s) = s"
  by (simp add: client_drop_def client_new_def rc_clone_def rc_drop_def)

text \<open>\<open>Duration::new\<close>: the seconds carried over from the nanoseconds may overflow.\<close>

lemma uint_carry: "uint (ucast (n div 1000000000 :: 32 word) :: 64 word) = uint n div 1000000000"
proof -
  have "uint (n div 1000000000) = uint n div 1000000000"
    by (simp add: uint_div_distrib)
  moreover have "uint (ucast y :: 64 word) = uint y" for y :: "32 word"
    using unsigned_less [of y, where ?'a = int] by (simp add: unsigned_ucast_eq take_bit_int_eq_self)
  ultimately show ?thesis by simp
qed

lemma duration_new_overflow:
  "duration_new s n = None \<longleftrightarrow> 2 ^ 64 \<le> uint s + uint n div 1000000000"
  by (simp add: duration_new_def uint_carry)

lemma duration_new_exact:
  assumes "uint s + uint n div 1000000000 < 2 ^ 64"
  shows "\<exists>d. duration_new s n = Some d \<and> uint (whole_secs d) = uint s + uint n div 1000000000 \<and>
    uint (nanos d) = uint n mod 1000000000"
proof -
  have "uint (s + ucast (n div 1000000000 :: 32 word)) = uint s + uint n div 1000000000"
    using assms by (simp add: uint_carry uint_word_ariths mod_pos_pos_trivial pos_imp_zdiv_nonneg_iff)
  then show ?thesis using assms by (simp add: duration_new_def uint_carry uint_mod_distrib Let_def)
qed

text \<open>
  C24. Calling \<open>subscribe\<close> on a connection that has not stopped.  Without usable parameters the caller
  gets an invalid-params error and nothing changes.  Otherwise the interval's length is the seconds
  and the nanoseconds asked for, whole seconds carried over; where that is too long for a duration the
  server panics, so a remote caller can bring it down.  Where the interval cannot be made the caller
  gets a server error with the reason and the connection is as before, the client given back.  Else
  the caller gets \<open>null\<close>, and there is one more subscription, with a client of its own.
\<close>

theorem subscribe_outcome:
  assumes "conn_ok k s" and "\<not> stop s"
  shows "case requested p of
      None \<Rightarrow> (\<exists>e. time_rpc display ''subscribe'' p s = Some (Some (ready (Inl (invalid_params (Some e)))), s))
    | Some sp \<Rightarrow>
        (if 2 ^ 64 \<le> uint (sub_secs sp) + uint (sub_nsecs sp) div 1000000000
         then time_rpc display ''subscribe'' p s = None
         else \<exists>d. uint (whole_secs d) = uint (sub_secs sp) + uint (sub_nsecs sp) div 1000000000 \<and>
                  uint (nanos d) = uint (sub_nsecs sp) mod 1000000000 \<and>
                  time_rpc display ''subscribe'' p s =
                    (case make_interval (srv s) d of
                       None \<Rightarrow> None
                     | Some (Inl e) \<Rightarrow>
                         Some (Some (ready (Inl \<lparr>err_code = - 32000, err_message = ''Server error'',
                           err_data = Some (String (''Interval: '' @ e))\<rparr>)), s)
                     | Some (Inr _) \<Rightarrow>
                         Some (Some (ready (Inr Null)),
                           (client_new s)\<lparr>srv := (srv s)\<lparr>tasks := tasks (srv s) @ [Ticking d]\<rparr>\<rparr>)))"
proof -
  have handles: "terminator s" "ctl_sender s" "0 < term_refs s"
    using assms by (auto simp: conn_ok_def ctl_ok_def refs_ok_def)
  obtain e where e: "jsonrpc_params p [(''s_params'', \<lambda>v. map_err display (de_subscribe_params v))] =
     Some (case requested p of Some sp \<Rightarrow> Inr [sp] | None \<Rightarrow> Inl (invalid_params (Some e)))"
    using params_requested by blast
  show ?thesis
  proof (cases "requested p")
    case None
    with e show ?thesis by (auto simp: time_rpc_def)
  next
    case (Some sp)
    have rpc: "time_rpc display ''subscribe'' p s =
        map_option (\<lambda>(result, u). (Some (ready result), u)) (subscribe sp (client_new s))"
      using e Some handles by (simp add: time_rpc_def client_def)
    show ?thesis
    proof (cases "2 ^ 64 \<le> uint (sub_secs sp) + uint (sub_nsecs sp) div 1000000000")
      case True
      then have "duration_new (sub_secs sp) (sub_nsecs sp) = None" using duration_new_overflow by blast
      with True show ?thesis by (simp add: Some rpc subscribe_def)
    next
      case False
      then obtain d where d: "duration_new (sub_secs sp) (sub_nsecs sp) = Some d"
        "uint (whole_secs d) = uint (sub_secs sp) + uint (sub_nsecs sp) div 1000000000"
        "uint (nanos d) = uint (sub_nsecs sp) mod 1000000000"
        using duration_new_exact by (metis not_le)
      with False Some handles show ?thesis
        by (auto simp: rpc subscribe_def server_error_def rpc_error_new_def spawn_def
            intro!: exI [of _ d] split: option.split sum.split)
    qed
  qed
qed

text \<open>A world for the witnesses, and a connection in it.\<close>

definition summer :: reactor where
  "summer = \<lparr>unix_time = Some 1500000000, make_interval = (\<lambda>_. Some (Inr ())), tasks = []\<rparr>"

definition no_text :: "de_error \<Rightarrow> string" where
  "no_text _ = []"

definition visitor :: "reactor endpoint" where
  "visitor = time_connection no_text () summer"

lemma visitor_fields [simp]:
  "stop (shared visitor) = False" "terminator (shared visitor)" "ctl_sender (shared visitor)"
  "killer (shared visitor)" "srv (shared visitor) = summer" "clients (shared visitor) = 0"
  "calls (shared visitor) = []" "idmap (shared visitor) = Map.empty" "term_refs (shared visitor) = 1"
  "senders (shared visitor) = 1" "\<not> term_fired (shared visitor)" "\<not> kill_fired (shared visitor)"
  "outbox (shared visitor) = []" "outbox_open (shared visitor)" "chans (shared visitor) = []"
  "reading visitor" "backlog visitor = []" "pool visitor = []" "width visitor = 1" "wire visitor = []"
  "finish visitor = None" "\<not> crashed visitor"
  by (simp_all add: visitor_def time_connection_def time_builder_def logger_def endpoint_new_def start_def
      time_server_def default_initialized_def start_conn_def Let_def)

lemma visitor_ok: "conn_ok 0 (shared visitor)"
  by (simp add: conn_ok_def refs_ok_def ctl_ok_def ids_ok_def live_calls_def)

definition too_long :: "value" where
  "too_long = Object [(''nsecs'', Number (PosInt 1000000000)), (''secs'', Number (PosInt 18446744073709551615))]"

theorem subscribe_outcome_witness:
  "time_rpc no_text ''subscribe'' (Some too_long) (shared visitor) = None"
proof -
  have "requested (Some too_long) = Some \<lparr>sub_secs = 18446744073709551615, sub_nsecs = 1000000000\<rparr>"
    by (simp add: requested_def too_long_def over_def no_subscribe_fields_def store_field_def
        subscribe_of_fields_def required_def or_default_def)
  then show ?thesis using subscribe_outcome [OF visitor_ok, of no_text "Some too_long"] by simp
qed

section \<open>The process around a connection\<close>

text \<open>
  What happens to a connection of the time server: the endpoint moves by itself, a subscription is
  polled, or the world outside changes its clock or the timers it gives.  A panic in a subscription
  brings the process down.  Nobody else has a handle of the connection.
\<close>

definition outside :: "64 word option \<Rightarrow> (duration \<Rightarrow> (string + unit) option) \<Rightarrow> reactor conn \<Rightarrow> reactor conn" where
  "outside t timers s = s\<lparr>srv := (srv s)\<lparr>unix_time := t, make_interval := timers\<rparr>\<rparr>"

inductive time_step :: "room \<Rightarrow> (de_error \<Rightarrow> string) \<Rightarrow> reactor endpoint \<Rightarrow> reactor endpoint \<Rightarrow> bool"
  for accepts display where
  time_event:
    "event accepts as_is (time_server display) l e e' \<Longrightarrow> l \<noteq> Used \<Longrightarrow> time_step accepts display e e'"
| time_task:
    "\<not> crashed e \<Longrightarrow> i < length (tasks (srv (shared e))) \<Longrightarrow>
     poll_task accepts tick i (shared e) = Some t \<Longrightarrow> time_step accepts display e (e\<lparr>shared := t\<rparr>)"
| time_panic:
    "\<not> crashed e \<Longrightarrow> i < length (tasks (srv (shared e))) \<Longrightarrow>
     poll_task accepts tick i (shared e) = None \<Longrightarrow> time_step accepts display e (e\<lparr>crashed := True\<rparr>)"
| time_outside:
    "\<not> crashed e \<Longrightarrow> time_step accepts display e (e\<lparr>shared := outside t timers (shared e)\<rparr>)"

definition time_reachable :: "room \<Rightarrow> (de_error \<Rightarrow> string) \<Rightarrow> 'c \<Rightarrow> reactor \<Rightarrow> reactor endpoint \<Rightarrow> bool" where
  "time_reachable accepts display socket world e \<longleftrightarrow>
     (time_step accepts display)\<^sup>*\<^sup>* (time_connection display socket world) e"

definition time_ok :: "room \<Rightarrow> reactor endpoint \<Rightarrow> bool" where
  "time_ok accepts e \<longleftrightarrow>
     endpoint_ok accepts e \<and> clock.orderly 0 e \<and>
     (finish e \<noteq> None \<longrightarrow> \<not> outbox_open (shared e)) \<and>
     (finish e = Some (Inr ()) \<longrightarrow> watching (shared e) = 0)"

lemma orderly_cong:
  "attended k t \<Longrightarrow> clock.orderly k e \<Longrightarrow> clock.orderly k (e\<lparr>shared := t\<rparr>)"
  by (simp add: clock.orderly_def clock.tidy_def)

lemma attended_outside: "attended k s \<Longrightarrow> attended k (outside t timers s)"
  by (simp add: attended_def watching_def outside_def)

lemma time_ok_start: "tasks world = [] \<Longrightarrow> time_ok accepts (time_connection display socket world)"
proof -
  assume none: "tasks world = []"
  let ?e = "start (time_builder display socket) world"
  have server: "the_server (time_builder display socket) = time_server display"
    by (simp add: time_builder_def logger_def endpoint_new_def)
  have ok: "endpoint_ok accepts ?e"
    by (rule endpoint_ok_start) (simp add: server time.server_contract_axioms)
  have fields: "clients (shared ?e) = 1" "calls (shared ?e) = []" "\<not> kill_fired (shared ?e)"
    "srv (shared ?e) = world" "pool ?e = []" "backlog ?e = []" "finish ?e = None"
    by (simp_all add: start_def Let_def server time_server_def default_initialized_def start_conn_def)
  then have "endpoint_ok accepts (?e\<lparr>shared := client_drop (shared ?e)\<rparr>)"
    by (intro endpoint_ok_user [OF ok] api_drop) simp
  then show ?thesis using fields none
    by (simp add: time_ok_def time_connection_def clock.orderly_def clock.tidy_def attended_def watching_def Let_def)
qed

lemma time_ok_step:
  assumes "time_step accepts display e e'" and "time_ok accepts e"
  shows "time_ok accepts e'"
  using assms(1)
proof (cases rule: time_step.cases)
  case (time_event l)
  note own = own_step_finish [OF time_event]
  have ok: "endpoint_ok accepts e'"
    by (rule endpoint_ok_step [OF time.server_contract_axioms event_step [OF time_event(1)]])
      (use assms(2) in \<open>simp add: time_ok_def\<close>)
  have orderly: "clock.orderly 0 e'"
    by (rule clock.own_step_keeps [OF time_event]) (use assms(2) in \<open>simp add: time_ok_def\<close>)
  have att: "attended 0 (shared e)" "refs_ok 0 (shared e)"
    using assms(2) by (simp_all add: time_ok_def clock.orderly_def clock.tidy_def endpoint_ok_def conn_ok_def)
  then have "watching (shared e) = 0" if "senders (shared e) = 0"
    using that by (simp add: attended_def refs_ok_def)
  moreover have "watching (shared e') = watching (shared e)" if "finish e' = Some (Inr ())"
    using own that by (simp add: watching_def)
  ultimately show ?thesis using ok orderly own att(1) by (auto simp: time_ok_def attended_def)
next
  case (time_task i tick t)
  have att: "attended 0 (shared e)" using assms(2) by (simp add: time_ok_def clock.orderly_def clock.tidy_def)
  note poll = poll_task_attended [OF att time_task(3,4)]
  show ?thesis
    using assms(2) poll(3,4) orderly_cong [OF poll(2)] endpoint_ok_apis [OF poll(1)]
    by (auto simp: time_ok_def time_task(1))
next
  case (time_panic i tick)
  then show ?thesis using assms(2)
    by (auto simp: time_ok_def endpoint_ok_def clock.orderly_def clock.tidy_def running_def)
next
  case (time_outside t timers)
  have "api accepts (shared e) (outside t timers (shared e))" by (simp add: outside_def api_srv)
  then have "endpoint_ok accepts e'"
    using endpoint_ok_user [of accepts e] assms(2) time_outside(1) by (simp add: time_ok_def)
  moreover have "clock.orderly 0 e'"
    using assms(2) attended_outside [of 0 "shared e" t timers]
    by (simp add: time_outside(1) time_ok_def clock.orderly_def clock.tidy_def)
  ultimately show ?thesis using assms(2) by (auto simp: time_ok_def time_outside(1) outside_def watching_def)
qed

lemma time_reachable_ok:
  assumes "time_reachable accepts display socket world e" and "tasks world = []"
  shows "time_ok accepts e"
  using assms(1) unfolding time_reachable_def
  by (induction rule: rtranclp_induct) (auto intro: time_ok_start [OF assms(2)] time_ok_step)

lemma time_ok_clients:
  assumes "time_ok accepts e"
  shows "clients (shared e) = watching (shared e)"
    and "term_refs (shared e) = (if terminator (shared e) then 1 else 0) + watching (shared e)"
    and "senders (shared e) = (if ctl_sender (shared e) then 1 else 0) + watching (shared e)"
    and "term_fired (shared e) \<longleftrightarrow> term_refs (shared e) = 0"
    and "ctl_sender (shared e) \<longleftrightarrow> \<not> stop (shared e)"
  using assms
  by (auto simp: time_ok_def clock.orderly_def clock.tidy_def attended_def endpoint_ok_def conn_ok_def refs_ok_def
      ctl_ok_def live_calls_def)

text \<open>
  C22. A subscription holds its connection.  In every state the process can reach, the handles of the
  connection are the control's and one per subscription that goes on: so the terminator fires exactly
  when the control has given its own up and the last subscription is over, and a connection that has
  ended without an error has no subscription left.  A peer that has stopped sending is therefore
  still told the time until it cannot be reached any more.
\<close>

theorem subscriptions_hold_connection:
  assumes "time_reachable accepts display socket world e" and "tasks world = []"
  shows "(term_fired (shared e) \<longleftrightarrow>
      \<not> terminator (shared e) \<and> filter ongoing (tasks (srv (shared e))) = []) \<and>
    clients (shared e) = length (filter ongoing (tasks (srv (shared e)))) \<and>
    senders (shared e) =
      (if stop (shared e) then 0 else 1) + length (filter ongoing (tasks (srv (shared e)))) \<and>
    (finish e = Some (Inr ()) \<longrightarrow> filter ongoing (tasks (srv (shared e))) = [])"
  using time_ok_clients [OF time_reachable_ok [OF assms]] time_reachable_ok [OF assms]
  by (auto simp: watching_def time_ok_def)

text \<open>A connection with one subscription.\<close>

definition every_second :: request where
  "every_second =
     \<lparr>req_jsonrpc = Version, req_method = ''subscribe'',
      req_params = Some (Array [Number (PosInt 1)]), req_id = Null\<rparr>"

definition second :: duration where
  "second = \<lparr>whole_secs = 1, nanos = 0\<rparr>"

definition subscribed :: "reactor endpoint" where
  "subscribed = receive as_is (time_server no_text) (Inr (Request every_second)) visitor"

lemma time_rpc_every_second:
  "rpc (time_server no_text) ''subscribe'' (Some (Array [Number (PosInt 1)])) (shared visitor) =
     (Some (ready (Inr Null)), spawn (Ticking second) (client_new (shared visitor)))"
proof -
  have "duration_new 1 0 = Some second"
    by (simp add: duration_new_def second_def)
  then show ?thesis
    by (simp add: time_server_def time_rpc_def params_one_def params_single_def or_default_def client_def
        subscribe_def summer_def Let_def)
qed

lemma subscribed_fields:
  "shared subscribed = spawn (Ticking second) (client_new (shared visitor))" "finish subscribed = None"
  "\<not> crashed subscribed"
  by (simp_all add: subscribed_def receive_def do_msg_running do_request_def every_second_def time_rpc_every_second)

lemma visitor_reachable: "time_reachable accepts no_text () summer visitor"
  by (simp add: time_reachable_def visitor_def)

lemma time_reachable_step:
  "time_reachable accepts display socket world e \<Longrightarrow> time_step accepts display e e' \<Longrightarrow>
   time_reachable accepts display socket world e'"
  by (simp add: time_reachable_def)

lemma subscribed_reachable: "time_reachable accepts no_text () summer subscribed"
proof (rule time_reachable_step [OF visitor_reachable])
  have "event accepts as_is (time_server no_text) (received (Inr (Request every_second)) visitor) visitor subscribed"
    unfolding subscribed_def by (rule event_receive) (simp add: hungry_def running_def)
  then show "time_step accepts no_text visitor subscribed"
    by (rule time_event) (simp add: received_def)
qed

theorem subscriptions_hold_connection_witness:
  "\<not> term_fired (shared subscribed) \<and> senders (shared subscribed) = 2"
  using subscriptions_hold_connection [OF subscribed_reachable [of exact]]
  by (simp add: subscribed_fields spawn_def summer_def)

section \<open>The end of the subscriptions\<close>

primrec steps_left :: "subscription \<Rightarrow> nat" where
  "steps_left (Ticking d) = 2"
| "steps_left (Notifying d m) = 1"
| "steps_left (Over e) = 0"

definition restless :: "reactor conn \<Rightarrow> nat" where
  "restless s = sum_list (map steps_left (tasks (srv s)))"

lemma sum_list_update_less:
  fixes xs :: "nat list"
  shows "i < length xs \<Longrightarrow> y < xs ! i \<Longrightarrow> sum_list (xs[i := y]) < sum_list xs"
proof (induction xs arbitrary: i)
  case Nil
  then show ?case by simp
next
  case (Cons x xs)
  then show ?case by (cases i) auto
qed

text \<open>On a connection that is gone, one more round brings an ongoing subscription nearer to its end.\<close>

lemma ongoing_advances:
  assumes "\<not> outbox_open s" and "unix_time (srv s) = Some c"
    and "i < length (tasks (srv s))" and "ongoing (tasks (srv s) ! i)"
  shows "\<exists>tick t. poll_task accepts tick i s = Some t \<and> restless t < restless s \<and>
    unix_time (srv t) = Some c"
proof -
  have less: "restless (t\<lparr>srv := (srv t)\<lparr>tasks := (tasks (srv s))[i := task]\<rparr>\<rparr>) < restless s"
    if "steps_left task < steps_left (tasks (srv s) ! i)" for task t
    using sum_list_update_less [of i "map steps_left (tasks (srv s))" "steps_left task"] that assms(3)
    by (simp add: restless_def map_update)
  show ?thesis
  proof (cases "tasks (srv s) ! i")
    case (Ticking d)
    then have "poll_task accepts (Some (Inr ())) i s =
        Some (s\<lparr>srv := (srv s)\<lparr>tasks := (tasks (srv s))[i := Notifying d (time_notification c)]\<rparr>\<rparr>)"
      using assms(2) by (simp add: poll_task_def now_def)
    with less [of "Notifying d (time_notification c)" s] Ticking assms(2) show ?thesis by fastforce
  next
    case (Notifying d m)
    let ?e = "shouldnt_happen m"
    let ?t = "client_drop s"
    have "poll_task accepts None i s =
        Some (?t\<lparr>srv := (srv ?t)\<lparr>tasks := (tasks (srv ?t))[i := Over ?e]\<rparr>\<rparr>)"
      using assms(1) Notifying by (simp add: poll_task_def notify_poll_def send_poll_def)
    with less [of "Over ?e" ?t] Notifying assms(2) show ?thesis by fastforce
  next
    case (Over e)
    with assms(4) show ?thesis by simp
  qed
qed

lemma subscriptions_run_out:
  assumes "attended k (shared e)" and "\<not> outbox_open (shared e)" and "\<not> crashed e"
    and "unix_time (srv (shared e)) = Some c"
  shows "\<exists>t. (time_step accepts display)\<^sup>*\<^sup>* e (e\<lparr>shared := t\<rparr>) \<and> attended k t \<and> watching t = 0"
  using assms
proof (induction "restless (shared e)" arbitrary: e rule: less_induct)
  case less
  let ?s = "shared e"
  show ?case
  proof (cases "watching ?s = 0")
    case True
    with less.prems(1) show ?thesis by (intro exI [of _ ?s]) simp
  next
    case False
    then obtain task where "task \<in> set (filter ongoing (tasks (srv ?s)))"
      by (auto simp: watching_def dest: hd_in_set)
    then obtain i where i: "i < length (tasks (srv ?s))" "ongoing (tasks (srv ?s) ! i)"
      by (auto simp: in_set_conv_nth)
    from ongoing_advances [OF less.prems(2,4) i] obtain tick t where
      t: "poll_task accepts tick i ?s = Some t" "restless t < restless ?s" "unix_time (srv t) = Some c"
      by blast
    note poll = poll_task_attended [OF less.prems(1) i(1) t(1)]
    have "time_step accepts display e (e\<lparr>shared := t\<rparr>)"
      by (rule time_task [OF less.prems(3) i(1) t(1)])
    moreover obtain u where "(time_step accepts display)\<^sup>*\<^sup>* (e\<lparr>shared := t\<rparr>) (e\<lparr>shared := t, shared := u\<rparr>)"
      "attended k u" "watching u = 0"
      using less.hyps [of "e\<lparr>shared := t\<rparr>"] t poll less.prems(2,3) by auto
    ultimately show ?thesis by (auto intro: converse_rtranclp_into_rtranclp)
  qed
qed


definition lost :: "reactor endpoint" where
  "lost = transmitted (Inl (TransportError ''reset'')) subscribed"

lemma lost_reachable: "time_reachable accepts no_text () summer lost"
proof (rule time_reachable_step [OF subscribed_reachable])
  have "event accepts as_is (time_server no_text) Quiet subscribed lost"
    unfolding lost_def by (rule event_write_error) (simp add: running_def subscribed_fields)
  then show "time_step accepts no_text subscribed lost" by (rule time_event) simp
qed


text \<open>
  A tick tells the time.  While the connection lives and its channel has room, a tick of a
  subscription's interval sends one notification \<open>time\<close> with the seconds the clock then shows, and
  leaves the subscription waiting for its next tick with its client; where the channel is full the
  notification waits for room; and a failed interval ends the subscription and gives its client back.
\<close>

lemma tick_tells_time:
  assumes "outbox_open s" and "unix_time (srv s) = Some c"
    and "i < length (tasks (srv s))" and "tasks (srv s) ! i = Ticking d"
  shows "(\<exists>t. poll_task accepts (Some (Inr ())) i s = Some t \<and> outbox t = outbox s \<and>
      poll_task accepts tick i t =
        (if accepts 32 (length (outbox s))
         then Some (s\<lparr>outbox := outbox s @ [Notification
           \<lparr>notif_jsonrpc = Version, notif_method = ''time'', notif_params = Some (Array [Number (PosInt c)])\<rparr>]\<rparr>)
         else Some t)) \<and>
    poll_task accepts (Some (Inl err)) i s =
      Some ((client_drop s)\<lparr>srv := (srv s)\<lparr>tasks := (tasks (srv s))[i := Over err]\<rparr>\<rparr>)"
proof
  let ?t = "s\<lparr>srv := (srv s)\<lparr>tasks := (tasks (srv s))[i := Notifying d (time_notification c)]\<rparr>\<rparr>"
  have "srv s\<lparr>tasks := (tasks (srv s))[i := Ticking d]\<rparr> = srv s"
    using assms(4) by (cases "srv s") (metis list_update_id reactor.select_convs(3) reactor.update_convs(3))
  then have "s\<lparr>outbox := ms, srv := srv s\<lparr>tasks := (tasks (srv s))[i := Ticking d]\<rparr>\<rparr> = s\<lparr>outbox := ms\<rparr>" for ms
    by (cases s) simp
  then show "\<exists>t. poll_task accepts (Some (Inr ())) i s = Some t \<and> outbox t = outbox s \<and>
      poll_task accepts tick i t =
        (if accepts 32 (length (outbox s))
         then Some (s\<lparr>outbox := outbox s @ [Notification
           \<lparr>notif_jsonrpc = Version, notif_method = ''time'', notif_params = Some (Array [Number (PosInt c)])\<rparr>]\<rparr>)
         else Some t)"
    using assms
    by (intro exI [of _ ?t])
      (auto simp: poll_task_def now_def notify_poll_def send_poll_def outgoing_capacity_def
        time_notification_def client_notify_def message_notification_def)
qed (use assms in \<open>simp add: poll_task_def\<close>)

end
