(* ===== verification/Calls.thy ===== *)
theory Calls
  imports Jobs
begin

text \<open>
  The life of a call (\<open>Client::call\<close>, \<open>do_response\<close> of \<open>src/src/endpoint.rs\<close>): it is
  registered under its id before its message is sent, woken by the response with that id, by its
  timer or by the loss of the connection, and then forgotten.
\<close>

section \<open>Lemmas\<close>

lemma ids_okD:
  assumes "ids_ok s" and "idmap s k = Some i"
  shows "i < length (calls s)" and "call_id (calls s ! i) = k" and "slot (calls s ! i) = Waiting"
  using assms by (auto simp: ids_ok_def)

lemma do_response_String:
  assumes "resp_id r = String k"
  shows "do_response r s =
    (case idmap s k of
       None \<Rightarrow> s
     | Some i \<Rightarrow> s\<lparr>idmap := (idmap s)(k := None), calls := arrive i r (calls s)\<rparr>)"
  using assms by (simp add: do_response_def split: option.split)

text \<open>
  Responses go to the call with their id and to no other: a response whose id is no string, or that
  nobody waits for, changes nothing; any other changes the one call registered under its id, which
  was waiting, and removes the id.
\<close>

lemma do_response_cases [consumes 1]:
  assumes "ids_ok s"
  obtains (nobody) "do_response r s = s" and "\<forall>k. resp_id r = String k \<longrightarrow> idmap s k = None"
  | (somebody) i where "i < length (calls s)" and "resp_id r = String (call_id (calls s ! i))"
      and "slot (calls s ! i) = Waiting" and "idmap s (call_id (calls s ! i)) = Some i"
      and "do_response r s = s\<lparr>idmap := (idmap s)(call_id (calls s ! i) := None),
          calls := (calls s)[i := (calls s ! i)\<lparr>slot := Arrived r\<rparr>]\<rparr>"
proof (cases "Option.bind (as_str (resp_id r)) (idmap s)")
  case None
  then show ?thesis by (intro nobody) (auto simp: do_response_def)
next
  case (Some i)
  then obtain x where x: "resp_id r = String x" "idmap s x = Some i"
    by (auto simp: bind_eq_Some_conv as_str_Some)
  with ids_okD [OF assms x(2)] show ?thesis
    by (intro somebody [of i]) (auto simp: do_response_String arrive_def)
qed

lemma registered_call:
  assumes "conn_ok k s" and "client_call uuid m params timeout s = (Inr (msg, i), t)"
  shows "msg = message_request uuid m params" and "i = length (calls s)"
    and "idmap t uuid = Some i" and "length (calls t) = Suc i"
    and "calls t ! i = \<lparr>call_id = uuid, slot = Waiting, live = True, timed = (timeout \<noteq> None)\<rparr>"
    and "idmap t = (idmap s)(uuid \<mapsto> i)" and "term_refs t = term_refs s + 1"
    and "clients t = clients s"
proof -
  have no: "timeout \<noteq> Some (Inl e)" for e using assms(2) by (auto simp: client_call_def Let_def)
  let ?s = "idmap_drop uuid s"
  have t: "t = (registered uuid (timeout \<noteq> None) ?s)\<lparr>idmap := (idmap ?s)(uuid \<mapsto> length (calls s))\<rparr>"
    and mi: "msg = message_request uuid m params" "i = length (calls s)"
    using client_call_registers [OF no, of uuid m params s] assms(2)
      registered_idmap_drop [OF conn_okD(3) [OF assms(1)], of uuid uuid "timeout \<noteq> None"]
    by (simp_all add: Let_def)
  show "msg = message_request uuid m params" "i = length (calls s)" by (fact mi)+
  show "idmap t uuid = Some i" "length (calls t) = Suc i" "idmap t = (idmap s)(uuid \<mapsto> i)"
    "term_refs t = term_refs s + 1" "clients t = clients s"
    by (simp_all add: t mi)
  show "calls t ! i = \<lparr>call_id = uuid, slot = Waiting, live = True, timed = (timeout \<noteq> None)\<rparr>"
    by (simp add: t mi(2) nth_append)
qed

lemma norm_message_request:
  "norm_message (message_request uuid m p) = message_request uuid m (norm_option p)"
  by (simp add: message_request_def norm_request_def)

lemma answer_slot:
  assumes "idmap t uuid = Some i" and "i < length (calls t)" and "resp_id r = String uuid"
  shows "slot (calls (snd (do_msg to_value server (Inr (Response r)) t)) ! i) = Arrived r"
    and "timed (calls (snd (do_msg to_value server (Inr (Response r)) t)) ! i) = timed (calls t ! i)"
proof -
  have "snd (do_msg to_value server (Inr (Response r)) t) = do_response r t"
    by (cases "stop t") (simp_all add: do_msg_stopped do_msg_running)
  then show "slot (calls (snd (do_msg to_value server (Inr (Response r)) t)) ! i) = Arrived r"
    "timed (calls (snd (do_msg to_value server (Inr (Response r)) t)) ! i) = timed (calls t ! i)"
    using assms by (simp_all add: do_response_String arrive_def)
qed

lemma answer_arrives:
  assumes "idmap t uuid = Some i" and "i < length (calls t)" and "resp_id r = String uuid"
  shows "fst (answer_poll None i (snd (do_msg to_value server (Inr (Response r)) t))) = Ready (Inr (Some r))"
  using answer_slot(1) [OF assms, of to_value server] by (simp add: answer_poll_def received_poll_def Let_def)

text \<open>A connection with one client, for the witnesses.\<close>

definition one_client :: "unit conn" where
  "one_client =
     \<lparr>stop = False, terminator = True, killer = True, ctl_sender = True, idmap = Map.empty,
      term_refs = 2, term_fired = False, kill_fired = False, senders = 2, outbox = [],
      outbox_open = True, clients = 1, calls = [], chans = [], srv = ()\<rparr>"

lemma one_client_ok: "conn_ok 0 one_client"
  by (simp add: one_client_def conn_ok_def refs_ok_def live_calls_def ctl_ok_def ids_ok_def)

definition one_call :: "unit conn" where
  "one_call = snd (client_call ''7'' ''m'' None (Some (Inr ())) one_client)"

lemma one_call: "client_call ''7'' ''m'' None (Some (Inr ())) one_client =
    (Inr (message_request ''7'' ''m'' None, 0), one_call)"
  by (simp add: one_call_def client_call_def one_client_def idmap_drop_def rc_clone_def)

definition answer7 :: response where
  "answer7 = \<lparr>resp_jsonrpc = Version, resp_result = Inr (Bool True), resp_id = String ''7''\<rparr>"

section \<open>Properties\<close>

text \<open>
  What may go on around a call while it waits: responses with other ids arrive, other calls are made,
  sent, answered, timed out and dropped, its own message is sent, notifications are sent, the
  connection is told to stop, clients come and go, and the endpoint works on its channels.
\<close>

inductive elsewhere :: "room \<Rightarrow> string \<Rightarrow> 's conn \<Rightarrow> 's conn \<Rightarrow> bool" for accepts uuid where
  elsewhere_response: "resp_id q \<noteq> String uuid \<Longrightarrow> elsewhere accepts uuid s (do_response q s)"
| elsewhere_call:
    "0 < clients s \<Longrightarrow> other \<noteq> uuid \<Longrightarrow>
     elsewhere accepts uuid s (snd (client_call other m params timeout s))"
| elsewhere_sent:
    "0 < clients s \<Longrightarrow> j < length (calls s) \<Longrightarrow> live (calls s ! j) \<Longrightarrow>
     msg = message_request (call_id (calls s ! j)) m params \<Longrightarrow>
     elsewhere accepts uuid s (snd (call_sent_poll accepts msg j s))"
| elsewhere_answer:
    "j < length (calls s) \<Longrightarrow> live (calls s ! j) \<Longrightarrow> call_id (calls s ! j) \<noteq> uuid \<Longrightarrow>
     elsewhere accepts uuid s (snd (answer_poll timer j s))"
| elsewhere_answer_drop:
    "j < length (calls s) \<Longrightarrow> live (calls s ! j) \<Longrightarrow> call_id (calls s ! j) \<noteq> uuid \<Longrightarrow>
     elsewhere accepts uuid s (answer_drop j s)"
| elsewhere_notify:
    "0 < clients s \<Longrightarrow> elsewhere accepts uuid s (snd (notify_poll accepts (client_notify m params) s))"
| elsewhere_client: "elsewhere accepts uuid s (snd (client s))"
| elsewhere_clone: "0 < clients s \<Longrightarrow> elsewhere accepts uuid s (client_clone s)"
| elsewhere_drop: "0 < clients s \<Longrightarrow> elsewhere accepts uuid s (client_drop s)"
| elsewhere_terminate: "elsewhere accepts uuid s (terminate s)"
| elsewhere_kill: "elsewhere accepts uuid s (kill s)"
| elsewhere_work: "elsewhere accepts uuid s (s\<lparr>chans := cs, outbox := ms, srv := x\<rparr>)"

lemma elsewhere_conn_ok:
  assumes "elsewhere accepts uuid s t" and "conn_ok k s"
  shows "conn_ok k t"
  using assms(1)
proof (cases rule: elsewhere.cases)
  case (elsewhere_response q)
  with assms(2) show ?thesis by (simp add: conn_ok_do_response)
next
  case (elsewhere_work cs ms x)
  with assms(2) show ?thesis
    by (simp add: conn_ok_def refs_ok_def live_calls_def ctl_ok_def ids_ok_def)
qed (use assms(2) in \<open>auto intro: conn_ok_api api.intros\<close>)

lemma elsewhere_registered:
  assumes "elsewhere accepts uuid s t" and "ids_ok s" and "idmap s uuid = Some i"
  shows "idmap t uuid = Some i"
  using assms(1)
proof (cases rule: elsewhere.cases)
  case (elsewhere_response q)
  with assms(3) show ?thesis
    by (auto simp: do_response_def as_str_Some bind_eq_Some_conv split: option.split)
next
  case (elsewhere_call other m params timeout)
  with assms(3) show ?thesis
    by (auto simp: client_call_def rc_clone_def Let_def split: option.split sum.split)
next
  case (elsewhere_sent j msg m params)
  with assms(3) show ?thesis
    by (auto simp: call_sent_poll_def send_poll_def split: poll.split sum.split)
next
  case (elsewhere_answer j timer)
  with assms(3) show ?thesis
    by (auto simp: answer_poll_def received_poll_def Let_def split: option.split slot.split)
qed (use assms(3) in \<open>auto simp: notify_poll_def send_poll_def client_def client_clone_def client_new_def
      rc_clone_def\<close>)

lemma elsewhere_run:
  assumes "(elsewhere accepts uuid)\<^sup>*\<^sup>* t u" and "conn_ok k t" and "idmap t uuid = Some i"
  shows "conn_ok k u" and "idmap u uuid = Some i"
proof -
  from assms have "conn_ok k u \<and> idmap u uuid = Some i"
  proof (induction rule: rtranclp_induct)
    case (step u v)
    then show ?case by (metis conn_okD(3) elsewhere_conn_ok elsewhere_registered)
  qed simp
  then show "conn_ok k u" "idmap u uuid = Some i" by blast+
qed

text \<open>
  C13. A call gets its answer: it is registered under the id its request carries before that is sent;
  whatever goes on around it, as long as no response with that id arrives, no timer of its own
  fires, the id is not used again, and the connection has not ended, its future is not ready and it stays
  registered; the response with that id, when it arrives, is exactly what the future yields; and then
  the id is forgotten, so that a second response with it changes nothing.
\<close>

theorem call_gets_its_answer:
  assumes "conn_ok k s" and "0 < clients s" and "client_call uuid m params timeout s = (Inr (msg, i), t)"
    and "resp_id r = String uuid" and "resp_id r' = String uuid"
    and "(elsewhere accepts uuid)\<^sup>*\<^sup>* t u"
  shows "msg = message_request uuid m params \<and> idmap t uuid = Some i \<and>
    idmap u uuid = Some i \<and> answer_poll None i u = (NotReady, u) \<and>
    fst (answer_poll None i (do_response r u)) = Ready (Inr (Some r)) \<and>
    do_response r' (do_response r u) = do_response r u"
proof -
  note reg = registered_call [OF assms(1,3)]
  have "conn_ok k t" using conn_ok_client_call [OF assms(1,2), of uuid m params timeout] assms(3) by simp
  note u = elsewhere_run [OF assms(6) this reg(3)]
  note here = ids_okD [OF conn_okD(3) [OF u(1)] u(2)]
  have "answer_poll None i u = (NotReady, u)"
    by (simp add: answer_poll_def received_poll_def here(3) Let_def)
  moreover have "slot (calls (do_response r u) ! i) = Arrived r" "idmap (do_response r u) uuid = None"
    using here(1) by (simp_all add: do_response_String [OF assms(4)] u(2) arrive_def)
  moreover from this have "fst (answer_poll None i (do_response r u)) = Ready (Inr (Some r))"
    by (simp add: answer_poll_def received_poll_def Let_def)
  ultimately show ?thesis using reg(1,3) u(2) by (simp add: do_response_String [OF assms(5)])
qed

text \<open>In between a second call is made, and a response comes that nobody waits for.\<close>

definition answer9 :: response where
  "answer9 = \<lparr>resp_jsonrpc = Version, resp_result = Inr Null, resp_id = String ''9''\<rparr>"

definition two_calls :: "unit conn" where
  "two_calls = do_response answer9 (snd (client_call ''8'' ''m'' None None one_call))"

theorem call_gets_its_answer_witness:
  "answer_poll None 0 two_calls = (NotReady, two_calls) \<and>
   fst (answer_poll None 0 (do_response answer7 two_calls)) = Ready (Inr (Some answer7))"
proof -
  have "0 < clients one_call" by code_simp
  then have "elsewhere (\<lambda>c n. n < c) ''7'' one_call (snd (client_call ''8'' ''m'' None None one_call))"
    by (intro elsewhere_call) simp_all
  moreover have "elsewhere (\<lambda>c n. n < c) ''7'' (snd (client_call ''8'' ''m'' None None one_call)) two_calls"
    unfolding two_calls_def by (rule elsewhere_response) (simp add: answer9_def)
  ultimately have "(elsewhere (\<lambda>c n. n < c) ''7'')\<^sup>*\<^sup>* one_call two_calls" by simp
  from call_gets_its_answer [OF one_client_ok _ one_call _ _ this, of answer7 answer7]
  show ?thesis by (simp add: answer7_def one_client_def)
qed

text \<open>
  C21. A timeout forgets the call: when the timer of a waiting call fires first its future yields
  \<open>None\<close>, the reference it held on the connection is given back, its id is gone, and the
  response, should it come after all, changes nothing.
\<close>

theorem timeout_forgets:
  assumes "conn_ok k s" and "i < length (calls s)" and "live (calls s ! i)" and "timed (calls s ! i)"
    and "slot (calls s ! i) = Waiting" and "resp_id r = String (call_id (calls s ! i))"
    and "answer_poll (Some (Inr ())) i s = (res, t)"
  shows "res = Ready (Inr None) \<and> conn_ok k t \<and> idmap t (call_id (calls s ! i)) = None \<and>
    term_refs t = term_refs s - 1 \<and> do_response r t = t"
proof -
  have res: "res = Ready (Inr None)" "t = idmap_drop (call_id (calls s ! i)) (answer_drop i s)"
    using assms(4,7) by (auto simp: answer_poll_def Let_def)
  moreover have "conn_ok k t" using conn_ok_answer_poll [OF assms(1-3), of "Some (Inr ())"] assms(7) by simp
  ultimately show ?thesis by (simp add: do_response_String [OF assms(6)])
qed

theorem timeout_forgets_witness:
  "fst (answer_poll (Some (Inr ())) 0 one_call) = Ready (Inr None) \<and>
   do_response answer7 (snd (answer_poll (Some (Inr ())) 0 one_call)) =
     snd (answer_poll (Some (Inr ())) 0 one_call)"
proof -
  have "conn_ok 0 one_call"
    using conn_ok_client_call [OF one_client_ok, of "''7''" "''m''" None "Some (Inr ())"] one_call
    by (simp add: one_client_def)
  moreover have "calls one_call = [\<lparr>call_id = ''7'', slot = Waiting, live = True, timed = True\<rparr>]"
    by (simp add: one_call_def client_call_def one_client_def idmap_drop_def rc_clone_def)
  moreover obtain res t where p: "answer_poll (Some (Inr ())) 0 one_call = (res, t)" by fastforce
  ultimately show ?thesis
    using timeout_forgets [of 0 one_call 0 answer7 res t] by (simp add: answer7_def)
qed

text \<open>
  Where the timer cannot be made the call never happens: the error comes back, nothing is
  registered, and the client that was used up gives back its handles.
\<close>

lemma call_without_timer:
  assumes "client_call uuid m params (Some (Inl err)) s = (res, t)"
  shows "res = Inl err \<and> idmap t = idmap s \<and> outbox t = outbox s \<and>
    clients t = clients s - 1 \<and> senders t = senders s - 1 \<and> term_refs t = term_refs s - 1"
proof -
  let ?i = "length (calls s)"
  have "t = client_drop (answer_drop ?i ((registered uuid True s)
      \<lparr>calls := drop_sender ?i (calls (registered uuid True s))\<rparr>))" "res = Inl err"
    using assms by (simp_all add: client_call_def registered_def Let_def)
  then show ?thesis by simp
qed

text \<open>
  The public interface keeps a connection consistent: whatever its users do, the references are
  those of its holders and the terminator fires with the last, and a call waits exactly as long as
  the map has its id.
\<close>

lemma interface_keeps_consistency:
  assumes "conn_ok k s" and "apis accepts s t"
  shows "term_refs t = (if terminator t then 1 else 0) + clients t + length (filter live (calls t)) + k \<and>
    (term_fired t \<longleftrightarrow> term_refs t = 0) \<and>
    (\<forall>i < length (calls t).
       slot (calls t ! i) = Waiting \<longleftrightarrow> idmap t (call_id (calls t ! i)) = Some i)"
  using conn_ok_apis [OF assms(2,1)]
  by (simp add: conn_ok_def refs_ok_def ids_ok_def live_calls_def)

end
