(* ===== verification/Time_Client.thy ===== *)
theory Time_Client
  imports Subscriptions Calls Replies
begin

text \<open>
  The example \<open>src/examples/time_client.rs\<close>: a client that asks a time server once and reports what it
  is told.  Its future is a chain: send the call, wait for its answer, make a report of it; the model
  has one function for a round of polling the chain.  The socket, the core and logging are left out,
  but for what is reported.
\<close>

section \<open>The client\<close>

datatype report =
    ReceivedResponse "64 word"
  | RemoteError rpc_error
  | TimedOut

text \<open>The closure of \<open>map\<close>: a result that is no \<open>u64\<close> panics (\<open>None\<close>).\<close>

definition report_of :: "response option \<Rightarrow> report option" where
  "report_of x =
     (case x of
        Some r \<Rightarrow>
          (case resp_result r of
             Inr result \<Rightarrow> map_option ReceivedResponse (ok_of (de_u64 result))
           | Inl err \<Rightarrow> Some (RemoteError err))
      | None \<Rightarrow> Some TimedOut)"

datatype asking =
    Asking message nat
  | Answering nat
  | Reported "io_error + report"

text \<open>
  \<open>client.call("now", None, Some(5 s))\<close>: a call whose timer cannot be made has failed.
\<close>

definition ask_time :: "string \<Rightarrow> io_error + unit \<Rightarrow> 's conn \<Rightarrow> asking \<times> 's conn" where
  "ask_time uuid timer s =
     (case client_call uuid ''now'' None (Some timer) s of
        (Inl e, t) \<Rightarrow> (Reported (Inl e), t)
      | (Inr (msg, i), t) \<Rightarrow> (Asking msg i, t))"

text \<open>One round: the client is dropped when its call is on the way.  \<open>None\<close> is a panic.\<close>

fun poll_asking ::
  "room \<Rightarrow> (io_error + unit) option \<Rightarrow> asking \<Rightarrow> 's conn \<Rightarrow> (asking \<times> 's conn) option"
where
  "poll_asking accepts timer (Asking msg i) s =
     (case call_sent_poll accepts msg i s of
        (NotReady, t) \<Rightarrow> Some (Asking msg i, t)
      | (Ready (Inl e), t) \<Rightarrow> Some (Reported (Inl e), t)
      | (Ready (Inr j), t) \<Rightarrow> Some (Answering j, client_drop t))"
| "poll_asking accepts timer (Answering i) s =
     (case answer_poll timer i s of
        (NotReady, t) \<Rightarrow> Some (Answering i, t)
      | (Ready (Inl e), t) \<Rightarrow> Some (Reported (Inl e), t)
      | (Ready (Inr x), t) \<Rightarrow> map_option (\<lambda>r. (Reported (Inr r), t)) (report_of x))"
| "poll_asking accepts timer (Reported r) s = Some (Reported r, s)"

text \<open>The connection: a client endpoint whose end nobody waits for.\<close>

definition client_connection :: "'c \<Rightarrow> 's \<Rightarrow> 's endpoint" where
  "client_connection socket x = start (logger True (client_only socket)) x"

section \<open>Asking for the time\<close>

lemma now_served:
  assumes "hungry e" and "pool e = []" and "\<not> stop (shared e)" and "unix_time (srv (shared e)) = Some c"
  shows "\<exists>u. (step accepts as_is (time_server display))\<^sup>*\<^sup>*
    (receive as_is (time_server display) (Inr (message_request uuid ''now'' None)) e)
    (e\<lparr>shared := u, wire := wire e @
      [Response \<lparr>resp_jsonrpc = Version, resp_result = Inr (Number (PosInt c)), resp_id = String uuid\<rparr>]\<rparr>)"
proof -
  let ?req = "\<lparr>req_jsonrpc = Version, req_method = ''now'', req_params = None, req_id = String uuid\<rparr>"
  let ?job = "Work (future_then (request_reply as_is ?req) (ready (Inr (Number (PosInt c)))))"
  let ?answer = "Response \<lparr>resp_jsonrpc = Version, resp_result = Inr (Number (PosInt c)), resp_id = String uuid\<rparr>"
  let ?e = "e\<lparr>shared := shared e, backlog := [?job]\<rparr>"
  have "receive as_is (time_server display) (Inr (message_request uuid ''now'' None)) e = ?e"
    using assms(3,4) by (simp add: receive_def message_request_def do_msg_running do_request_def
        time_server_def time_rpc_def now_def)
  moreover have "work_off accepts [?job] (shared e) = Some ([?answer], shared e)"
    by (simp add: poll_future_then request_reply_def reply_def)
  then have "(step accepts as_is (time_server display))\<^sup>*\<^sup>* ?e
      (?e\<lparr>shared := shared e, backlog := [], wire := wire ?e @ [?answer]\<rparr>)"
    by (rule work_off_steps) (use assms in \<open>auto simp: hungry_def running_def\<close>)
  moreover have "?e\<lparr>shared := shared e, backlog := [], wire := wire ?e @ [?answer]\<rparr> =
      e\<lparr>shared := shared e, wire := wire e @ [?answer]\<rparr>"
    using assms(1) by (cases e) (simp add: hungry_def)
  ultimately show ?thesis by metis
qed

lemma call_on_its_way:
  assumes "conn_ok k s" and "client_call uuid m params timeout s = (Inr (msg, i), t)"
    and "outbox_open s" and "accepts 32 (length (outbox s))"
  shows "call_sent_poll accepts msg i t = (Ready (Inr i), t\<lparr>outbox := outbox s @ [msg]\<rparr>)"
proof -
  have "outbox_open t = outbox_open s" "outbox t = outbox s"
    using assms(2) by (auto simp: client_call_def rc_clone_def Let_def split: option.splits sum.splits)
  then show ?thesis using assms(3,4) by (simp add: call_sent_poll_def send_poll_def outgoing_capacity_def)
qed

text \<open>
  C25. The two examples together.  The time client's call is on its way after its first round, when the
  connection is open and its channel has room; carried to the time server, in any pieces, it is
  answered with what the server's clock shows; and that answer, carried back, makes the client report
  the clock of the server.  Where instead the client's timer fires first, it reports a timeout.
\<close>

theorem time_client_learns_time:
  assumes "conn_ok k s" and "ask_time uuid (Inr ()) s = (Asking msg i, t)"
    and "outbox_open s" and "accepts 32 (length (outbox s))"
    and "hungry e" and "pool e = []" and "\<not> stop (shared e)" and "unix_time (srv (shared e)) = Some c"
    and "line_safe lib msg" and "concat outward = encode_all lib [msg] []"
    and "answer = \<lparr>resp_jsonrpc = Version, resp_result = Inr (Number (PosInt c)), resp_id = String uuid\<rparr>"
    and "line_safe lib (Response answer)" and "concat homeward = encode_all lib [Response answer] []"
  shows "\<exists>t' item u pos pos' v w.
    poll_asking accepts timer (Asking msg i) t = Some (Answering i, t') \<and> outbox t' = outbox s @ [msg] \<and>
    feed (line_decode lib) line_new [] outward = Some ([item], pos, []) \<and>
    (step accepts as_is (time_server display))\<^sup>*\<^sup>* (receive as_is (time_server display) item e)
      (e\<lparr>shared := u, wire := wire e @ [Response answer]\<rparr>) \<and>
    feed (line_decode lib) line_new [] homeward = Some ([Inr (Response answer)], pos', []) \<and>
    poll_asking accepts None (Answering i) (snd (do_msg to_value own_server (Inr (Response answer)) t')) =
      Some (Reported (Inr (ReceivedResponse c)), v) \<and>
    poll_asking accepts (Some (Inr ())) (Answering i) t' = Some (Reported (Inr TimedOut), w)"
proof -
  have call: "client_call uuid ''now'' None (Some (Inr ())) s = (Inr (msg, i), t)"
    using assms(2) by (auto simp: ask_time_def split: prod.splits sum.splits)
  note reg = registered_call [OF assms(1) call]
  define t' where "t' = client_drop (t\<lparr>outbox := outbox s @ [msg]\<rparr>)"
  have sent: "poll_asking accepts timer (Asking msg i) t = Some (Answering i, t')"
    using call_on_its_way [where accepts = accepts, OF assms(1) call assms(3,4)] by (simp add: t'_def)
  have t': "idmap t' uuid = Some i" "i < length (calls t')" "slot (calls t' ! i) = Waiting"
    "timed (calls t' ! i)" "outbox t' = outbox s @ [msg]"
    by (simp_all add: t'_def reg(3,4,5))
  from feed_encoded [of "[msg]" lib outward] assms(9,10) obtain pos where
    there: "feed (line_decode lib) line_new [] outward = Some ([Inr (message_request uuid ''now'' None)], pos, [])"
    by (auto simp: reg(1) norm_message_request norm_option_def)
  have "norm_response answer = answer" by (simp add: assms(11) norm_response_def)
  with feed_encoded [of "[Response answer]" lib homeward] assms(12,13) obtain pos' where
    homeward: "feed (line_decode lib) line_new [] homeward = Some ([Inr (Response answer)], pos', [])" by auto
  from now_served [OF assms(5-8), of accepts display uuid] obtain u where
    served: "(step accepts as_is (time_server display))\<^sup>*\<^sup>*
      (receive as_is (time_server display) (Inr (message_request uuid ''now'' None)) e)
      (e\<lparr>shared := u, wire := wire e @ [Response answer]\<rparr>)"
    by (auto simp: assms(11))
  let ?a = "snd (do_msg to_value own_server (Inr (Response answer)) t')"
  have "resp_id answer = String uuid" by (simp add: assms(11))
  note slot = answer_slot [OF t'(1,2) this, of to_value own_server]
  have told: "\<exists>v. poll_asking accepts None (Answering i) ?a = Some (Reported (Inr (ReceivedResponse c)), v)"
    using slot t'(4) by (simp add: answer_poll_def received_poll_def report_of_def assms(11) Let_def)
  have "\<exists>w. poll_asking accepts (Some (Inr ())) (Answering i) t' = Some (Reported (Inr TimedOut), w)"
    using t'(4) by (simp add: answer_poll_def report_of_def Let_def)
  with sent t'(5) there served homeward told show ?thesis by blast
qed

definition now_request_text :: "byte list \<times> value" where
  \<open>now_request_text = (as_bytes ''{"jsonrpc":"2.0","method":"now","id":"7"}'',
     ser_request \<lparr>req_jsonrpc = Version, req_method = ''now'', req_params = None, req_id = String ''7''\<rparr>)\<close>

definition now_response_text :: "byte list \<times> value" where
  \<open>now_response_text = (as_bytes ''{"jsonrpc":"2.0","result":1500000000,"id":"7"}'',
     ser_response \<lparr>resp_jsonrpc = Version, resp_result = Inr (Number (PosInt 1500000000)),
       resp_id = String ''7''\<rparr>)\<close>

definition now_lib :: json_lib where
  "now_lib = table_lib [now_request_text, now_response_text]"

lemma now_safe:
  "line_safe now_lib (message_request ''7'' ''now'' None)"
  "line_safe now_lib (Response \<lparr>resp_jsonrpc = Version, resp_result = Inr (Number (PosInt 1500000000)),
     resp_id = String ''7''\<rparr>)"
  by (simp_all add: line_safe_def now_lib_def table_lib_def now_request_text_def now_response_text_def
      message_request_def ser_request_def ser_response_def ok_request_def ok_response_def as_bytes_def newline_def)

definition asked_time :: "unit conn" where
  "asked_time = snd (client_call ''7'' ''now'' None (Some (Inr ())) one_client)"

lemma asked_time: "ask_time ''7'' (Inr ()) one_client = (Asking (message_request ''7'' ''now'' None) 0, asked_time)"
  by (simp add: ask_time_def asked_time_def client_call_def one_client_def idmap_drop_def rc_clone_def)

theorem time_client_learns_time_witness:
  "\<exists>t v. poll_asking exact None (Asking (message_request ''7'' ''now'' None) 0) asked_time = Some (Answering 0, t) \<and>
     poll_asking exact None (Answering 0) (snd (do_msg as_is hello_server (Inr (Response
       \<lparr>resp_jsonrpc = Version, resp_result = Inr (Number (PosInt 1500000000)), resp_id = String ''7''\<rparr>)) t)) =
     Some (Reported (Inr (ReceivedResponse 1500000000)), v)"
proof -
  have "hungry visitor" "pool visitor = []" "\<not> stop (shared visitor)"
    "unix_time (srv (shared visitor)) = Some 1500000000"
    "outbox_open one_client" "exact 32 (length (outbox one_client))"
    by (simp_all add: hungry_def running_def summer_def one_client_def exact_def)
  from time_client_learns_time [where accepts = exact and timer = None and display = no_text and to_value = as_is
      and own_server = hello_server and outward = "[encode_all now_lib [message_request ''7'' ''now'' None] []]"
      and homeward = "[encode_all now_lib [Response \<lparr>resp_jsonrpc = Version,
        resp_result = Inr (Number (PosInt 1500000000)), resp_id = String ''7''\<rparr>] []]",
      OF one_client_ok asked_time this(5,6,1-4) now_safe(1) _ refl now_safe(2)]
  show ?thesis by (auto simp del: poll_asking.simps)
qed

end
