(* ===== verification/Server_Tests.thy ===== *)
theory Server_Tests
  imports Server Params Serde
begin

text \<open>
  The unit tests of \<open>src/src/server.rs\<close>, with the servers and helpers they define, run on the model.

  A test is a proposition that evaluates: that every assertion holds and every \<open>unwrap\<close> finds what it
  expects.  The futures of these servers resolve at their first poll, so \<open>wait\<close> polls once.  Of the
  types the macro is used with the deserializers are written out; the text of their errors is an
  argument.
\<close>

section \<open>A control handle on its own\<close>

text \<open>\<open>ServerCtl::new_test\<close>: the receiver of the messages is gone at once.\<close>

definition new_test :: "'s \<Rightarrow> 's conn" where
  "new_test x =
     \<lparr>stop = False, terminator = True, killer = True, ctl_sender = True, idmap = Map.empty,
      term_refs = 1, term_fired = False, kill_fired = False, senders = 1, outbox = [],
      outbox_open = False, clients = 0, calls = [], chans = [], srv = x\<rparr>"

text \<open>\<open>wait().unwrap()\<close> on what a callback has given; \<open>None\<close> is a panic.\<close>

definition waited :: "('w, 'e + 'a) future option \<Rightarrow> 'w \<Rightarrow> ('a \<times> 'w) option" where
  "waited r w =
     (case r of
        None \<Rightarrow> None
      | Some f \<Rightarrow>
          (case poll f w of
             (Some (Inl (Inr x)), w') \<Rightarrow> Some (x, w')
           | _ \<Rightarrow> None))"

lemma waited_simps [simp]: "waited None w = None" "waited (Some (ready (Inr x))) w = Some (x, w)"
  by (simp_all add: waited_def)

section \<open>The servers of the tests\<close>

record log_server_state =
  serial :: nat
  log_rpc :: "nat list"
  log_notification :: "nat list"
  log_initialized :: "nat list"

definition log_default :: log_server_state where
  "log_default = \<lparr>serial = 0, log_rpc = [], log_notification = [], log_initialized = []\<rparr>"

definition log_update ::
  "((nat list \<Rightarrow> nat list) \<Rightarrow> log_server_state \<Rightarrow> log_server_state) \<Rightarrow> log_server_state conn
   \<Rightarrow> log_server_state conn"
where
  "log_update what s =
     (let n = serial (srv s) + 1
      in s\<lparr>srv := what (\<lambda>ns. ns @ [n]) ((srv s)\<lparr>serial := n\<rparr>)\<rparr>)"

definition log_server :: "(log_server_state, bool) server" where
  "log_server =
     \<lparr>rpc = (\<lambda>method params s.
        let s' = log_update log_rpc_update s
        in if method = ''test'' then
             (if params = None then (Some (ready (Inr True)), s') else (Some panicking, s'))
           else (None, s')),
      notify = (\<lambda>method params s.
        let s' = log_update log_notification_update s
        in if params \<noteq> None then (Some panicking, s')
           else if method = ''notification'' then (Some (ready (Inr ())), s')
           else (None, s')),
      initialized = log_update log_initialized_update\<rparr>"

definition another_server :: "('s, 64 word) server" where
  "another_server =
     \<lparr>rpc = (\<lambda>method params s.
        if params \<noteq> Some Null then (Some panicking, s)
        else if method = ''another'' then (Some (ready (Inr 42)), s)
        else (None, s)),
      notify = default_notification, initialized = default_initialized\<rparr>"

text \<open>Both stay within the public interface.\<close>

interpretation log_server: server_contract accepts log_server for accepts
proof
  have log: "apis accepts s (log_update what s)" for what s
    unfolding log_update_def Let_def by (rule r_into_rtranclp [where r = "api accepts", OF api_srv])
  show "apis accepts s t" if "rpc log_server m p s = (r, t)" for m p s r t
    using that log by (auto simp: log_server_def Let_def split: if_splits)
  show "apis accepts s t" if "notify log_server m p s = (r, t)" for m p s r t
    using that log by (auto simp: log_server_def Let_def split: if_splits)
  show "apis accepts s (initialized log_server s)" for s
    using log by (simp add: log_server_def)
qed (auto simp: log_server_def Let_def split: if_splits)

interpretation another_server: server_contract accepts another_server for accepts
  by unfold_locales
    (auto simp: another_server_def default_notification_def default_initialized_def split: if_splits)

definition unit_value :: "unit \<Rightarrow> string + value" where
  "unit_value x = Inr Null"

definition bool_value :: "bool \<Rightarrow> string + value" where
  "bool_value b = Inr (Bool b)"

definition usize_value :: "64 word \<Rightarrow> string + value" where
  "usize_value n = Inr (Number (PosInt n))"

section \<open>The tests of the servers\<close>

definition test_empty :: bool where
  "test_empty \<longleftrightarrow>
     (let s = new_test ()
      in list_all (\<lambda>m. Option.is_none (fst (rpc empty_server m None s)) \<and>
             Option.is_none (fst (notify empty_server m None s)))
           [''method'', ''notification'', ''check''] \<and>
         term_fired (initialized empty_server s))"

definition test_abstract_server :: bool where
  "test_abstract_server \<longleftrightarrow>
     (let server = abstract_server bool_value log_server;
          (rpc1, s1) = rpc server ''test'' None (new_test log_default);
          (not1, s2) = notify server ''notification'' None s1;
          (rpc2, s3) = rpc server ''another'' None s2;
          (not2, s4) = notify server ''another'' None s3;
          s5 = initialized server s4
      in map_option fst (waited rpc1 s1) = Some (Bool True) \<and>
         map_option fst (waited not1 s2) = Some () \<and>
         Option.is_none rpc2 \<and> Option.is_none not2 \<and>
         srv s5 = \<lparr>serial = 5, log_rpc = [1, 3], log_notification = [2, 4], log_initialized = [5]\<rparr>)"

definition test_chain :: bool where
  "test_chain \<longleftrightarrow>
     (let chain = server_chain [abstract_server unit_value empty_server,
            abstract_server bool_value log_server, abstract_server usize_value another_server];
          s0 = initialized chain (new_test log_default);
          (rpc1, s1) = rpc chain ''test'' None s0;
          (rpc2, s2) = rpc chain ''another'' (Some Null) s1;
          (rpc3, s3) = rpc chain ''wrong'' (Some Null) s2;
          (not1, s4) = notify chain ''notification'' None s3;
          (not2, s5) = notify chain ''another'' None s4
      in term_fired s0 \<and>
         map_option fst (waited rpc1 s1) = Some (Bool True) \<and>
         map_option fst (waited rpc2 s2) = Some (Number (PosInt 42)) \<and>
         Option.is_none rpc3 \<and>
         map_option fst (waited not1 s4) = Some () \<and>
         Option.is_none not2)"

lemma waited_future_then_ready:
  "f (Inr x) = Some (Inr y) \<Longrightarrow> waited (Some (future_then f (ready (Inr x)))) w = Some (y, w)"
  by (simp add: waited_def poll_future_then)

lemma servers_pass: "test_empty" "test_abstract_server" "test_chain"
  by (simp_all add: test_empty_def test_abstract_server_def test_chain_def new_test_def server_defs
      log_server_def another_server_def log_update_def log_default_def Let_def
      waited_future_then_ready to_value_expect_def bool_value_def usize_value_def unit_value_def)

section \<open>The types of the macro's tests\<close>

record test_struct =
  ts_x :: "32 word"

datatype native =
    B bool
  | S string
  | SS "string list"
  | TS test_struct
  | OU "32 word option"

fun de_bool :: "value \<Rightarrow> de_error + bool" where
  "de_bool (Bool b) = Inr b"
| "de_bool _ = Inl (InvalidType ''a boolean'')"

fun de_strings :: "value list \<Rightarrow> de_error + string list" where
  "de_strings [] = Inr []"
| "de_strings (v # vs) = and_then (de_string v) (\<lambda>s. map_ok ((#) s) (de_strings vs))"

fun de_vec_string :: "value \<Rightarrow> de_error + string list" where
  "de_vec_string (Array vs) = de_strings vs"
| "de_vec_string _ = Inl (InvalidType ''a sequence'')"

fun de_i32 :: "value \<Rightarrow> de_error + 32 word" where
  "de_i32 (Number (PosInt n)) =
     (if uint n < 2 ^ 31 then Inr (ucast n) else Inl (InvalidValue ''integer'' ''i32''))"
| "de_i32 (Number (NegInt n)) =
     (if - (2 ^ 31) \<le> sint n \<and> sint n < 2 ^ 31 then Inr (ucast n) else Inl (InvalidValue ''integer'' ''i32''))"
| "de_i32 _ = Inl (InvalidType ''i32'')"

fun test_struct_field :: "string \<times> value \<Rightarrow> 32 word option \<Rightarrow> de_error + 32 word option" where
  "test_struct_field (k, v) x = (if k = ''x'' then store_field k x (de_i32 v) (\<lambda>x. x) else Inr x)"

fun de_test_struct :: "value \<Rightarrow> de_error + test_struct" where
  "de_test_struct (Object kvs) =
     and_then (fold_result test_struct_field kvs None) (\<lambda>x. map_ok (\<lambda>x. \<lparr>ts_x = x\<rparr>) (required ''x'' x))"
| "de_test_struct (Array vs) = next_element 0 de_i32 vs (\<lambda>x vs. no_more 1 vs \<lparr>ts_x = x\<rparr>)"
| "de_test_struct _ = Inl (InvalidType ''struct TestStruct'')"

text \<open>The types as the macro gets them, errors shown as texts.\<close>

definition ty_bool :: "(de_error \<Rightarrow> string) \<Rightarrow> native decoder" where
  "ty_bool display v = map_err display (map_ok B (de_bool v))"

definition ty_string :: "(de_error \<Rightarrow> string) \<Rightarrow> native decoder" where
  "ty_string display v = map_err display (map_ok S (de_string v))"

definition ty_vec_string :: "(de_error \<Rightarrow> string) \<Rightarrow> native decoder" where
  "ty_vec_string display v = map_err display (map_ok SS (de_vec_string v))"

definition ty_test_struct :: "(de_error \<Rightarrow> string) \<Rightarrow> native decoder" where
  "ty_test_struct display v = map_err display (map_ok TS (de_test_struct v))"

definition ty_option_u32 :: "(de_error \<Rightarrow> string) \<Rightarrow> native decoder" where
  "ty_option_u32 display v = map_err display (map_ok OU (de_option de_u32 v))"

lemmas ty_defs = ty_bool_def ty_string_def ty_vec_string_def ty_test_struct_def ty_option_u32_def

section \<open>The helpers of the macro's tests\<close>

text \<open>
  Functions that return \<open>Option<Result<..>>\<close>, with the outer \<open>None\<close> for a panic: the macro returns
  its error from them early.
\<close>

type_synonym 'a answer = "(rpc_error + 'a) option option"

definition expect_no_params :: "value option \<Rightarrow> native list answer" where
  "expect_no_params params = map_option Some (jsonrpc_params params [])"

definition bool_str_positional :: "(de_error \<Rightarrow> string) \<Rightarrow> value option \<Rightarrow> native list answer" where
  "bool_str_positional display v = map_option Some (params_positional v [ty_bool display, ty_string display])"

definition single_positional :: "(de_error \<Rightarrow> string) \<Rightarrow> value option \<Rightarrow> native list answer" where
  "single_positional display v = map_option Some (params_positional v [ty_vec_string display])"

definition bool_str_named :: "(de_error \<Rightarrow> string) \<Rightarrow> value option \<Rightarrow> native list answer" where
  "bool_str_named display v =
     Some (Some (params_named v [(''b'', ty_bool display), (''s'', ty_string display)]))"

definition single_named :: "(de_error \<Rightarrow> string) \<Rightarrow> value option \<Rightarrow> native list answer" where
  "single_named display v = Some (Some (params_named v [(''ts'', ty_test_struct display)]))"

definition optional_named :: "(de_error \<Rightarrow> string) \<Rightarrow> value option \<Rightarrow> native list answer" where
  "optional_named display v = Some (Some (params_named v [(''ov'', ty_option_u32 display)]))"

definition bool_str :: "(de_error \<Rightarrow> string) \<Rightarrow> value option \<Rightarrow> native list answer" where
  "bool_str display v =
     map_option Some (jsonrpc_params v [(''b'', ty_bool display), (''s'', ty_string display)])"

definition decode_test_struct :: "(de_error \<Rightarrow> string) \<Rightarrow> value option \<Rightarrow> native list answer" where
  "decode_test_struct display v = map_option Some (jsonrpc_params v [(''ts'', ty_test_struct display)])"

text \<open>\<open>unwrap().unwrap_err()\<close> succeeds, and what \<open>unwrap().unwrap()\<close> gives.\<close>

fun errs :: "'a answer \<Rightarrow> bool" where
  "errs (Some (Some (Inl e))) = True"
| "errs _ = False"

fun gives :: "'a answer \<Rightarrow> 'a \<Rightarrow> bool" where
  "gives (Some (Some (Inr x))) y = (x = y)"
| "gives _ y = False"

text \<open>The same for the arms that return the result itself.\<close>

abbreviation errs_directly :: "(rpc_error + 'a) option \<Rightarrow> bool" where
  "errs_directly r \<equiv> errs (map_option Some r)"

abbreviation gives_directly :: "(rpc_error + 'a) option \<Rightarrow> 'a \<Rightarrow> bool" where
  "gives_directly r \<equiv> gives (map_option Some r)"

section \<open>The guard\<close>

text \<open>
  A value that panics (\<open>None\<close>) when it is dropped unless it has been disarmed.  The tests that use the
  macro in their own bodies make one first and disarm it last: an assertion that fails panics, and the
  guard, dropped at the end of the test, panics if the body was left early.
\<close>

record panic_guard =
  armed :: bool

definition panic_guard_new :: panic_guard where
  "panic_guard_new = \<lparr>armed = True\<rparr>"

definition disarm :: "panic_guard \<Rightarrow> panic_guard" where
  "disarm guard = guard\<lparr>armed := False\<rparr>"

definition panic_guard_drop :: "panic_guard \<Rightarrow> unit option" where
  "panic_guard_drop guard = (if armed guard then None else Some ())"

definition test_panic_guard :: bool where
  "test_panic_guard \<longleftrightarrow> Option.is_none (panic_guard_drop panic_guard_new)"

definition guarded :: "bool \<Rightarrow> bool" where
  "guarded assertions \<longleftrightarrow>
     (let guard = panic_guard_new
      in \<not> Option.is_none (if assertions then panic_guard_drop (disarm guard) else None))"

section \<open>The tests of the macro\<close>

abbreviation num :: "64 word \<Rightarrow> value" where
  "num n \<equiv> Number (PosInt n)"

definition true_hello :: "value" where
  "true_hello = Array [Bool True, String ''hello'']"

definition b_s :: "value" where
  "b_s = Object [(''b'', Bool True), (''s'', String ''hello'')]"

definition test_params_macro_none :: bool where
  "test_params_macro_none \<longleftrightarrow>
     gives (expect_no_params None) [] \<and>
     gives (expect_no_params (Some Null)) [] \<and>
     gives (expect_no_params (Some (Array []))) [] \<and>
     gives (expect_no_params (Some (Object []))) [] \<and>
     errs (expect_no_params (Some (Bool True))) \<and>
     errs (expect_no_params (Some (Array [num 42, String ''hello'']))) \<and>
     errs (expect_no_params (Some (Object [(''hello'', num 42)]))) \<and>
     errs (expect_no_params (Some (num 42))) \<and>
     errs (expect_no_params (Some (String ''hello'')))"

definition test_single_param :: "(de_error \<Rightarrow> string) \<Rightarrow> bool" where
  "test_single_param display \<longleftrightarrow>
     guarded
      (gives_directly (Some (params_single (ty_bool display) (Bool True))) (B True) \<and>
       errs_directly (Some (params_single (ty_bool display) Null)) \<and>
       errs_directly (Some (params_single (ty_bool display) (Array []))))"

definition test_positional :: "(de_error \<Rightarrow> string) \<Rightarrow> bool" where
  "test_positional display \<longleftrightarrow>
     errs (bool_str_positional display None) \<and>
     errs (bool_str_positional display (Some Null)) \<and>
     errs (bool_str_positional display (Some (Bool True))) \<and>
     errs (bool_str_positional display (Some b_s)) \<and>
     errs (bool_str_positional display (Some (Array [Bool True]))) \<and>
     errs (bool_str_positional display (Some (Array [Bool True, String ''hello'', Bool False]))) \<and>
     errs (bool_str_positional display (Some (Array [Bool True, Bool True]))) \<and>
     gives (bool_str_positional display (Some true_hello)) [B True, S ''hello''] \<and>
     errs (single_positional display None) \<and>
     errs (single_positional display (Some (Array [String ''Hello'']))) \<and>
     gives (single_positional display (Some (Array [Array []]))) [SS []] \<and>
     gives (single_positional display (Some (Array [Array [String ''hello'', String ''world'']])))
       [SS [''hello'', ''world'']]"

definition test_positional_direct :: "(de_error \<Rightarrow> string) \<Rightarrow> bool" where
  "test_positional_direct display \<longleftrightarrow>
     guarded
      (let positional = (\<lambda>v. params_wrap_positional v [ty_bool display, ty_string display])
       in errs_directly (positional None) \<and>
          errs_directly (positional (Some Null)) \<and>
          errs_directly (positional (Some (Bool True))) \<and>
          errs_directly (positional (Some b_s)) \<and>
          gives_directly (positional (Some true_hello)) [B True, S ''hello''])"

definition test_named :: "(de_error \<Rightarrow> string) \<Rightarrow> bool" where
  "test_named display \<longleftrightarrow>
     errs (bool_str_named display None) \<and>
     errs (bool_str_named display (Some Null)) \<and>
     errs (bool_str_named display (Some (Bool True))) \<and>
     errs (bool_str_named display (Some true_hello)) \<and>
     errs (bool_str_named display (Some (Object [(''b'', Bool True), (''s'', num 42)]))) \<and>
     errs (bool_str_named display (Some (Object [(''s'', String ''hello'')]))) \<and>
     gives (bool_str_named display (Some b_s)) [B True, S ''hello''] \<and>
     gives (bool_str_named display
       (Some (Object [(''b'', Bool True), (''s'', String ''hello''), (''x'', num 42)])))
       [B True, S ''hello''] \<and>
     errs (single_named display None) \<and>
     errs (single_named display (Some (Object [(''ts'', num 42)]))) \<and>
     gives (single_named display (Some (Object [(''ts'', Object [(''x'', num 42)])]))) [TS \<lparr>ts_x = 42\<rparr>] \<and>
     errs (optional_named display None) \<and>
     errs (optional_named display (Some (Array []))) \<and>
     gives (optional_named display (Some (Object [(''ov'', num 42)]))) [OU (Some 42)] \<and>
     gives (optional_named display (Some (Object []))) [OU None]"

definition test_named_direct :: "(de_error \<Rightarrow> string) \<Rightarrow> bool" where
  "test_named_direct display \<longleftrightarrow>
     guarded
      (let vars = [(''b'', ty_bool display), (''s'', ty_string display)]
       in errs_directly (params_wrap_named None vars) \<and>
          errs_directly (params_wrap_named (Some Null) vars) \<and>
          errs_directly (params_wrap_named (Some (Bool True)) vars) \<and>
          gives_directly (params_wrap (Some b_s) vars) [B True, S ''hello''] \<and>
          errs_directly (params_wrap_named (Some true_hello) vars))"

definition test_decide :: "(de_error \<Rightarrow> string) \<Rightarrow> bool" where
  "test_decide display \<longleftrightarrow>
     errs (bool_str display None) \<and>
     errs (bool_str display (Some Null)) \<and>
     errs (bool_str display (Some (Bool True))) \<and>
     gives (bool_str_named display (Some b_s)) [B True, S ''hello''] \<and>
     gives (bool_str_positional display (Some true_hello)) [B True, S ''hello'']"

definition test_decide_direct :: "(de_error \<Rightarrow> string) \<Rightarrow> bool" where
  "test_decide_direct display \<longleftrightarrow>
     guarded
      (let vars = [(''b'', ty_bool display), (''s'', ty_string display)]
       in errs_directly (params_wrap None vars) \<and>
          errs_directly (params_wrap (Some Null) vars) \<and>
          errs_directly (params_wrap (Some (Bool True)) vars) \<and>
          gives_directly (params_wrap (Some b_s) vars) [B True, S ''hello''] \<and>
          gives_directly (params_wrap (Some true_hello) vars) [B True, S ''hello''])"

definition test_decide_single :: "(de_error \<Rightarrow> string) \<Rightarrow> bool" where
  "test_decide_single display \<longleftrightarrow>
     errs (decode_test_struct display None) \<and>
     errs (decode_test_struct display (Some Null)) \<and>
     errs (decode_test_struct display (Some (Bool True))) \<and>
     gives (decode_test_struct display (Some (Array [Object [(''x'', num 42)]]))) [TS \<lparr>ts_x = 42\<rparr>] \<and>
     gives (decode_test_struct display (Some (Object [(''ts'', Object [(''x'', num 42)])]))) [TS \<lparr>ts_x = 42\<rparr>] \<and>
     gives (decode_test_struct display (Some (Object [(''x'', num 42)]))) [TS \<lparr>ts_x = 42\<rparr>]"

lemmas test_helper_defs = expect_no_params_def bool_str_positional_def single_positional_def
  bool_str_named_def single_named_def optional_named_def bool_str_def decode_test_struct_def
  params_wrap_def params_wrap_named_def params_wrap_positional_def params_single_def params_one_def
  bad_params_def subval_def true_hello_def b_s_def ty_defs de_option_def store_field_def required_def Let_def
  guarded_def panic_guard_new_def disarm_def panic_guard_drop_def

lemma macro_passes:
  "test_panic_guard" "test_params_macro_none" "test_single_param display" "test_positional display"
  "test_positional_direct display" "test_named display" "test_named_direct display"
  "test_decide display" "test_decide_direct display" "test_decide_single display"
  by (simp_all add: test_panic_guard_def test_params_macro_none_def test_single_param_def test_positional_def
      test_positional_direct_def test_named_def test_named_direct_def test_decide_def
      test_decide_direct_def test_decide_single_def test_helper_defs)

end
