(* ===== verification/Message_Tests.thy ===== *)
theory Message_Tests
  imports Codec
begin

text \<open>
  The unit tests of \<open>src/src/message.rs\<close> and \<open>src/src/codec.rs\<close>, run on the model.

  Where a test parses or prints text, \<open>serde_json\<close> is given for just that text: a table that reads the
  text as its document, prints the document as the text, and rejects every other text.  The ids that
  \<open>Uuid::new_v4\<close> draws are arguments.
\<close>

section \<open>Messages and documents\<close>

abbreviation num :: "64 word \<Rightarrow> value" where
  "num n \<equiv> Number (PosInt n)"

definition a_request :: "string \<Rightarrow> value option \<Rightarrow> value \<Rightarrow> message" where
  "a_request m p i = Request \<lparr>req_jsonrpc = Version, req_method = m, req_params = p, req_id = i\<rparr>"

definition a_notification :: "string \<Rightarrow> value option \<Rightarrow> message" where
  "a_notification m p = Notification \<lparr>notif_jsonrpc = Version, notif_method = m, notif_params = p\<rparr>"

definition a_response :: "rpc_error + value \<Rightarrow> value \<Rightarrow> message" where
  "a_response r i = Response \<lparr>resp_jsonrpc = Version, resp_result = r, resp_id = i\<rparr>"

lemmas a_defs = a_request_def a_notification_def a_response_def

abbreviation v2 :: "string \<times> value" where
  "v2 \<equiv> (''jsonrpc'', String ''2.0'')"

text \<open>The helper of \<open>message_serde\<close>: parse, compare, print, parse as a \<open>Message\<close>, compare.\<close>

definition one_message :: "string \<Rightarrow> value \<Rightarrow> message \<Rightarrow> bool" where
  "one_message input document expected =
     (let lib = table_lib [(as_bytes input, document)]
      in case from_str lib input of
           Inl _ \<Rightarrow> False
         | Inr parsed \<Rightarrow>
             parsed = expected \<and>
             (case to_vec lib parsed of
                Inl _ \<Rightarrow> False
              | Inr serialized \<Rightarrow>
                  (case parse_slice lib serialized of
                     Inl _ \<Rightarrow> False
                   | Inr v \<Rightarrow> de_message v = Inr parsed)))"

definition test_message_serde :: bool where
  \<open>test_message_serde \<longleftrightarrow>
     one_message ''{"jsonrpc": "2.0", "method": "call", "id": 1}''
       (Object [v2, (''method'', String ''call''), (''id'', num 1)])
       (a_request ''call'' None (num 1)) \<and>
     one_message ''{"jsonrpc": "2.0", "method": "call", "params": [1, 2, 3], "id": 2}''
       (Object [v2, (''method'', String ''call''), (''params'', Array [num 1, num 2, num 3]), (''id'', num 2)])
       (a_request ''call'' (Some (Array [num 1, num 2, num 3])) (num 2)) \<and>
     one_message ''{"jsonrpc": "2.0", "method": "notif", "params": {"x": "y"}}''
       (Object [v2, (''method'', String ''notif''), (''params'', Object [(''x'', String ''y'')])])
       (a_notification ''notif'' (Some (Object [(''x'', String ''y'')]))) \<and>
     one_message ''{"jsonrpc": "2.0", "result": 42, "id": 3}''
       (Object [v2, (''result'', num 42), (''id'', num 3)])
       (a_response (Inr (num 42)) (num 3)) \<and>
     one_message ''{"jsonrpc": "2.0", "result": null, "id": 3}''
       (Object [v2, (''result'', Null), (''id'', num 3)])
       (a_response (Inr Null) (num 3)) \<and>
     one_message ''{"jsonrpc": "2.0", "error": {"code": 42, "message": "Wrong!"}, "id": null}''
       (Object [v2, (''error'', Object [(''code'', num 42), (''message'', String ''Wrong!'')]), (''id'', Null)])
       (a_response (Inl (rpc_error_new 42 ''Wrong!'' None)) Null) \<and>
     one_message ''[{"jsonrpc": "2.0", "method": "notif"}, {"jsonrpc": "2.0", "method": "call", "id": 42}]''
       (Array [Object [v2, (''method'', String ''notif'')],
               Object [v2, (''method'', String ''call''), (''id'', num 42)]])
       (Batch [a_notification ''notif'' None, a_request ''call'' None (num 42)]) \<and>
     from_str (table_lib [(as_bytes
         ''[{"jsonrpc": "2.0", "method": "notif"}, {"jsonrpc": "2.0", "method": "call", "id": 42}, true]'',
         Array [Object [v2, (''method'', String ''notif'')],
                Object [v2, (''method'', String ''call''), (''id'', num 42)], Bool True])])
       ''[{"jsonrpc": "2.0", "method": "notif"}, {"jsonrpc": "2.0", "method": "call", "id": 42}, true]'' =
       Inr (Batch [a_notification ''notif'' None, a_request ''call'' None (num 42), UnmatchedSub (Bool True)]) \<and>
     to_vec (table_lib []) (UnmatchedSub Null) = Inl (CannotSerialize ''UnmatchedSub'')\<close>

text \<open>The helper of \<open>broken\<close>: the text parses, but is no message.\<close>

definition one_broken :: "string \<Rightarrow> value \<Rightarrow> bool" where
  "one_broken input document =
     (case from_str (table_lib [(as_bytes input, document)]) input of
        Inl (Unmatched _) \<Rightarrow> True
      | _ \<Rightarrow> False)"

definition test_broken :: bool where
  \<open>test_broken \<longleftrightarrow>
     one_broken ''{"method": "notif"}'' (Object [(''method'', String ''notif'')]) \<and>
     one_broken ''{"jsonrpc": 2.0, "method": "notif"}''
       (Object [(''jsonrpc'', Number (Float 0x4000000000000000)), (''method'', String ''notif'')]) \<and>
     one_broken ''{"jsonrpc": "2.0", "result": 42, "error": {"code": 42, "message": "!"}, "id": 1}''
       (Object [v2, (''result'', num 42),
          (''error'', Object [(''code'', num 42), (''message'', String ''!'')]), (''id'', num 1)]) \<and>
     one_broken ''{"jsonrpc": "2.0", "result": 42}'' (Object [v2, (''result'', num 42)]) \<and>
     one_broken ''{"jsonrpc": "2.0", "method": "weird", "params": 42, "others": 43, "id": 2}''
       (Object [v2, (''method'', String ''weird''), (''params'', num 42), (''others'', num 43), (''id'', num 2)]) \<and>
     one_broken ''{"x": [1, 2, 3]}'' (Object [(''x'', Array [num 1, num 2, num 3])]) \<and>
     (case from_str (table_lib []) ''{]'' of Inl (SyntaxError _) \<Rightarrow> True | _ \<Rightarrow> False)\<close>

definition test_constructors :: "string \<Rightarrow> string \<Rightarrow> bool" where
  "test_constructors uuid1 uuid2 \<longleftrightarrow>
     (let one_two_three = Array [num 1, num 2, num 3];
          msg1 = message_request uuid1 ''call'' (Some one_two_three);
          msg2 = message_request uuid2 ''call'' (Some one_two_three)
      in msg1 \<noteq> msg2 \<and>
         (case (msg1, msg2) of
            (Request req1, Request req2) \<Rightarrow>
              req_id req1 \<noteq> req_id req2 \<and> as_str (req_id req1) \<noteq> None \<and> as_str (req_id req2) \<noteq> None \<and>
              reply req1 one_two_three = a_response (Inr one_two_three) (req_id req1) \<and>
              reply_error req2 (rpc_error_new 42 ''Wrong!'' None) =
                a_response (Inl (rpc_error_new 42 ''Wrong!'' None)) (req_id req2)
          | _ \<Rightarrow> False) \<and>
         message_error (rpc_error_new 43 ''Also wrong!'' None) =
           a_response (Inl (rpc_error_new 43 ''Also wrong!'' None)) Null)"

section \<open>Codecs\<close>

definition notif_line :: "byte list" where
  \<open>notif_line = as_bytes ''{"jsonrpc":"2.0","method":"notif"}''\<close>

definition notif_lib :: json_lib where
  "notif_lib = table_lib [(notif_line, Object [v2, (''method'', String ''notif'')])]"

definition test_encode :: bool where
  "test_encode \<longleftrightarrow>
     (let encoded = (Inr (), notif_line @ [newline])
      in line_encode notif_lib (message_notification ''notif'' None) [] = encoded \<and>
         dirty_line_encode notif_lib (message_notification ''notif'' None) [] = encoded)"

text \<open>The helper of \<open>decode\<close>: both codecs leave the rest and give the same.\<close>

definition one_line :: "byte list \<Rightarrow> byte list \<Rightarrow> (parsed option) option" where
  "one_line input rest =
     (case (line_decode notif_lib line_new input, dirty_line_decode notif_lib dirty_line_new input) of
        (Some (result, _, buf), Some (dirty, _, dirty_buf)) \<Rightarrow>
          if rest = buf \<and> rest = dirty_buf \<and> result = dirty then Some result else None
      | _ \<Rightarrow> None)"

definition incomplete :: "byte list" where
  \<open>incomplete = as_bytes ''{"jsonrpc": "2.0", "method":"''\<close>

definition test_decode :: bool where
  "test_decode \<longleftrightarrow>
     (let notif = message_notification ''notif'' None;
          msgstring = notif_line @ [newline]
      in one_line msgstring [] = Some (Some (Inr notif)) \<and>
         one_line (msgstring @ msgstring) msgstring = Some (Some (Inr notif)) \<and>
         one_line (msgstring @ incomplete) incomplete = Some (Some (Inr notif)) \<and>
         one_line incomplete incomplete = Some None \<and>
         (case one_line (as_bytes ''{]'' @ [newline]) [] of
            Some (Some (Inl (SyntaxError _))) \<Rightarrow> True
          | _ \<Rightarrow> False))"

text \<open>A cut-off character of four bytes inside a string, and what it becomes.\<close>

definition hello_before :: "byte list" where
  \<open>hello_before = as_bytes ''{"jsonrpc":"2.0","method":"Hello ''\<close>

definition hello_after :: "byte list" where
  \<open>hello_after = as_bytes ''World"}''\<close>

definition replaced :: string where
  "replaced = ''Hello '' @ of_bytes [0xEF, 0xBF, 0xBD] @ ''World''"

definition test_decode_nonunicode :: bool where
  "test_decode_nonunicode \<longleftrightarrow>
     (let broken_input = hello_before @ [0xF0, 0x90, 0x80] @ hello_after @ [newline];
          lib = table_lib [(hello_before @ [0xEF, 0xBF, 0xBD] @ hello_after,
            Object [v2, (''method'', String replaced)])]
      in (case line_decode lib line_new broken_input of
            Some (Some (Inl (SyntaxError _)), _, _) \<Rightarrow> True
          | _ \<Rightarrow> False) \<and>
         (case dirty_line_decode lib dirty_line_new broken_input of
            Some (Some item, _, _) \<Rightarrow> item = Inr (message_notification replaced None)
          | _ \<Rightarrow> False))"

definition short_input :: "byte list" where
  \<open>short_input = as_bytes ''{"jsonrpc":"''\<close>

text \<open>The stream deserializer on the inputs of the two tests.\<close>

definition boundary_lib :: stream_lib where
  "boundary_lib = json_lib.extend notif_lib \<lparr>next_doc = (\<lambda>src.
     if src = [newline, newline, 32] @ notif_line @ as_bytes ''{'' @ [34]
     then (Some (Inr (Object [v2, (''method'', String ''notif'')])), 3 + length notif_line)
     else (Some (Inl \<lparr>is_eof = True, error_text = ''EOF''\<rparr>), 0))\<rparr>"

definition test_decode_boundary_short :: bool where
  "test_decode_boundary_short \<longleftrightarrow> boundary_decode boundary_lib short_input = Some (None, short_input)"

definition test_decode_boundary_prefix :: bool where
  "test_decode_boundary_prefix \<longleftrightarrow>
     boundary_decode boundary_lib ([newline, newline, 32] @ notif_line @ as_bytes ''{'' @ [34]) =
       Some (Some (Inr (message_notification ''notif'' None)), as_bytes ''{'' @ [34])"

section \<open>They pass\<close>

lemma from_str_table: "from_str (table_lib [(as_bytes input, v)]) input = 
    (case decoded v of UnmatchedSub j \<Rightarrow> Inl (Unmatched j) | m \<Rightarrow> Inr m)"
  by (simp add: from_str_def table_lib_def from_slice_parse_ok)

lemma to_vec_table:
  "ser_message m = Inr v \<Longrightarrow> to_vec (table_lib [(bs, v)]) m = Inr bs"
  by (simp add: to_vec_def table_lib_def)

lemma one_message_simp:
  assumes "ser_message m = Inr document" and "decoded document = m" and "\<And>v. m \<noteq> UnmatchedSub v"
  shows "one_message input document m"
proof -
  have "parse_slice (table_lib [(as_bytes input, document)]) (as_bytes input) = Inr document"
    by (simp add: table_lib_def)
  with assms show ?thesis
    by (cases m)
      (simp_all add: one_message_def from_str_table to_vec_table de_message_decoded Let_def)
qed

lemmas reading = decoded_eq no_request_fields_def no_wire_response_fields_def no_notification_fields_def
  no_rpc_error_fields_def request_of_fields_def wire_response_of_fields_def notification_of_fields_def
  rpc_error_of_fields_def de_response_def response_of_wire_def some_value_def de_option_def de_value_def
  store_field_def required_def rpc_error_new_def

lemmas writing = ser_request_def ser_response_def ser_notification_def ser_rpc_error_def ser_i64_def
  rpc_error_new_def

lemma message_serde_passes: "test_message_serde"
  unfolding test_message_serde_def
  by (intro conjI one_message_simp)
    (simp_all add: from_str_table a_defs writing reading btree_from_members_def to_vec_def)

lemma broken_passes: "test_broken"
  unfolding test_broken_def one_broken_def from_str_table
  by (simp add: reading btree_from_members_def from_str_def from_slice_def read_wire_def table_lib_def)

lemma constructors_pass: "uuid1 \<noteq> uuid2 \<Longrightarrow> test_constructors uuid1 uuid2"
  by (simp add: test_constructors_def constructor_defs a_defs rpc_error_new_def)

lemma first_line:
  assumes "newline \<notin> set l"
  shows "line_decode lib line_new (l @ newline # r) = Some (Some (from_slice lib l), 0, r)"
    and "dirty_line_decode lib dirty_line_new (l @ newline # r) = Some (Some (dirty_convert lib l), 0, r)"
    and "line_decode lib line_new l = Some (None, length l, l)"
    and "dirty_line_decode lib dirty_line_new l = Some (None, length l, l)"
  using assms
  by (simp_all add: line.decode_scanned dirty_line.decode_scanned line_new_def dirty_line_new_def
      split_line_None [THEN iffD2])

lemma clean:
  "newline \<notin> set notif_line" "newline \<notin> set incomplete" "newline \<notin> set (as_bytes ''{]'')"
  "newline \<notin> set hello_before" "newline \<notin> set hello_after"
  by (simp_all add: notif_line_def incomplete_def hello_before_def hello_after_def as_bytes_def newline_def)

lemma ascii:
  "\<forall>b \<in> set notif_line. b < 128" "\<forall>b \<in> set (as_bytes ''{]''). b < 128"
  "\<forall>b \<in> set hello_before. b < 128" "\<forall>b \<in> set hello_after. b < 128"
  by (simp_all add: notif_line_def hello_before_def hello_after_def as_bytes_def)

lemma dirty_ascii: "\<forall>b \<in> set l. b < 128 \<Longrightarrow> dirty_convert lib l = from_slice lib l"
  by (simp add: dirty_convert_def from_str_def utf8_lossy_valid_id utf8_valid_ascii)

lemma notif_read: "decoded (Object [v2, (''method'', String m)]) = message_notification m None"
  by (simp add: reading btree_from_members_def message_notification_def)

lemma message_notification_not_sub [simp]: "message_notification m p \<noteq> UnmatchedSub v"
  by (simp add: message_notification_def)

lemma from_slice_notif: "from_slice notif_lib notif_line = Inr (message_notification ''notif'' None)"
proof -
  have "parse_slice notif_lib notif_line = Inr (Object [v2, (''method'', String ''notif'')])"
    by (simp add: notif_lib_def table_lib_def)
  from from_slice_parse_ok [OF this] show ?thesis
    by (simp add: notif_read message_notification_def)
qed

lemma from_slice_garbage: "\<exists>e. from_slice notif_lib (as_bytes ''{]'') = Inl (SyntaxError e)"
proof -
  have "as_bytes ''{]'' \<noteq> notif_line" by (simp add: as_bytes_def notif_line_def)
  then have "parse_slice notif_lib (as_bytes ''{]'') = Inl ''expected value''"
    by (simp add: notif_lib_def table_lib_def)
  from from_slice_parse_error [OF this] show ?thesis by blast
qed

lemma encode_passes: "test_encode"
proof -
  have "ser_message (message_notification ''notif'' None) = Inr (Object [v2, (''method'', String ''notif'')])"
    by (simp add: message_notification_def ser_notification_def)
  then show ?thesis
    by (simp add: test_encode_def encode_codec_def notif_lib_def to_vec_table)
qed

lemma decode_passes: "test_decode"
proof -
  obtain e where e: "from_slice notif_lib (as_bytes ''{]'') = Inl (SyntaxError e)"
    using from_slice_garbage by blast
  show ?thesis
    using first_line(1,2) [OF clean(1), of notif_lib] first_line(3,4) [OF clean(2), of notif_lib]
      first_line(1,2) [OF clean(3), of notif_lib "[]"]
    by (simp add: test_decode_def one_line_def Let_def from_slice_notif dirty_ascii ascii e)
qed

lemma utf8_lossy_ascii_append:
  "\<forall>b \<in> set bs. b < 128 \<Longrightarrow> utf8_lossy (bs @ cs) = bs @ utf8_lossy cs"
  by (induction bs) (simp_all add: utf8_lossy.simps(2) utf8_piece_def)

lemma piece_cut: "b < 128 \<Longrightarrow> utf8_piece 0xF0 (0x90 # 0x80 # b # bs) = (3, False)"
proof -
  assume "b < 128"
  then have b: "\<not> is_cont b" by (simp add: is_cont_def not_le)
  have cont: "is_cont 0x80" by (simp add: is_cont_def)
  have "conts 2 (0x80 # b # bs) = Suc (conts 1 (b # bs))"
    using cont by (simp add: numeral_2_eq_2)
  also have "\<dots> = 1" using b by simp
  finally have c: "conts 2 (0x80 # b # bs) = 1" .
  have "second4 0xF0 0x90" by (simp add: second4_def)
  with c show ?thesis by (simp add: utf8_piece_def del: conts.simps)
qed

lemma utf8_lossy_cut:
  assumes "\<forall>b \<in> set bs. b < 128" and "bs \<noteq> []"
  shows "utf8_lossy (0xF0 # 0x90 # 0x80 # bs) = [0xEF, 0xBF, 0xBD] @ bs"
proof -
  obtain b bs' where bs: "bs = b # bs'" "b < 128" using assms by (cases bs) auto
  have "utf8_lossy bs = bs" using assms(1) by (simp add: utf8_lossy_valid_id utf8_valid_ascii)
  then show ?thesis
    using piece_cut [OF bs(2), of bs'] bs(1)
    by (simp add: utf8_lossy.simps(2) [of "0xF0"] replacement_def)
qed

lemma nonunicode_passes: "test_decode_nonunicode"
proof -
  let ?l = "hello_before @ [0xF0, 0x90, 0x80] @ hello_after"
  let ?r = "hello_before @ [0xEF, 0xBF, 0xBD] @ hello_after"
  let ?doc = "Object [v2, (''method'', String replaced)]"
  let ?lib = "table_lib [(?r, ?doc)]"
  have l: "newline \<notin> set ?l" using clean by (simp add: newline_def)
  have "hello_after \<noteq> []" by (simp add: hello_after_def as_bytes_def)
  then have "utf8_lossy ?l = ?r"
    using utf8_lossy_ascii_append [OF ascii(3), of "0xF0 # 0x90 # 0x80 # hello_after"] utf8_lossy_cut [OF ascii(4)]
    by simp
  moreover have "from_slice ?lib ?r = Inr (message_notification replaced None)"
  proof -
    have "parse_slice ?lib ?r = Inr ?doc" by (simp add: table_lib_def)
    from from_slice_parse_ok [OF this] show ?thesis
      by (simp add: notif_read message_notification_def)
  qed
  ultimately have dirty: "dirty_convert ?lib ?l = Inr (message_notification replaced None)"
    by (simp add: dirty_convert_def from_str_def)
  have "parse_slice ?lib ?l = Inl ''expected value''" by (simp add: table_lib_def)
  then have "from_slice ?lib ?l = Inl (SyntaxError ''expected value'')" by (rule from_slice_parse_error)
  then show ?thesis
    using first_line(1,2) [OF l, of ?lib "[]"] dirty
    by (simp add: test_decode_nonunicode_def Let_def)
qed

lemma boundary_passes: "test_decode_boundary_short" "test_decode_boundary_prefix"
proof -
  have "short_input \<noteq> [newline, newline, 32] @ notif_line @ as_bytes ''{'' @ [34]"
    by (simp add: short_input_def as_bytes_def newline_def)
  then show "test_decode_boundary_short"
    by (simp add: test_decode_boundary_short_def boundary_decode_def boundary_lib_def json_lib.defs)
  have "drop (3 + length notif_line) (newline # newline # 32 # notif_line @ r) = r" for r
    by (simp add: numeral_3_eq_3)
  then show "test_decode_boundary_prefix"
    by (simp add: test_decode_boundary_prefix_def boundary_decode_def boundary_lib_def json_lib.defs
        de_wire_message_decoded notif_read message_notification_def)
qed

end
