(* ===== verification/Doc_Params.thy ===== *)
theory Doc_Params
  imports Server_Tests Message_Tests
begin

text \<open>
  The examples in the documentation of \<open>jsonrpc_params!\<close> (\<open>src/src/server.rs\<close>), which are compiled and
  run as tests.  Each is a function \<open>parse\<close> around one use of the macro and assertions on what it gives;
  the helpers \<open>gives\<close> and \<open>errs\<close> are those of the unit tests.
\<close>

section \<open>The types of the examples\<close>

record params_struct =
  ps_num :: "32 word option"
  ps_b :: bool

datatype sample =
    Int32 "32 word"
  | Opt_int32 "32 word option"
  | Boolean bool
  | Struct params_struct

text \<open>The derived deserializer of \<open>Params\<close>: an optional number that may be missing, and a boolean.\<close>

record params_fields =
  pf_num :: "32 word option option"
  pf_b :: "bool option"

definition no_params_fields :: params_fields where
  "no_params_fields = \<lparr>pf_num = None, pf_b = None\<rparr>"

fun params_field :: "string \<times> value \<Rightarrow> params_fields \<Rightarrow> de_error + params_fields" where
  "params_field (k, v) acc =
     (if k = ''num'' then store_field k (pf_num acc) (de_option de_i32 v) (\<lambda>x. acc\<lparr>pf_num := x\<rparr>)
      else if k = ''b'' then store_field k (pf_b acc) (de_bool v) (\<lambda>x. acc\<lparr>pf_b := x\<rparr>)
      else Inr acc)"

definition params_of_fields :: "params_fields \<Rightarrow> de_error + params_struct" where
  "params_of_fields acc =
     map_ok (\<lambda>b. \<lparr>ps_num = or_none (pf_num acc), ps_b = b\<rparr>) (required ''b'' (pf_b acc))"

fun de_params_struct :: "value \<Rightarrow> de_error + params_struct" where
  "de_params_struct (Object kvs) =
     and_then (fold_result params_field kvs no_params_fields) params_of_fields"
| "de_params_struct (Array vs) =
     next_element 0 (de_option de_i32) vs (\<lambda>n vs.
     next_element 1 de_bool vs (\<lambda>b vs. no_more 2 vs \<lparr>ps_num = n, ps_b = b\<rparr>))"
| "de_params_struct _ = Inl (InvalidType ''struct Params'')"

definition an_i32 :: "(de_error \<Rightarrow> string) \<Rightarrow> sample decoder" where
  "an_i32 display v = map_err display (map_ok Int32 (de_i32 v))"

definition an_option_i32 :: "(de_error \<Rightarrow> string) \<Rightarrow> sample decoder" where
  "an_option_i32 display v = map_err display (map_ok Opt_int32 (de_option de_i32 v))"

definition a_bool :: "(de_error \<Rightarrow> string) \<Rightarrow> sample decoder" where
  "a_bool display v = map_err display (map_ok Boolean (de_bool v))"

definition a_struct :: "(de_error \<Rightarrow> string) \<Rightarrow> sample decoder" where
  "a_struct display v = map_err display (map_ok Struct (de_params_struct v))"

section \<open>The examples\<close>

text \<open>The documents of the examples; an object lists its members by their keys.\<close>

abbreviation both_by_position :: "value" where
  "both_by_position \<equiv> Array [num 42, Bool True]"

abbreviation both_by_name :: "value" where
  "both_by_name \<equiv> Object [(''b'', Bool True), (''num'', num 42)]"

abbreviation wrong_by_name :: "value" where
  "wrong_by_name \<equiv> Object [(''b'', Bool False), (''num'', String ''hello'')]"

definition parse_auto :: "(de_error \<Rightarrow> string) \<Rightarrow> value option \<Rightarrow> sample list answer" where
  "parse_auto display p =
     map_option Some (jsonrpc_params p [(''num'', an_i32 display), (''b'', a_bool display)])"

definition doc_basic :: "(de_error \<Rightarrow> string) \<Rightarrow> bool" where
  "doc_basic display \<longleftrightarrow>
     (let wrap = (\<lambda>p. params_wrap p [(''num'', an_i32 display), (''b'', a_bool display)])
      in gives (parse_auto display (Some both_by_position)) [Int32 42, Boolean True] \<and>
         gives (parse_auto display (Some both_by_name)) [Int32 42, Boolean True] \<and>
         errs (parse_auto display None) \<and>
         errs (parse_auto display (Some wrong_by_name)) \<and>
         gives_directly (wrap (Some both_by_name)) [Int32 42, Boolean True] \<and>
         errs_directly (wrap None))"

definition parse_named :: "(de_error \<Rightarrow> string) \<Rightarrow> value option \<Rightarrow> sample list answer" where
  "parse_named display p =
     Some (Some (params_named p [(''num'', an_option_i32 display), (''b'', a_bool display)]))"

definition doc_named :: "(de_error \<Rightarrow> string) \<Rightarrow> bool" where
  "doc_named display \<longleftrightarrow>
     errs (parse_named display (Some both_by_position)) \<and>
     gives (parse_named display (Some both_by_name)) [Opt_int32 (Some 42), Boolean True] \<and>
     gives (parse_named display (Some (Object [(''b'', Bool False), (''extra'', String ''ignored'')])))
       [Opt_int32 None, Boolean False] \<and>
     errs (parse_named display None) \<and>
     errs (parse_named display (Some wrong_by_name))"

definition parse_positional :: "(de_error \<Rightarrow> string) \<Rightarrow> value option \<Rightarrow> sample list answer" where
  "parse_positional display p = map_option Some (params_positional p [an_i32 display, a_bool display])"

definition doc_positional :: "(de_error \<Rightarrow> string) \<Rightarrow> bool" where
  "doc_positional display \<longleftrightarrow>
     gives (parse_positional display (Some both_by_position)) [Int32 42, Boolean True]"

definition parse_struct :: "(de_error \<Rightarrow> string) \<Rightarrow> value option \<Rightarrow> sample list answer" where
  "parse_struct display p = map_option Some (jsonrpc_params p [(''params'', a_struct display)])"

definition doc_struct :: "(de_error \<Rightarrow> string) \<Rightarrow> bool" where
  "doc_struct display \<longleftrightarrow>
     (let expected = Struct \<lparr>ps_num = Some 42, ps_b = True\<rparr>;
          expected_optional = Struct \<lparr>ps_num = None, ps_b = False\<rparr>
      in gives (parse_struct display (Some both_by_position)) [expected] \<and>
         gives (parse_struct display (Some both_by_name)) [expected] \<and>
         gives (parse_struct display (Some (Object [(''b'', Bool False)]))) [expected_optional] \<and>
         gives (parse_struct display (Some (Array [both_by_name]))) [expected] \<and>
         gives (parse_struct display (Some (Object [(''params'', both_by_name)]))) [expected] \<and>
         gives_directly (Some (params_single (a_struct display) both_by_name)) expected \<and>
         errs_directly (Some (params_single (a_struct display) (Array [both_by_name]))))"

lemmas doc_defs = parse_auto_def parse_named_def parse_positional_def parse_struct_def
  an_i32_def an_option_i32_def a_bool_def a_struct_def no_params_fields_def params_of_fields_def
  params_wrap_def params_single_def params_one_def bad_params_def subval_def
  de_option_def store_field_def required_def Let_def

lemma documentation_passes: "doc_basic display" "doc_named display" "doc_positional display" "doc_struct display"
  by (simp_all add: doc_basic_def doc_named_def doc_positional_def doc_struct_def doc_defs)

end
