(* ===== verification/Singles.thy ===== *)
theory Singles
  imports Wire Calls
begin

text \<open>
  A connection that receives no batches, which is what the other side of a connection of this library
  looks like: a client has no operation that sends one.  Then every job is a future of the server's, and
  the books are simple: each request that was served is answered by one response, or by one job that
  will give it.  The outcomes a server may give are a relation here, so that they can depend on time
  or on the server's state.
\<close>

section \<open>What arrives\<close>

fun lone :: "message \<Rightarrow> bool" where
  "lone (Batch ms) = False"
| "lone (UnmatchedSub v) = False"
| "lone _ = True"

definition lone_item :: "parsed \<Rightarrow> bool" where
  "lone_item item \<longleftrightarrow> (\<exists>m. item = Inr m \<and> lone m)"

fun arrival :: "label \<Rightarrow> parsed list" where
  "arrival (Received item) = [item]"
| "arrival (Ignored item) = [item]"
| "arrival _ = []"

definition arrivals :: "label list \<Rightarrow> parsed list" where
  "arrivals ls = concat (map arrival ls)"

text \<open>The requests that were served.\<close>

fun served :: "label \<Rightarrow> request list" where
  "served (Received (Inr (Request req))) = [req]"
| "served _ = []"

definition all_served :: "label list \<Rightarrow> request list" where
  "all_served ls = concat (map served ls)"

lemma arrivals_simps [simp]:
  "arrivals [] = []" "arrivals (l # ls) = arrival l @ arrivals ls" "arrivals (ls @ ms) = arrivals ls @ arrivals ms"
  by (simp_all add: arrivals_def)

lemma all_served_simps [simp]:
  "all_served [] = []" "all_served (l # ls) = served l @ all_served ls"
  "all_served (ls @ ms) = all_served ls @ all_served ms"
  by (simp_all add: all_served_def)

lemma asking_lone: "asking m \<Longrightarrow> lone m"
  by (cases m) auto

lemma lone_norm [simp]: "lone (norm_message m) = lone m"
  by (cases m) auto

section \<open>Servers and their outcomes\<close>

type_synonym outcomes = "string \<Rightarrow> value option \<Rightarrow> rpc_error + value \<Rightarrow> bool"

text \<open>
  The contract of a server whose outcomes are permitted by \<open>Q\<close>: a method it does not know is
  refused, and a future may never resolve.
\<close>

locale honest = server_contract accepts server
  for accepts :: room and server :: "('s, 'v) server" +
  fixes to_value :: "'v \<Rightarrow> 'x + value"
    and Q :: outcomes
  assumes refused: "rpc server m p s = (None, t) \<Longrightarrow> Q m p (Inl (method_not_found m))"
    and told: "rpc server m p s = (Some g, t) \<Longrightarrow>
      results (\<lambda>x. \<forall>r. to_value_expect to_value x = Some r \<longrightarrow> Q m p r) g"

text \<open>Every server is honest about something.\<close>

lemma honest_anything: "server_contract accepts server \<Longrightarrow> honest accepts server to_value (\<lambda>_ _ _. True)"
  by (simp add: honest_def honest_axioms_def results_True)

definition fits :: "outcomes \<Rightarrow> response \<Rightarrow> request \<Rightarrow> bool" where
  "fits Q r req \<longleftrightarrow>
     resp_jsonrpc r = Version \<and> resp_id r = req_id req \<and> Q (req_method req) (req_params req) (resp_result r)"

definition owed_result :: "outcomes \<Rightarrow> request option \<Rightarrow> message option \<Rightarrow> bool" where
  "owed_result Q k x \<longleftrightarrow>
     (case k of None \<Rightarrow> x = None | Some req \<Rightarrow> \<exists>r. x = Some (Response r) \<and> fits Q r req)"

fun owes :: "outcomes \<Rightarrow> 's job \<Rightarrow> request option \<Rightarrow> bool" where
  "owes Q (Work f) k = results (owed_result Q k) f"
| "owes Q _ k = False"

fun_cases owesE: "owes Q j k"

lemma owes_Work: "owes Q j k \<Longrightarrow> \<exists>f. j = Work f \<and> results (owed_result Q k) f"
  by (auto elim: owesE)

lemma request_reply_fits:
  assumes "\<forall>r. to_value_expect to_value x = Some r \<longrightarrow> Q (req_method req) (req_params req) r"
    and "request_reply to_value req x = Some y"
  shows "owed_result Q (Some req) y"
  using assms
  by (auto simp: request_reply_def to_value_expect_def owed_result_def fits_def reply_def reply_error_def
      split: sum.splits)

context honest
begin

lemma do_request_owes:
  assumes "do_request to_value server req s = (j, t)"
  shows "owes Q j (Some req)"
proof -
  obtain q u where q: "rpc server (req_method req) (req_params req) s = (q, u)" by fastforce
  show ?thesis
  proof (cases q)
    case None
    with refused q have "Q (req_method req) (req_params req) (Inl (method_not_found (req_method req)))"
      by blast
    with None q assms show ?thesis
      by (auto simp: do_request_def owed_result_def fits_def reply_error_def)
  next
    case (Some g)
    have "results (owed_result Q (Some req)) (future_then (request_reply to_value req) g)"
      by (rule results_future_then [OF told [OF q [unfolded Some]]]) (rule request_reply_fits)
    with Some q assms show ?thesis by (auto simp: do_request_def)
  qed
qed

end

lemma do_notification_owes:
  assumes "do_notification server notif s = (j, t)"
  shows "owes Q j None"
proof -
  have "results (owed_result Q None) (future_then (\<lambda>_. Some None) g)"
    for g :: "('a conn, unit + unit) future"
    by (rule results_future_then [OF results_True]) (simp add: owed_result_def)
  with assms show ?thesis
    by (auto simp: do_notification_def owed_result_def split: prod.splits option.splits)
qed

section \<open>The books of a connection\<close>

definition responses :: "message list \<Rightarrow> response list" where
  "responses ms = List.map_filter response_of ms"

lemma responses_simps [simp]:
  "responses [] = []" "responses (ms @ ns) = responses ms @ responses ns"
  "responses [Response r] = [r]" "asking m \<Longrightarrow> responses [m] = []"
  by (cases m; simp add: responses_def map_filter_def)+

lemma set_responses: "r \<in> set (responses ms) \<longleftrightarrow> Response r \<in> set ms"
  by (auto simp: responses_def map_filter_def image_iff)

definition ledger :: "outcomes \<Rightarrow> request list \<Rightarrow> 's endpoint \<Rightarrow> bool" where
  "ledger Q reqs e \<longleftrightarrow>
     list_all lone (wire e) \<and>
     (\<exists>as. list_all2 (fits Q) (responses (wire e)) as \<and> mset as \<subseteq># mset reqs \<and>
        (running e \<longrightarrow>
          (\<exists>ks. list_all2 (owes Q) (pool e @ backlog e) ks \<and> mset as + mset (somes ks) = mset reqs)))"

lemma ledgerI:
  assumes "list_all lone (wire e)" and "list_all2 (fits Q) (responses (wire e)) as"
    and "list_all2 (owes Q) (pool e @ backlog e) ks" and "mset as + mset (somes ks) = mset reqs"
  shows "ledger Q reqs e"
proof -
  have "mset as \<subseteq># mset reqs" using assms(4) by (metis mset_subset_eq_add_left)
  with assms show ?thesis unfolding ledger_def by blast
qed

lemma ledger_cong:
  assumes "ledger Q reqs e" and "wire e' = wire e" and "pool e' @ backlog e' = pool e @ backlog e"
    and "running e' \<Longrightarrow> running e"
  shows "ledger Q reqs e'"
  using assms unfolding ledger_def by auto

lemma ledger_ended:
  assumes "ledger Q reqs e" and "wire e' = wire e" and "\<not> running e'"
  shows "ledger Q reqs e'"
  using assms unfolding ledger_def by auto

lemma somes_append [simp]: "somes (xs @ ys) = somes xs @ somes ys"
  by (induction xs) (auto split: option.split)

lemma somes_remove:
  "i < length ks \<Longrightarrow> mset (somes (take i ks @ ls @ drop (Suc i) ks)) + mset (as_list (ks ! i)) =
    mset (somes ks) + mset (somes ls)"
  by (subst (4) id_take_nth_drop [of i ks]) (simp_all add: somes_Cons del: somes.simps(2))

lemma ledger_polled:
  assumes e: "ledger Q reqs e" and "running e" and i: "i < length (pool e)"
  shows "ledger Q reqs (polled accepts i e)"
proof -
  from e \<open>running e\<close> obtain as ks where w: "list_all lone (wire e)"
    and as: "list_all2 (fits Q) (responses (wire e)) as" "mset as \<subseteq># mset reqs"
    and ks: "list_all2 (owes Q) (pool e @ backlog e) ks" "mset as + mset (somes ks) = mset reqs"
    unfolding ledger_def by auto
  have len: "i < length ks" using i list_all2_lengthD [OF ks(1)] by simp
  have "owes Q (pool e ! i) (ks ! i)" using list_all2_nthD [OF ks(1), of i] i by (simp add: nth_append)
  then obtain f where f: "pool e ! i = Work f" "results (owed_result Q (ks ! i)) f"
    using owes_Work by blast
  obtain r t where p: "poll f (shared e) = (r, t)" by fastforce
  have z: "i - length (pool e) = 0" "Suc i - length (pool e) = 0" using i by simp_all
  have jobs: "list_all2 (owes Q) (take i (pool e) @ hs @ drop (Suc i) (pool e) @ backlog e)
      (take i ks @ ls @ drop (Suc i) ks)" if "list_all2 (owes Q) hs ls" for hs ls
    using tickets_replace [OF ks(1) that, of i] z by simp
  note swap = somes_remove [OF len]
  consider (panic) "r = None" | (quiet) "r = Some (Inl None)" "ks ! i = None"
    | (answer) a req where "r = Some (Inl (Some (Response a)))" "ks ! i = Some req" "fits Q a req"
    | (again) g where "r = Some (Inr g)" "results (owed_result Q (ks ! i)) g"
  proof (cases r)
    case (Some x)
    then show ?thesis
    proof (cases x)
      case (Inl y)
      then have "owed_result Q (ks ! i) y" using f(2) p Some by (auto dest: results_value)
      with Inl Some that(2,3) show ?thesis by (auto simp: owed_result_def split: option.splits)
    next
      case (Inr g)
      then have "results (owed_result Q (ks ! i)) g" using f(2) p Some by (auto dest: results_next)
      with Inr Some that(4) show ?thesis by blast
    qed
  qed (use that(1) in blast)
  then show ?thesis
  proof cases
    case panic
    show ?thesis
      by (rule ledger_ended [OF e]) (use panic p f in \<open>simp_all add: polled_def running_def\<close>)
  next
    case quiet
    have sum: "mset as + mset (somes (take i ks @ drop (Suc i) ks)) = mset reqs"
      using swap [of "[]"] quiet(2) ks(2) by simp
    show ?thesis
      by (rule ledgerI [where ks = "take i ks @ drop (Suc i) ks", OF _ _ _ sum])
         (use quiet(1) p f(1) w as(1) jobs [of "[]" "[]"] in \<open>simp_all add: polled_def\<close>)
  next
    case answer
    have "mset (somes ks) = add_mset req (mset (somes (take i ks @ drop (Suc i) ks)))"
      using swap [of "[]"] answer(2) by simp
    then have sum: "mset (as @ [req]) + mset (somes (take i ks @ drop (Suc i) ks)) = mset reqs"
      using ks(2) by simp
    have "list_all2 (fits Q) (responses (wire e @ [Response a])) (as @ [req])"
      using as(1) answer(3) by (simp add: list_all2_appendI)
    then show ?thesis
      by (intro ledgerI [where ks = "take i ks @ drop (Suc i) ks", OF _ _ _ sum])
         (use answer(1) p f(1) w jobs [of "[]" "[]"] in \<open>simp_all add: polled_def\<close>)
  next
    case again
    have sum: "mset as + mset (somes (take i ks @ ks ! i # drop (Suc i) ks)) = mset reqs"
      using ks(2) id_take_nth_drop [OF len] by simp
    show ?thesis
      by (rule ledgerI [where ks = "take i ks @ ks ! i # drop (Suc i) ks", OF _ _ _ sum])
         (use again p f(1) w as(1) jobs [of "[Work g]" "[ks ! i]"] in \<open>simp_all add: polled_def\<close>)
  qed
qed

text \<open>A new item when nothing of the last one is left.\<close>

lemma ledger_receive:
  assumes "honest accepts server to_value Q" and e: "ledger Q reqs e" and "hungry e" and "lone_item item"
  shows "ledger Q (reqs @ served (received item e)) (receive to_value server item e)"
proof -
  from e \<open>hungry e\<close> obtain as ks where w: "list_all lone (wire e)"
    and as: "list_all2 (fits Q) (responses (wire e)) as" "mset as \<subseteq># mset reqs"
    and ks: "list_all2 (owes Q) (pool e) ks" "mset as + mset (somes ks) = mset reqs" and r: "running e"
    unfolding ledger_def hungry_def by auto
  from assms(4) obtain m where m: "item = Inr m" "lone m" by (auto simp: lone_item_def)
  have one: ?thesis if "do_msg to_value server item (shared e) = (js, t)" and "list_all2 (owes Q) js ls"
    and "somes ls = served (received item e)" for js ls t
    unfolding ledger_def
  proof (intro conjI exI impI)
    show "list_all2 (fits Q) (responses (wire (receive to_value server item e))) as"
      "list_all lone (wire (receive to_value server item e))"
      using as(1) w that(1) by (simp_all add: receive_def)
    show "mset as \<subseteq># mset (reqs @ served (received item e))"
      using as(2) by (simp add: subset_mset.add_increasing2)
    show "list_all2 (owes Q) (pool (receive to_value server item e) @ backlog (receive to_value server item e))
        (ks @ ls)"
      using ks(1) that(1,2) by (simp add: receive_def list_all2_appendI)
    show "mset as + mset (somes (ks @ ls)) = mset (reqs @ served (received item e))"
      using ks(2) that(3) by (simp add: add.assoc [symmetric])
  qed
  show ?thesis
  proof (cases "stop (shared e)")
    case True
    then show ?thesis using one [where ls = "[]"] m
      by (cases m) (auto simp: do_msg_stopped received_def)
  next
    case False
    then have label: "received item e = Received item" by (simp add: received_def)
    from m show ?thesis
    proof (cases m)
      case (Request req)
      obtain j t where j: "do_request to_value server req (shared e) = (j, t)" by fastforce
      with one [of "[j]" t "[Some req]"] honest.do_request_owes [OF assms(1) j] Request m(1) False label
      show ?thesis by (simp add: do_msg_running)
    next
      case (Response a)
      with one [of "[]" "do_response a (shared e)" "[]"] m(1) False label
      show ?thesis by (simp add: do_msg_running)
    next
      case (Notification notif)
      obtain j t where j: "do_notification server notif (shared e) = (j, t)" by fastforce
      with one [of "[j]" t "[None]"] do_notification_owes [OF j, of Q] Notification m(1) False label
      show ?thesis by (simp add: do_msg_running)
    qed auto
  qed
qed

lemma ledger_event:
  assumes "honest accepts server to_value Q" and "typed_endpoint e"
    and step: "event accepts to_value server l e e'"
    and "\<forall>item \<in> set (arrival l). lone_item item" and e: "ledger Q reqs e"
  shows "ledger Q (reqs @ served l) e'"
  using step
proof (cases rule: event.cases)
  case (event_receive item)
  then have "lone_item item" using assms(4) by (simp add: received_def split: if_splits)
  with event_receive ledger_receive [OF assms(1) e] show ?thesis by simp
next
  case (event_pull j js)
  then show ?thesis using ledger_cong [OF e, of e'] by simp
next
  case (event_poll i)
  then show ?thesis using ledger_polled [OF e] by simp
next
  case (event_forward m ms)
  then have "asking m" using assms(2) by (simp add: typed_endpoint_def typed_conn_def)
  then show ?thesis using event_forward e by (auto simp: ledger_def running_def asking_lone)
next
  case (event_user t)
  then show ?thesis using ledger_cong [OF e, of e'] by (simp add: running_def)
next
  case event_end
  then show ?thesis using ledger_cong [OF e, of e'] by (simp add: cleaner_def running_def)
next
  case event_terminator
  then show ?thesis using ledger_cong [OF e, of e'] by (simp add: running_def)
qed (use ledger_ended [OF e, of e'] in \<open>simp_all add: transmitted_def running_def\<close>)

lemma ledger_run:
  assumes honest: "honest accepts (the_server b) to_value Q"
    and "run accepts to_value (the_server b) (start b x) ls e"
    and "\<forall>item \<in> set (arrivals ls). lone_item item"
  shows "ledger Q (all_served ls) e"
  using assms(2,3)
proof (induction rule: run.induct)
  case run_start
  show ?case by (simp add: ledger_def start_def Let_def)
next
  case (run_step ls e l e')
  have "typed_endpoint e"
    by (rule typed_reachable [OF _ run_reachable [OF run_step.hyps(1)]])
       (use honest in \<open>simp add: honest_def\<close>)
  with run_step ledger_event [OF honest _ run_step.hyps(2)] show ?case by simp
qed

end
