(* ===== verification/Callers.thy ===== *)
theory Callers
  imports Singles
begin

text \<open>
  The calls of a connection that receives no batches: an answer that has arrived was received under the
  id of its call, a request that goes out carries the id of a call, and a call that still waits has
  not been answered yet.
\<close>

section \<open>What becomes of calls\<close>

text \<open>A request that carries the id of a call; all other messages are known anyway.\<close>

definition ids :: "'s conn \<Rightarrow> string list" where
  "ids s = map call_id (calls s)"

definition known :: "'s conn \<Rightarrow> message \<Rightarrow> bool" where
  "known s m \<longleftrightarrow> (\<forall>req. m = Request req \<longrightarrow> req_id req \<in> String ` set (ids s))"

text \<open>Everything but a response: calls are added or cancelled, and ask under their ids.\<close>

definition calls_later :: "'s conn \<Rightarrow> 's conn \<Rightarrow> bool" where
  "calls_later s t \<longleftrightarrow>
     length (calls s) \<le> length (calls t) \<and>
     (\<forall>i < length (calls s). call_id (calls t ! i) = call_id (calls s ! i) \<and>
        (slot (calls t ! i) = slot (calls s ! i) \<or> slot (calls t ! i) = Cancelled)) \<and>
     (\<forall>i. length (calls s) \<le> i \<and> i < length (calls t) \<longrightarrow> (\<forall>r. slot (calls t ! i) \<noteq> Arrived r)) \<and>
     (\<forall>m \<in> set (outbox t). m \<in> set (outbox s) \<or> known t m)"

lemma known_Response [simp]: "known s (Response r)"
  by (simp add: known_def)

lemma ids_later: "calls_later s t \<Longrightarrow> set (ids s) \<subseteq> set (ids t)"
proof
  fix k
  assume later: "calls_later s t" and "k \<in> set (ids s)"
  then obtain i where "i < length (calls s)" "k = call_id (calls s ! i)"
    by (auto simp: ids_def in_set_conv_nth)
  with later have "i < length (calls t)" "k = call_id (calls t ! i)" by (auto simp: calls_later_def)
  then show "k \<in> set (ids t)" by (simp add: ids_def)
qed

lemma known_later: "known s m \<Longrightarrow> calls_later s t \<Longrightarrow> known t m"
  using ids_later [of s t] unfolding known_def by blast

lemma known_call: "i < length (calls s) \<Longrightarrow> known s (message_request (call_id (calls s ! i)) m p)"
  by (simp add: known_def message_request_def ids_def)

lemma calls_later_refl [simp]: "calls_later s s"
  by (auto simp: calls_later_def)

lemma calls_later_trans:
  assumes st: "calls_later s t" and tu: "calls_later t u"
  shows "calls_later s u"
proof -
  have "known u m" if "m \<in> set (outbox u)" "m \<notin> set (outbox s)" for m
    using that st tu known_later [OF _ tu] by (auto simp: calls_later_def)
  moreover have "call_id (calls u ! i) = call_id (calls s ! i) \<and>
      (slot (calls u ! i) = slot (calls s ! i) \<or> slot (calls u ! i) = Cancelled)"
    if i: "i < length (calls s)" for i
  proof -
    have "call_id (calls t ! i) = call_id (calls s ! i)"
      "slot (calls t ! i) = slot (calls s ! i) \<or> slot (calls t ! i) = Cancelled" "i < length (calls t)"
      using i st by (auto simp: calls_later_def)
    moreover from this(3) have "call_id (calls u ! i) = call_id (calls t ! i)"
      "slot (calls u ! i) = slot (calls t ! i) \<or> slot (calls u ! i) = Cancelled"
      using tu by (auto simp: calls_later_def)
    ultimately show ?thesis by auto
  qed
  moreover have "slot (calls u ! i) \<noteq> Arrived r" if "length (calls s) \<le> i" "i < length (calls u)" for i r
  proof (cases "i < length (calls t)")
    case True
    with that st tu have "slot (calls t ! i) \<noteq> Arrived r"
      "slot (calls u ! i) = slot (calls t ! i) \<or> slot (calls u ! i) = Cancelled"
      unfolding calls_later_def by blast+
    then show ?thesis by auto
  next
    case False
    with that tu show ?thesis by (auto simp: calls_later_def)
  qed
  moreover have "length (calls s) \<le> length (calls u)" using st tu by (simp add: calls_later_def)
  ultimately show ?thesis unfolding calls_later_def by blast
qed

lemma calls_later_same:
  "calls t = calls s \<Longrightarrow> set (outbox t) \<subseteq> set (outbox s) \<Longrightarrow> calls_later s t"
  by (auto simp: calls_later_def)

lemma cancel_cases: "cancel x = x \<or> cancel x = Cancelled"
  by (cases x) auto

lemma calls_later_idmap_drop: "calls_later s (idmap_drop k s)"
  by (auto simp: calls_later_def idmap_drop_def nth_drop_sender cancel_cases split: option.split)

lemma calls_later_idmap_clear: "calls_later s (idmap_clear s)"
  by (auto simp: calls_later_def idmap_clear_def nth_cancel_owned cancel_cases)

lemma calls_later_answer_drop: "calls_later s (answer_drop i s)"
  by (auto simp: calls_later_def)

lemma calls_later_client_drop: "calls_later s (client_drop s)"
  by (rule calls_later_same) simp_all

lemma calls_later_registered: "calls_later s (registered u t s)"
  by (auto simp: calls_later_def nth_append less_Suc_eq_le)

lemma calls_later_send_poll: "known s m \<Longrightarrow> calls_later s (snd (send_poll accepts m s))"
  by (auto simp: calls_later_def send_poll_def known_def ids_def)

lemma calls_later_client_call: "calls_later s (snd (client_call uuid m p timeout s))"
proof (cases "\<exists>e. timeout = Some (Inl e)")
  case True
  let ?s1 = "registered uuid True s"
  let ?s2 = "?s1\<lparr>calls := drop_sender (length (calls s)) (calls ?s1)\<rparr>"
  have "calls_later ?s1 ?s2" by (auto simp: calls_later_def nth_drop_sender cancel_cases)
  then have "calls_later s (client_drop (answer_drop (length (calls s)) ?s2))"
    by (rule calls_later_trans [OF calls_later_registered calls_later_trans
        [OF _ calls_later_trans [OF calls_later_answer_drop calls_later_client_drop]]])
  then show ?thesis using True by (auto simp: client_call_def registered_def Let_def)
next
  case False
  let ?s2 = "idmap_drop uuid (registered uuid (timeout \<noteq> None) s)"
  have "calls_later s ?s2" by (rule calls_later_trans [OF calls_later_registered calls_later_idmap_drop])
  moreover have "calls_later ?s2 (?s2\<lparr>idmap := f\<rparr>)" for f by (rule calls_later_same) simp_all
  ultimately have "calls_later s (?s2\<lparr>idmap := f\<rparr>)" for f by (rule calls_later_trans)
  moreover have "timeout \<noteq> Some (Inl e)" for e using False by blast
  ultimately show ?thesis by (simp add: client_call_registers Let_def)
qed

lemma calls_later_api: "api accepts s t \<Longrightarrow> calls_later s t"
proof (induction rule: api.induct)
  case (api_call_sent s i msg m params)
  obtain r u where p: "send_poll accepts msg s = (r, u)" by fastforce
  have "known s msg" using api_call_sent by (simp add: known_call)
  then have u: "calls_later s u" using calls_later_send_poll [of s msg accepts] p by simp
  show ?case
    using p u calls_later_trans [OF u calls_later_trans [OF calls_later_answer_drop calls_later_client_drop]]
    by (simp add: call_sent_poll_def split: poll.split sum.split)
next
  case (api_notify s msg m params)
  obtain r u where p: "send_poll accepts msg s = (r, u)" by fastforce
  have "known s msg" using api_notify by (auto simp: known_def client_notify_def message_notification_def)
  then have u: "calls_later s u" using calls_later_send_poll [of s msg accepts] p by simp
  show ?case
    using p u calls_later_trans [OF u calls_later_client_drop]
    by (simp add: notify_poll_def split: poll.split sum.split)
next
  case (api_answer i s timer)
  note drops = calls_later_answer_drop [of s i] calls_later_trans [OF calls_later_answer_drop calls_later_idmap_drop]
    calls_later_idmap_drop
  show ?case
    by (auto simp: answer_poll_def received_poll_def Let_def drops
        split: option.split slot.split)
qed (auto simp: client_clone_new calls_later_client_call calls_later_answer_drop client_def
      intro: calls_later_same)

lemma calls_later_apis: "apis accepts s t \<Longrightarrow> calls_later s t"
  by (induction rule: rtranclp_induct) (auto intro: calls_later_trans calls_later_api)

section \<open>What arrives and what goes out\<close>

definition callers :: "parsed list \<Rightarrow> 's endpoint \<Rightarrow> bool" where
  "callers items e \<longleftrightarrow>
     (\<forall>i < length (calls (shared e)). \<forall>r. slot (calls (shared e) ! i) = Arrived r \<longrightarrow>
        Inr (Response r) \<in> set items \<and> resp_id r = String (call_id (calls (shared e) ! i))) \<and>
     (\<forall>m \<in> set (outbox (shared e)) \<union> set (wire e). known (shared e) m)"

lemma callers_later:
  assumes e: "callers items e" and later: "calls_later (shared e) (shared e')"
    and wire: "set (wire e') \<subseteq> set (wire e) \<union> range Response \<union> set (outbox (shared e))"
  shows "callers (items @ new) e'"
  unfolding callers_def
proof (intro conjI allI impI ballI)
  fix i r
  assume i: "i < length (calls (shared e'))" and r: "slot (calls (shared e') ! i) = Arrived r"
  have "i < length (calls (shared e))"
    using i r later by (auto simp: calls_later_def intro!: leI dest: leD)
  with r later have "slot (calls (shared e) ! i) = Arrived r"
    "call_id (calls (shared e') ! i) = call_id (calls (shared e) ! i)"
    by (auto simp: calls_later_def)
  with e \<open>i < length (calls (shared e))\<close>
  show "Inr (Response r) \<in> set (items @ new)" "resp_id r = String (call_id (calls (shared e') ! i))"
    by (auto simp: callers_def)
next
  fix m
  assume "m \<in> set (outbox (shared e')) \<union> set (wire e')"
  with wire later have "known (shared e') m \<or> m \<in> set (outbox (shared e)) \<union> set (wire e) \<or> m \<in> range Response"
    by (auto simp: calls_later_def)
  then show "known (shared e') m" using e known_later [OF _ later, of m] by (auto simp: callers_def)
qed

lemma ids_arrived [simp]:
  "ids (s\<lparr>idmap := f, calls := (calls s)[i := (calls s ! i)\<lparr>slot := x\<rparr>]\<rparr>) = ids s"
  by (cases "i < length (calls s)")
     (simp_all add: ids_def map_update list_update_beyond list_update_same_conv)

lemma callers_response:
  assumes "callers items e" and "ids_ok (shared e)"
  shows "callers (items @ [Inr (Response r)]) (e\<lparr>shared := do_response r (shared e), backlog := js\<rparr>)"
  using assms(2)
proof (cases rule: do_response_cases [where r = r])
  case nobody
  with assms(1) show ?thesis by (auto simp: callers_def)
next
  case (somebody i)
  with assms(1) show ?thesis by (auto simp: callers_def known_def nth_list_update)
qed

lemma calls_later_transmitted: "calls_later (shared e) (shared (transmitted r e))"
  unfolding transmitted_def
  by (simp, rule calls_later_trans [OF calls_later_idmap_clear calls_later_same]) simp_all

text \<open>An event brings an answer, or leaves the answers alone.\<close>

lemma polled_work:
  assumes "pool e ! i = Work f" and "poll f (shared e) = (r, t)"
  shows "shared (polled accepts i e) = t"
    and "wire (polled accepts i e) = wire e @ (case r of Some (Inl (Some m)) \<Rightarrow> [m] | _ \<Rightarrow> [])"
  using assms by (auto simp: polled_def Let_def split: option.split sum.split)

lemma calls_later_polled:
  assumes "ledger Q reqs e" and "endpoint_ok accepts e" and "running e" and i: "i < length (pool e)"
  shows "calls_later (shared e) (shared (polled accepts i e))"
    and "set (wire (polled accepts i e)) \<subseteq> set (wire e) \<union> range Response"
proof -
  from assms obtain ks where ks: "list_all2 (owes Q) (pool e @ backlog e) ks" by (auto simp: ledger_def)
  have "owes Q (pool e ! i) (ks ! i)" using list_all2_nthD [OF ks, of i] i by (simp add: nth_append)
  then obtain f where f: "pool e ! i = Work f" "results (owed_result Q (ks ! i)) f"
    using owes_Work by blast
  obtain r t where p: "poll f (shared e) = (r, t)" by fastforce
  have "tame_job accepts (pool e ! i)"
    using assms(2,3) i by (auto simp: endpoint_ok_def jobs_ok_def decent_def list_all_iff)
  with f p have "apis accepts (shared e) t" by (auto dest: tame_poll)
  then show "calls_later (shared e) (shared (polled accepts i e))"
    using polled_work [OF f(1) p] calls_later_apis by simp
  have "r = Some (Inl (Some m)) \<Longrightarrow> m \<in> range Response" for m
    using results_value [OF f(2)] p by (fastforce simp: owed_result_def split: option.splits)
  then show "set (wire (polled accepts i e)) \<subseteq> set (wire e) \<union> range Response"
    using polled_work(2) [OF f(1) p, of accepts] by (auto split: option.splits sum.splits)
qed

lemma calls_later_receive:
  assumes "server_contract accepts server" and "lone m" and "\<forall>r. m \<noteq> Response r"
  shows "calls_later (shared e) (shared (receive to_value server (Inr m) e))"
proof (cases "stop (shared e)")
  case True
  with assms(2,3) show ?thesis by (cases m) (auto simp: receive_def do_msg_stopped)
next
  case False
  with assms(2,3) show ?thesis
  proof (cases m)
    case (Request req)
    obtain j t where j: "do_request to_value server req (shared e) = (j, t)" by fastforce
    with server_contract.do_request_fresh [OF assms(1) j] False Request show ?thesis
      by (auto simp: receive_def do_msg_running intro: calls_later_apis)
  next
    case (Notification notif)
    obtain j t where j: "do_notification server notif (shared e) = (j, t)" by fastforce
    with server_contract.do_notification_fresh [OF assms(1) j] False Notification show ?thesis
      by (auto simp: receive_def do_msg_running intro: calls_later_apis)
  qed auto
qed

lemma event_calls [consumes 5]:
  assumes contract: "server_contract accepts server" and ok: "endpoint_ok accepts e"
    and books: "ledger Q reqs e" and step: "event accepts to_value server l e e'"
    and lone: "\<forall>item \<in> set (arrival l). lone_item item"
  obtains (answer) r where "arrival l = [Inr (Response r)]"
      and "e' = e\<lparr>shared := do_response r (shared e), backlog := []\<rparr>"
  | (other) "\<forall>r. Inr (Response r) \<notin> set (arrival l)" and "calls_later (shared e) (shared e')"
      and "set (wire e') \<subseteq> set (wire e) \<union> range Response \<union> set (outbox (shared e))"
  using step
proof (cases rule: event.cases)
  case (event_receive item)
  then obtain m where m: "item = Inr m" "lone m"
    using lone by (auto simp: received_def lone_item_def split: if_splits)
  have label: "arrival l = [item]" using event_receive by (simp add: received_def)
  show ?thesis
  proof (cases "\<exists>r. m = Response r")
    case True
    then obtain r where r: "m = Response r" by blast
    show ?thesis
    proof (rule answer)
      show "arrival l = [Inr (Response r)]" using label m r by simp
      show "e' = e\<lparr>shared := do_response r (shared e), backlog := []\<rparr>"
        using event_receive m r
        by (cases "stop (shared e)") (simp_all add: receive_def do_msg_stopped do_msg_running)
    qed
  next
    case False
    with calls_later_receive [OF contract m(2), of e to_value] event_receive m label show ?thesis
      by (intro other) (auto simp: receive_def split: prod.splits)
  qed
next
  case event_end
  have "calls_later (shared e) (terminate (idmap_clear (shared e)))"
    by (rule calls_later_trans [OF calls_later_idmap_clear calls_later_same]) simp_all
  with event_end show ?thesis by (intro other) (auto simp: cleaner_def)
next
  case (event_poll i)
  with calls_later_polled [OF books ok] show ?thesis by (intro other) auto
next
  case (event_forward m ms)
  then show ?thesis by (intro other) (auto intro: calls_later_same)
next
  case (event_user t)
  with calls_later_api show ?thesis by (intro other) auto
next
  case event_terminator
  then show ?thesis by (intro other) auto
next
  case (event_pull j js)
  then show ?thesis by (intro other) auto
qed (use other calls_later_transmitted [of e] in \<open>auto simp: transmitted_def\<close>)

lemma callers_event:
  assumes "server_contract accepts server" and "endpoint_ok accepts e" and "ledger Q reqs e"
    and "event accepts to_value server l e e'" and "\<forall>item \<in> set (arrival l). lone_item item"
    and e: "callers items e"
  shows "callers (items @ arrival l) e'"
  using assms(1-5)
proof (cases rule: event_calls)
  case (answer r)
  have "ids_ok (shared e)" using assms(2) by (simp add: endpoint_ok_def conn_ok_def)
  from callers_response [OF e this, of r "[]"] answer show ?thesis by simp
next
  case other
  then show ?thesis by (intro callers_later [OF e])
qed

lemma callers_run:
  assumes contract: "server_contract accepts (the_server b)"
    and "run accepts to_value (the_server b) (start b x) ls e" and "\<forall>item \<in> set (arrivals ls). lone_item item"
  shows "callers (arrivals ls) e"
  using assms(2,3)
proof (induction rule: run.induct)
  case run_start
  have "apis accepts (client_new (start_conn x)) (initialized (the_server b) (client_new (start_conn x)))"
    by (rule server_contract.initialized_apis [OF contract])
  note later = calls_later_apis [OF this]
  have "callers [] ((start b x)\<lparr>shared := client_new (start_conn x)\<rparr>)"
    by (simp add: callers_def start_def start_conn_def Let_def)
  from callers_later [OF this, of "start b x" "[]"] later show ?case
    by (simp add: start_def Let_def calls_later_def known_def ids_def)
next
  case (run_step ls e l e')
  have "endpoint_ok accepts e" by (rule reachable_ok [OF contract run_reachable [OF run_step.hyps(1)]])
  moreover have "ledger (\<lambda>_ _ _. True) (all_served ls) e"
    using ledger_run [OF honest_anything [OF contract] run_step.hyps(1)] run_step.prems by simp
  ultimately show ?case
    using callers_event [OF contract _ _ run_step.hyps(2)] run_step by simp
qed

section \<open>A call that waits has not been answered\<close>

text \<open>Where no id is drawn twice, and every answer so far was one to a call.\<close>

definition unanswered :: "parsed list \<Rightarrow> 's endpoint \<Rightarrow> bool" where
  "unanswered items e \<longleftrightarrow>
     (\<forall>i < length (calls (shared e)). slot (calls (shared e) ! i) = Waiting \<longrightarrow>
        (\<forall>r. Inr (Response r) \<in> set items \<longrightarrow> resp_id r \<noteq> String (call_id (calls (shared e) ! i))))"

lemma ids_prefix:
  assumes "calls_later s t"
  shows "ids s = take (length (calls s)) (ids t)"
  using assms by (intro nth_equalityI) (auto simp: calls_later_def ids_def)

lemma ids_response [simp]: "ids_ok s \<Longrightarrow> ids (do_response r s) = ids s"
  by (erule do_response_cases [where r = r]) simp_all

lemma unanswered_event:
  assumes "server_contract accepts server" and "endpoint_ok accepts e" and "ledger Q reqs e"
    and "event accepts to_value server l e e'" and "\<forall>item \<in> set (arrival l). lone_item item"
    and unique: "distinct (ids (shared e'))"
    and asked: "\<And>r. Inr (Response r) \<in> set items \<Longrightarrow> resp_id r \<in> String ` set (ids (shared e))"
    and e: "unanswered items e"
  shows "unanswered (items @ arrival l) e'"
  using assms(1-5)
proof (cases rule: event_calls)
  case (answer r)
  have ok: "ids_ok (shared e)" using assms(2) by (simp add: endpoint_ok_def conn_ok_def)
  from ok show ?thesis
  proof (cases rule: do_response_cases [where r = r])
    case nobody
    with ok have "slot (calls (shared e) ! j) \<noteq> Waiting"
      if "j < length (calls (shared e))" "resp_id r = String (call_id (calls (shared e) ! j))" for j
      using that by (auto simp: ids_ok_def)
    with nobody answer e show ?thesis by (auto simp: unanswered_def)
  next
    case (somebody i)
    have "distinct (ids (shared e))" using unique answer(2) ok by simp
    then have "call_id (calls (shared e) ! i) \<noteq> call_id (calls (shared e) ! j)"
      if "j < length (calls (shared e))" "i \<noteq> j" for j
      using somebody(1) that by (simp add: ids_def distinct_conv_nth)
    with somebody answer e show ?thesis by (auto simp: unanswered_def nth_list_update)
  qed
next
  case other
  show ?thesis
    unfolding unanswered_def
  proof (intro allI impI)
    fix i r
    assume i: "i < length (calls (shared e'))" "slot (calls (shared e') ! i) = Waiting"
      and "Inr (Response r) \<in> set (items @ arrival l)"
    then have r: "Inr (Response r) \<in> set items" using other(1) by simp
    show "resp_id r \<noteq> String (call_id (calls (shared e') ! i))"
    proof (cases "i < length (calls (shared e))")
      case True
      with i other(2) have "slot (calls (shared e) ! i) = Waiting"
        "call_id (calls (shared e') ! i) = call_id (calls (shared e) ! i)"
        by (auto simp: calls_later_def)
      with e r True show ?thesis by (auto simp: unanswered_def)
    next
      case False
      have "call_id (calls (shared e') ! i) \<notin> set (take (length (calls (shared e))) (ids (shared e')))"
        using unique i False by (auto simp: in_set_conv_nth ids_def distinct_conv_nth)
      with asked [OF r] ids_prefix [OF other(2)] show ?thesis by auto
    qed
  qed
qed

end
