(* ===== verification/Scheduler.thy ===== *)
theory Scheduler
  imports Schedules
begin

text \<open>
  The steps of an endpoint as a function: what the reactor, the transport or a user of the handles may
  choose is an action, and an action that is possible gives the next state.  The relation \<open>event\<close> is
  exactly what the actions do, so runs can be computed.
\<close>

section \<open>Uses of the public interface\<close>

datatype 's usage =
    Terminate
  | Kill
  | Get_client
  | Clone_client
  | Drop_client
  | Make_call string string "value option" "(io_error + unit) option"
  | Send_call nat string "value option"
  | Send_notification string "value option"
  | Poll_answer nat "(io_error + unit) option"
  | Drop_answer nat
  | Set_server 's

fun usable :: "'s usage \<Rightarrow> 's conn \<Rightarrow> bool" where
  "usable Clone_client s \<longleftrightarrow> 0 < clients s"
| "usable Drop_client s \<longleftrightarrow> 0 < clients s"
| "usable (Make_call uuid m p timeout) s \<longleftrightarrow> 0 < clients s"
| "usable (Send_call i m p) s \<longleftrightarrow> 0 < clients s \<and> i < length (calls s) \<and> live (calls s ! i)"
| "usable (Send_notification m p) s \<longleftrightarrow> 0 < clients s"
| "usable (Poll_answer i timer) s \<longleftrightarrow> i < length (calls s) \<and> live (calls s ! i)"
| "usable (Drop_answer i) s \<longleftrightarrow> i < length (calls s) \<and> live (calls s ! i)"
| "usable _ s \<longleftrightarrow> True"

fun used :: "room \<Rightarrow> 's usage \<Rightarrow> 's conn \<Rightarrow> 's conn" where
  "used accepts Terminate s = terminate s"
| "used accepts Kill s = kill s"
| "used accepts Get_client s = snd (client s)"
| "used accepts Clone_client s = client_clone s"
| "used accepts Drop_client s = client_drop s"
| "used accepts (Make_call uuid m p timeout) s = snd (client_call uuid m p timeout s)"
| "used accepts (Send_call i m p) s =
     snd (call_sent_poll accepts (message_request (call_id (calls s ! i)) m p) i s)"
| "used accepts (Send_notification m p) s = snd (notify_poll accepts (client_notify m p) s)"
| "used accepts (Poll_answer i timer) s = snd (answer_poll timer i s)"
| "used accepts (Drop_answer i) s = answer_drop i s"
| "used accepts (Set_server x) s = s\<lparr>srv := x\<rparr>"

lemma used_api: "usable u s \<Longrightarrow> api accepts s (used accepts u s)"
  by (cases "(u, s)" rule: usable.cases) (auto intro: api.intros)

lemma api_used:
  assumes "api accepts s t"
  shows "\<exists>u. usable u s \<and> t = used accepts u s"
  using assms
proof (cases rule: api.cases)
  case (api_call uuid m p timeout)
  then show ?thesis by (intro exI [of _ "Make_call uuid m p timeout"]) simp
next
  case (api_call_sent i msg m p)
  then show ?thesis by (intro exI [of _ "Send_call i m p"]) simp
next
  case (api_notify msg m p)
  then show ?thesis by (intro exI [of _ "Send_notification m p"]) simp
next
  case (api_answer i timer)
  then show ?thesis by (intro exI [of _ "Poll_answer i timer"]) simp
next
  case (api_answer_drop i)
  then show ?thesis by (intro exI [of _ "Drop_answer i"]) simp
next
  case (api_srv x)
  then show ?thesis by (intro exI [of _ "Set_server x"]) simp
qed (metis usable.simps used.simps)+

section \<open>Actions\<close>

datatype 's action =
    Take_item parsed
  | Take_end
  | Take_termination
  | Fail_reading io_error
  | Pull_job
  | Poll_job nat
  | Forward_message
  | Take_kill
  | Complete
  | Fail_writing io_error
  | Use "'s usage"

fun possible :: "'s action \<Rightarrow> 's endpoint \<Rightarrow> bool" where
  "possible (Take_item item) e \<longleftrightarrow> hungry e"
| "possible Take_end e \<longleftrightarrow> hungry e"
| "possible Take_termination e \<longleftrightarrow> hungry e \<and> term_fired (shared e)"
| "possible (Fail_reading err) e \<longleftrightarrow> hungry e"
| "possible Pull_job e \<longleftrightarrow> running e \<and> backlog e \<noteq> [] \<and> length (pool e) < width e"
| "possible (Poll_job i) e \<longleftrightarrow> running e \<and> i < length (pool e)"
| "possible Forward_message e \<longleftrightarrow> running e \<and> outbox (shared e) \<noteq> []"
| "possible Take_kill e \<longleftrightarrow> running e \<and> kill_fired (shared e)"
| "possible Complete e \<longleftrightarrow> running e \<and> \<not> reading e \<and> backlog e = [] \<and> pool e = [] \<and>
     senders (shared e) = 0 \<and> outbox (shared e) = []"
| "possible (Fail_writing err) e \<longleftrightarrow> running e"
| "possible (Use u) e \<longleftrightarrow> usable u (shared e) \<and> \<not> crashed e"

fun result ::
  "room \<Rightarrow> ('v \<Rightarrow> 'x + value) \<Rightarrow> ('s, 'v) server \<Rightarrow> 's action \<Rightarrow> 's endpoint \<Rightarrow> label \<times> 's endpoint"
where
  "result accepts to_value server (Take_item item) e = (received item e, receive to_value server item e)"
| "result accepts to_value server Take_end e = (Quiet, cleaner e)"
| "result accepts to_value server Take_termination e = (Quiet, e\<lparr>reading := False\<rparr>)"
| "result accepts to_value server (Fail_reading err) e = (Quiet, transmitted (Inl err) e)"
| "result accepts to_value server Pull_job e =
     (Quiet, e\<lparr>backlog := tl (backlog e), pool := pool e @ [hd (backlog e)]\<rparr>)"
| "result accepts to_value server (Poll_job i) e = (Quiet, polled accepts i e)"
| "result accepts to_value server Forward_message e =
     (Forwarded (hd (outbox (shared e))),
      e\<lparr>shared := (shared e)\<lparr>outbox := tl (outbox (shared e))\<rparr>, wire := wire e @ [hd (outbox (shared e))]\<rparr>)"
| "result accepts to_value server Take_kill e = (Quiet, transmitted (Inr ()) e)"
| "result accepts to_value server Complete e = (Quiet, transmitted (Inr ()) e)"
| "result accepts to_value server (Fail_writing err) e = (Quiet, transmitted (Inl err) e)"
| "result accepts to_value server (Use u) e = (Used, e\<lparr>shared := used accepts u (shared e)\<rparr>)"

definition perform ::
  "room \<Rightarrow> ('v \<Rightarrow> 'x + value) \<Rightarrow> ('s, 'v) server \<Rightarrow> 's action \<Rightarrow> 's endpoint \<Rightarrow> (label \<times> 's endpoint) option"
where
  "perform accepts to_value server a e =
     (if possible a e then Some (result accepts to_value server a e) else None)"

lemma perform_event:
  assumes "perform accepts to_value server a e = Some (l, e')"
  shows "event accepts to_value server l e e'"
proof -
  have "possible a e" "result accepts to_value server a e = (l, e')"
    using assms by (auto simp: perform_def split: if_splits)
  then show ?thesis
  proof (cases a)
    case Pull_job
    with \<open>possible a e\<close> \<open>result accepts to_value server a e = (l, e')\<close>
      event_pull [of e "hd (backlog e)" "tl (backlog e)"] show ?thesis by auto
  next
    case Forward_message
    with \<open>possible a e\<close> \<open>result accepts to_value server a e = (l, e')\<close>
      event_forward [of e "hd (outbox (shared e))" "tl (outbox (shared e))"] show ?thesis by auto
  next
    case (Use u)
    with \<open>possible a e\<close> \<open>result accepts to_value server a e = (l, e')\<close>
      event_user [OF used_api [of u "shared e"]] show ?thesis by auto
  qed (auto intro: event.intros)
qed

lemma event_perform:
  assumes "event accepts to_value server l e e'"
  shows "\<exists>a. perform accepts to_value server a e = Some (l, e')"
  using assms
proof (cases rule: event.cases)
  case (event_receive item)
  then show ?thesis by (intro exI [of _ "Take_item item"]) (simp add: perform_def)
next
  case event_end
  then show ?thesis by (intro exI [of _ Take_end]) (simp add: perform_def)
next
  case event_terminator
  then show ?thesis by (intro exI [of _ Take_termination]) (simp add: perform_def)
next
  case (event_read_error err)
  then show ?thesis by (intro exI [of _ "Fail_reading err"]) (simp add: perform_def)
next
  case (event_pull j js)
  then show ?thesis by (intro exI [of _ Pull_job]) (simp add: perform_def)
next
  case (event_poll i)
  then show ?thesis by (intro exI [of _ "Poll_job i"]) (simp add: perform_def)
next
  case (event_forward m ms)
  then show ?thesis by (intro exI [of _ Forward_message]) (simp add: perform_def)
next
  case event_kill
  then show ?thesis by (intro exI [of _ Take_kill]) (simp add: perform_def)
next
  case event_done
  then show ?thesis by (intro exI [of _ Complete]) (simp add: perform_def)
next
  case (event_write_error err)
  then show ?thesis by (intro exI [of _ "Fail_writing err"]) (simp add: perform_def)
next
  case (event_user t)
  then obtain u where "usable u (shared e)" "t = used accepts u (shared e)" using api_used by blast
  with event_user show ?thesis by (intro exI [of _ "Use u"]) (simp add: perform_def)
qed

section \<open>Schedules\<close>

fun perform_all ::
  "room \<Rightarrow> ('v \<Rightarrow> 'x + value) \<Rightarrow> ('s, 'v) server \<Rightarrow> 's action list \<Rightarrow> 's endpoint
   \<Rightarrow> (label list \<times> 's endpoint) option"
where
  "perform_all accepts to_value server [] e = Some ([], e)"
| "perform_all accepts to_value server (a # as) e =
     (case perform accepts to_value server a e of
        None \<Rightarrow> None
      | Some (l, e') \<Rightarrow> map_option (apfst ((#) l)) (perform_all accepts to_value server as e'))"

lemma perform_all_append:
  "perform_all accepts to_value server (as @ bs) e =
     (case perform_all accepts to_value server as e of
        None \<Rightarrow> None
      | Some (ls, e') \<Rightarrow> map_option (apfst ((@) ls)) (perform_all accepts to_value server bs e'))"
proof (induction as arbitrary: e)
  case Nil
  show ?case by (cases "perform_all accepts to_value server bs e") auto
next
  case (Cons a as)
  have "map_option (apfst ((#) l)) (map_option (apfst ((@) ls)) x) = map_option (apfst ((@) (l # ls))) x"
    for l ls and x :: "(label list \<times> 'a endpoint) option"
    by (cases x) auto
  with Cons show ?case by (auto split: option.split)
qed

text \<open>
  What an endpoint can do is what can be computed: the runs of an endpoint, with what is seen of
  them, are exactly those that a list of choices of the reactor, the transport and the users gives.
\<close>

lemma runs_are_schedules:
  "run accepts to_value server e0 ls e \<longleftrightarrow> (\<exists>as. perform_all accepts to_value server as e0 = Some (ls, e))"
proof
  assume "run accepts to_value server e0 ls e"
  then show "\<exists>as. perform_all accepts to_value server as e0 = Some (ls, e)"
  proof (induction rule: run.induct)
    case run_start
    show ?case by (intro exI [of _ "[]"]) simp
  next
    case (run_step ls e l e')
    then obtain as a where "perform_all accepts to_value server as e0 = Some (ls, e)"
      "perform accepts to_value server a e = Some (l, e')" using event_perform by blast
    then show ?case by (intro exI [of _ "as @ [a]"]) (simp add: perform_all_append)
  qed
next
  assume "\<exists>as. perform_all accepts to_value server as e0 = Some (ls, e)"
  then obtain as where "perform_all accepts to_value server as e0 = Some (ls, e)" by blast
  then show "run accepts to_value server e0 ls e"
  proof (induction as arbitrary: ls e rule: rev_induct)
    case Nil
    then show ?case by (auto intro: run_start)
  next
    case (snoc a as)
    then obtain ks e1 l where "perform_all accepts to_value server as e0 = Some (ks, e1)"
      "perform accepts to_value server a e1 = Some (l, e)" "ls = ks @ [l]"
      by (auto simp: perform_all_append split: option.splits)
    then show ?case using run_step [OF snoc.IH perform_event] by blast
  qed
qed

lemma computed_run:
  assumes "\<not> Option.is_none (perform_all accepts to_value server as e0)"
  shows "run accepts to_value server e0 (fst (the (perform_all accepts to_value server as e0)))
    (snd (the (perform_all accepts to_value server as e0)))"
  unfolding runs_are_schedules
  by (rule exI [of _ as]) (use assms in \<open>simp add: Option.is_none_def\<close>)

end
