(* ===== verification/Network.thy ===== *)
theory Network
  imports Singles Scheduler
begin

text \<open>
  Two endpoints with each other (the pair of connections of \<open>src/tests/endpoint.rs\<close>, and what any user of
  the library has).  What one side has given to its sink arrives at the other, in order, as the codec
  reads it back (\<open>norm_message\<close>, see \<open>line_stream\<close> and \<open>message_round_trip\<close>), at any later time or, when
  a connection ends first, not at all.  Everything else, on either side, happens whenever it may.
\<close>

section \<open>The transition system\<close>

record ('a, 'b) network =
  near :: "'a endpoint"
  far :: "'b endpoint"
  to_far :: nat
  to_near :: nat

definition flip :: "('a, 'b) network \<Rightarrow> ('b, 'a) network" where
  "flip n = \<lparr>near = far n, far = near n, to_far = to_near n, to_near = to_far n\<rparr>"

lemma flip_fields [simp]:
  "near (flip n) = far n" "far (flip n) = near n" "to_far (flip n) = to_near n" "to_near (flip n) = to_far n"
  by (simp_all add: flip_def)

lemma flip_flip [simp]: "flip (flip n) = n"
  by (simp add: flip_def)

text \<open>The messages on their way to the near side.\<close>

definition in_flight :: "('a, 'b) network \<Rightarrow> parsed list" where
  "in_flight n = map (Inr \<circ> norm_message) (drop (to_near n) (wire (far n)))"

text \<open>A step of the near side; the far side's is one of the flipped network.\<close>

inductive move ::
  "room \<Rightarrow> ('v \<Rightarrow> 'x + value) \<Rightarrow> ('a, 'v) server \<Rightarrow> label \<Rightarrow> ('a, 'b) network \<Rightarrow> ('a, 'b) network \<Rightarrow> bool"
  for accepts to_value server where
  move_alone:
    "event accepts to_value server l (near n) e \<Longrightarrow> arrival l = [] \<Longrightarrow>
     move accepts to_value server l n (n\<lparr>near := e\<rparr>)"
| move_deliver:
    "event accepts to_value server l (near n) e \<Longrightarrow> in_flight n = item # items \<Longrightarrow> arrival l = [item] \<Longrightarrow>
     move accepts to_value server l n (n\<lparr>near := e, to_near := Suc (to_near n)\<rparr>)"

definition network_start :: "('c, 'a, 'v) builder \<Rightarrow> 'a \<Rightarrow> ('d, 'b, 'u) builder \<Rightarrow> 'b \<Rightarrow> ('a, 'b) network" where
  "network_start b x c y = \<lparr>near = start b x, far = start c y, to_far = 0, to_near = 0\<rparr>"

text \<open>What was seen on the near and on the far side, and where it led.\<close>

inductive networked ::
  "room \<Rightarrow> ('v \<Rightarrow> 'x + value) \<Rightarrow> ('a, 'v) server \<Rightarrow> ('u \<Rightarrow> 'y + value) \<Rightarrow> ('b, 'u) server \<Rightarrow>
   ('a, 'b) network \<Rightarrow> label list \<Rightarrow> label list \<Rightarrow> ('a, 'b) network \<Rightarrow> bool"
  for accepts to_value server to_value' server' n0 where
  networked_start: "networked accepts to_value server to_value' server' n0 [] [] n0"
| networked_near:
    "networked accepts to_value server to_value' server' n0 ls ms n \<Longrightarrow>
     move accepts to_value server l n n' \<Longrightarrow>
     networked accepts to_value server to_value' server' n0 (ls @ [l]) ms n'"
| networked_far:
    "networked accepts to_value server to_value' server' n0 ls ms n \<Longrightarrow>
     move accepts to_value' server' m (flip n) n' \<Longrightarrow>
     networked accepts to_value server to_value' server' n0 ls (ms @ [m]) (flip n')"

inductive_cases moveE: "move accepts to_value server l n n'"

section \<open>Each side by itself\<close>

text \<open>A side of the network runs as an endpoint does whose transport brings what the other has sent.\<close>

definition brought :: "('a, 'b) network \<Rightarrow> parsed list" where
  "brought n = map (Inr \<circ> norm_message) (take (to_near n) (wire (far n)))"

lemma event_wire: "event accepts to_value server l e e' \<Longrightarrow> \<exists>ms. wire e' = wire e @ ms"
  by (cases rule: event.cases, assumption)
     (auto simp: receive_def cleaner_def transmitted_def polled_def Let_def
       split: prod.splits outcome.splits sum.splits option.splits)

lemma in_flight_Cons:
  assumes "in_flight n = item # items"
  shows "to_near n < length (wire (far n))"
    and "map (Inr \<circ> norm_message) (take (Suc (to_near n)) (wire (far n))) = brought n @ [item]"
proof -
  show less: "to_near n < length (wire (far n))"
    using assms by (rule_tac ccontr) (simp add: in_flight_def)
  then have "item = Inr (norm_message (wire (far n) ! to_near n))"
    using assms by (simp add: in_flight_def Cons_nth_drop_Suc [symmetric])
  with less show "map (Inr \<circ> norm_message) (take (Suc (to_near n)) (wire (far n))) = brought n @ [item]"
    by (simp add: brought_def take_Suc_conv_app_nth)
qed

lemma move_near:
  assumes "move accepts to_value server l n n'"
  shows "event accepts to_value server l (near n) (near n')" and "far n' = far n" and "to_far n' = to_far n"
    and "brought n' = brought n @ arrival l"
    and "to_near n \<le> length (wire (far n)) \<Longrightarrow> to_near n' \<le> length (wire (far n'))"
  using assms
  by (auto elim!: moveE simp: in_flight_Cons brought_def [of "n\<lparr>near := _, to_near := _\<rparr>"]
      dest: in_flight_Cons(1))
    (simp_all add: brought_def)

lemma brought_later:
  "wire (far n') = wire (far n) @ ms \<Longrightarrow> to_near n' = to_near n \<Longrightarrow> to_near n \<le> length (wire (far n)) \<Longrightarrow>
   brought n' = brought n"
  by (simp add: brought_def)

lemma network_sides:
  assumes "networked accepts to_value (the_server b) to_value' (the_server c) (network_start b x c y) ls ms n"
  shows "run accepts to_value (the_server b) (start b x) ls (near n) \<and> arrivals ls = brought n \<and>
    to_near n \<le> length (wire (far n)) \<and>
    run accepts to_value' (the_server c) (start c y) ms (far n) \<and> arrivals ms = brought (flip n) \<and>
    to_far n \<le> length (wire (near n))"
  using assms
proof (induction rule: networked.induct)
  case networked_start
  show ?case by (simp add: network_start_def run_start brought_def)
next
  case (networked_near ls ms n l n')
  note step = move_near [OF networked_near.hyps(2)]
  from event_wire [OF step(1)] obtain ws where ws: "wire (near n') = wire (near n) @ ws" by blast
  have "brought (flip n') = brought (flip n)"
    using networked_near.IH ws step(3) by (intro brought_later [of _ _ ws]) simp_all
  moreover have "to_near n' \<le> length (wire (far n'))"
    using step(5) networked_near.IH by simp
  ultimately show ?case
    using networked_near.IH step ws by (auto intro: run_step)
next
  case (networked_far ls ms n m n')
  note step = move_near [OF networked_far.hyps(2), simplified]
  from event_wire [OF step(1)] obtain ws where ws: "wire (near n') = wire (far n) @ ws" by blast
  have "brought (flip n') = brought n"
    using networked_far.IH ws step(2,3) by (intro brought_later [of _ _ ws]) simp_all
  moreover have "to_near n' \<le> length (wire (far n'))"
    using step(5) networked_far.IH by simp
  ultimately show ?case
    using networked_far.IH step ws by (auto intro: run_step)
qed

end
