(* ===== verification/Play.thy ===== *)
theory Play
  imports Network
begin

text \<open>
  The runs of a network as a function: a list of turns, each an action of one side or the arrival of the
  next message at one, either is impossible or gives the next network.
\<close>

section \<open>Turns\<close>

text \<open>\<open>None\<close> takes the next message.\<close>

fun advance ::
  "room \<Rightarrow> ('v \<Rightarrow> 'x + value) \<Rightarrow> ('a, 'v) server \<Rightarrow> 'a action option \<Rightarrow> ('a, 'b) network
   \<Rightarrow> (label \<times> ('a, 'b) network) option"
where
  "advance accepts to_value server (Some a) n =
     (case perform accepts to_value server a (near n) of
        None \<Rightarrow> None
      | Some (l, e) \<Rightarrow> (case arrival l of [] \<Rightarrow> Some (l, n\<lparr>near := e\<rparr>) | _ \<Rightarrow> None))"
| "advance accepts to_value server None n =
     (case in_flight n of
        [] \<Rightarrow> None
      | item # items \<Rightarrow>
          map_option (\<lambda>(l, e). (l, n\<lparr>near := e, to_near := Suc (to_near n)\<rparr>))
            (perform accepts to_value server (Take_item item) (near n)))"

lemma perform_take_item:
  "perform accepts to_value server (Take_item item) e = Some (l, e') \<Longrightarrow> arrival l = [item]"
  by (auto simp: perform_def received_def split: if_splits)

lemma advance_move:
  assumes "advance accepts to_value server a n = Some (l, n')"
  shows "move accepts to_value server l n n'"
proof (cases a)
  case None
  with assms obtain item items e where "in_flight n = item # items"
    "perform accepts to_value server (Take_item item) (near n) = Some (l, e)"
    "n' = n\<lparr>near := e, to_near := Suc (to_near n)\<rparr>"
    by (auto split: list.splits)
  then show ?thesis by (auto intro: move_deliver perform_event dest: perform_take_item)
next
  case (Some b)
  with assms obtain e where "perform accepts to_value server b (near n) = Some (l, e)"
    "arrival l = []" "n' = n\<lparr>near := e\<rparr>"
    by (auto split: option.splits list.splits)
  then show ?thesis by (auto intro: move_alone perform_event)
qed

datatype ('a, 'b) turn =
    Near "'a action option"
  | Far "'b action option"

fun play ::
  "room \<Rightarrow> ('v \<Rightarrow> 'x + value) \<Rightarrow> ('a, 'v) server \<Rightarrow> ('u \<Rightarrow> 'y + value) \<Rightarrow> ('b, 'u) server
   \<Rightarrow> ('a, 'b) turn list \<Rightarrow> ('a, 'b) network \<Rightarrow> ('a, 'b) network option"
where
  "play accepts to_value server to_value' server' [] n = Some n"
| "play accepts to_value server to_value' server' (Near a # turns) n =
     Option.bind (advance accepts to_value server a n)
       (\<lambda>(l, n'). play accepts to_value server to_value' server' turns n')"
| "play accepts to_value server to_value' server' (Far a # turns) n =
     Option.bind (advance accepts to_value' server' a (flip n))
       (\<lambda>(l, n'). play accepts to_value server to_value' server' turns (flip n'))"

lemma play_from:
  assumes "networked accepts to_value server to_value' server' n0 ls ms n"
    and "play accepts to_value server to_value' server' turns n = Some n'"
  shows "\<exists>ls ms. networked accepts to_value server to_value' server' n0 ls ms n'"
  using assms
proof (induction turns arbitrary: ls ms n)
  case Nil
  then show ?case by auto
next
  case (Cons turn turns)
  show ?case
  proof (cases turn)
    case (Near a)
    with Cons.prems(2) obtain l n1 where "advance accepts to_value server a n = Some (l, n1)"
      "play accepts to_value server to_value' server' turns n1 = Some n'"
      by (auto simp: bind_eq_Some_conv)
    with Cons.IH networked_near [OF Cons.prems(1) advance_move] show ?thesis by blast
  next
    case (Far a)
    with Cons.prems(2) obtain l n1 where "advance accepts to_value' server' a (flip n) = Some (l, n1)"
      "play accepts to_value server to_value' server' turns (flip n1) = Some n'"
      by (auto simp: bind_eq_Some_conv)
    with Cons.IH networked_far [OF Cons.prems(1) advance_move] show ?thesis by blast
  qed
qed

lemma play_networked:
  "play accepts to_value server to_value' server' turns n0 = Some n \<Longrightarrow>
   \<exists>ls ms. networked accepts to_value server to_value' server' n0 ls ms n"
  by (rule play_from [OF networked_start])

end
