(* ===== verification/Agreement.thy ===== *)
theory Agreement
  imports Callers Play
begin

text \<open>
  What two endpoints with each other agree on (\<open>src/src/endpoint.rs\<close>): an answer that a caller gets is one
  the other side's server may give for its request; no request is answered twice; and when the network
  has come to rest no call is left waiting.
\<close>

section \<open>No batches\<close>

text \<open>Nobody sends a batch to somebody who sends none.\<close>

lemma lone_brought: "list_all lone (wire (far n)) \<Longrightarrow> \<forall>item \<in> set (brought n). lone_item item"
  by (auto simp: brought_def lone_item_def list_all_iff dest: in_set_takeD)

lemma lone_run:
  assumes "server_contract accepts (the_server b)" and "run accepts to_value (the_server b) (start b x) ls e"
    and "\<forall>item \<in> set (arrivals ls). lone_item item"
  shows "list_all lone (wire e)"
  using ledger_run [OF honest_anything [OF assms(1)] assms(2,3)] by (simp add: ledger_def)

lemma network_lone:
  assumes "server_contract accepts (the_server b)" and "server_contract accepts (the_server c)"
    and "networked accepts to_value (the_server b) to_value' (the_server c) (network_start b x c y) ls ms n"
  shows "list_all lone (wire (near n)) \<and> list_all lone (wire (far n))"
  using assms(3)
proof (induction rule: networked.induct)
  case networked_start
  show ?case by (simp add: network_start_def start_def Let_def)
next
  case (networked_near ls ms n l n')
  note sides = network_sides [OF networked.networked_near [OF networked_near.hyps]]
  have "list_all lone (wire (far n'))" using networked_near.IH move_near(2) [OF networked_near.hyps(2)] by simp
  with sides lone_brought [of n'] lone_run [OF assms(1)] show ?case by metis
next
  case (networked_far ls ms n m n')
  note sides = network_sides [OF networked.networked_far [OF networked_far.hyps], simplified]
  have lone: "list_all lone (wire (far n'))" using networked_far.IH move_near(2) [OF networked_far.hyps(2)] by simp
  have "list_all lone (wire (near n'))"
    by (rule lone_run [OF assms(2), where ls = "ms @ [m]"]) (use sides lone_brought [OF lone] in auto)
  with lone show ?case by simp
qed

section \<open>The books of both sides\<close>

text \<open>The two sides of a network, and the books each keeps.\<close>

definition requests :: "message list \<Rightarrow> request list" where
  "requests ms = List.map_filter (\<lambda>m. case m of Request req \<Rightarrow> Some req | _ \<Rightarrow> None) ms"

lemma requests_simps [simp]:
  "requests [] = []" "requests (m # ms) = (case m of Request req \<Rightarrow> [req] | _ \<Rightarrow> []) @ requests ms"
  by (simp_all add: requests_def map_filter_def split: message.split)

lemma requests_append [simp]: "requests (ms @ ns) = requests ms @ requests ns"
  by (simp add: requests_def map_filter_def)

lemma set_requests: "req \<in> set (requests ms) \<longleftrightarrow> Request req \<in> set ms"
  by (induction ms) (auto split: message.splits)

definition requested_by :: "parsed list \<Rightarrow> request list" where
  "requested_by items = requests (List.map_filter ok_of items)"

lemma requested_by_simps [simp]:
  "requested_by [] = []" "requested_by (xs @ ys) = requested_by xs @ requested_by ys"
  "requested_by [Inr (Request req)] = [req]"
  by (simp_all add: requested_by_def map_filter_def)

lemma requested_by_norm: "requested_by (map (Inr \<circ> norm_message) ms) = map norm_request (requests ms)"
proof (induction ms)
  case (Cons m ms)
  then show ?case by (cases m) (simp_all add: requested_by_def map_filter_simps)
qed (simp add: requested_by_def map_filter_def)

lemma served_requested: "mset (all_served ls) \<subseteq># mset (requested_by (arrivals ls))"
proof (induction ls)
  case (Cons l ls)
  have "mset (served l) \<subseteq># mset (requested_by (arrival l))"
    by (cases l rule: served.cases) auto
  with Cons show ?case by (simp add: subset_mset.add_mono)
qed simp

lemma all_requested:
  "\<forall>l \<in> set ls. \<forall>item. l \<noteq> Ignored item \<Longrightarrow> all_served ls = requested_by (arrivals ls)"
proof (induction ls)
  case (Cons l ls)
  have "served l = requested_by (arrival l)"
    using Cons.prems by (cases l rule: served.cases) (auto simp: requested_by_def map_filter_def)
  with Cons show ?case by simp
qed simp

lemma network_books:
  assumes "server_contract accepts (the_server b)" and "honest accepts (the_server c) to_value' Q"
    and net: "networked accepts to_value (the_server b) to_value' (the_server c) (network_start b x c y) ls ms n"
  shows "ledger Q (all_served ms) (far n)" and "callers (brought n) (near n)"
    and "mset (all_served ms) \<subseteq># mset (map norm_request (requests (wire (near n))))"
proof -
  have contract: "server_contract accepts (the_server c)" using assms(2) by (simp add: honest_def)
  note lone = network_lone [OF assms(1) contract net] and sides = network_sides [OF net]
  show "ledger Q (all_served ms) (far n)"
    using sides lone lone_brought [of "flip n"] by (intro ledger_run [OF assms(2)]) auto
  show "callers (brought n) (near n)"
    using sides lone lone_brought [of n] callers_run [OF assms(1)] by metis
  have "mset (all_served ms) \<subseteq># mset (requested_by (brought (flip n)))"
    using served_requested [of ms] sides by simp
  also have "requested_by (brought (flip n)) = map norm_request (requests (take (to_far n) (wire (near n))))"
    by (simp add: brought_def requested_by_norm)
  also have "mset \<dots> \<subseteq># mset (map norm_request (requests (wire (near n))))"
    by (subst (2) append_take_drop_id [of "to_far n" "wire (near n)", symmetric])
       (simp only: requests_append map_append mset_append mset_subset_eq_add_left)
  finally show "mset (all_served ms) \<subseteq># mset (map norm_request (requests (wire (near n))))" .
qed

lemma fits_response: "fits Q r req \<Longrightarrow>
    r = \<lparr>resp_jsonrpc = Version, resp_result = resp_result r, resp_id = req_id req\<rparr> \<and>
    Q (req_method req) (req_params req) (resp_result r)"
  by (simp add: fits_def)

text \<open>What has been brought back answers a request that went out.\<close>

lemma brought_answers:
  assumes "server_contract accepts (the_server b)" and "honest accepts (the_server c) to_value' Q"
    and net: "networked accepts to_value (the_server b) to_value' (the_server c) (network_start b x c y) ls ms n"
    and "Inr (Response r) \<in> set (brought n)"
  shows "\<exists>req a. Request req \<in> set (wire (near n)) \<and> r = norm_response a \<and> fits Q a (norm_request req)"
proof -
  note books = network_books [OF assms(1-3)]
  obtain m where m: "m \<in> set (wire (far n))" "Response r = norm_message m"
    using assms(4) by (auto simp: brought_def dest: in_set_takeD)
  from m(2) obtain a where a: "m = Response a" "r = norm_response a" by (cases m) auto
  from books(1) obtain as where as: "list_all2 (fits Q) (responses (wire (far n))) as"
    "mset as \<subseteq># mset (all_served ms)" unfolding ledger_def by blast
  have "a \<in> set (responses (wire (far n)))" using m(1) a(1) by (simp add: set_responses)
  then obtain req' where req': "req' \<in> set as" "fits Q a req'"
    using list_all2_member [OF as(1)] by blast
  have "req' \<in># mset (map norm_request (requests (wire (near n))))"
    using req'(1) as(2) books(3) by (meson mset_subset_eqD set_mset_mset in_multiset_in_set)
  then obtain req where "Request req \<in> set (wire (near n))" "req' = norm_request req"
    by (auto simp: set_requests)
  with a(2) req'(2) show ?thesis by blast
qed

section \<open>A conversation\<close>

text \<open>For the witnesses: a client asks the small server of \<open>Connection\<close>.\<close>

definition hello_outcome :: outcomes where
  "hello_outcome m p r \<longleftrightarrow> r = (if m = ''hello'' then Inr (String ''world'') else Inl (method_not_found m))"

interpretation hello_honest: honest exact hello_server as_is hello_outcome
  by unfold_locales
     (auto simp: hello_server_def hello_outcome_def to_value_expect_def split: if_splits)

interpretation empty_honest: honest accepts empty_server to_value "\<lambda>m p r. r = Inl (method_not_found m)"
  for accepts to_value
  by unfold_locales (auto simp: server_defs)

definition asker :: "(unit, unit, unit) builder" where
  "asker = client_only ()"

definition no_value :: "unit \<Rightarrow> string + value" where
  "no_value _ = Inr Null"

definition hello_turns :: "(unit, unit) turn list" where
  "hello_turns =
     [Near (Some (Use (Make_call ''7'' ''hello'' None None))), Near (Some (Use (Send_call 0 ''hello'' None))),
      Near (Some Forward_message), Far None, Far (Some Pull_job), Far (Some (Poll_job 0)), Near None]"

definition hello_talk :: "(unit, unit) network" where
  "hello_talk = the (play exact no_value (the_server asker) as_is (the_server hello) hello_turns
     (network_start asker () hello ()))"

lemma asker_contract: "server_contract exact (the_server asker)"
  by (simp add: asker_def client_only_def endpoint_new_def empty.server_contract_axioms)

lemma hello_is_honest: "honest exact (the_server hello) as_is hello_outcome"
  by (simp add: hello_honest.honest_axioms)

lemma hello_played: "\<exists>ls ms. networked exact no_value (the_server asker) as_is (the_server hello)
    (network_start asker () hello ()) ls ms hello_talk"
proof (rule play_networked)
  have "\<not> Option.is_none (play exact no_value (the_server asker) as_is (the_server hello) hello_turns
      (network_start asker () hello ()))" by code_simp
  then show "play exact no_value (the_server asker) as_is (the_server hello) hello_turns
      (network_start asker () hello ()) = Some hello_talk"
    by (simp add: hello_talk_def Option.is_none_def del: play.simps)
qed

lemma hello_talk_near:
  "calls (shared (near hello_talk)) = [\<lparr>call_id = ''7'', slot = Arrived \<lparr>resp_jsonrpc = Version,
     resp_result = Inr (String ''world''), resp_id = String ''7''\<rparr>, live = True, timed = False\<rparr>]"
  "wire (near hello_talk) = [message_request ''7'' ''hello'' None]"
  by code_simp+

lemma hello_talk_far:
  "to_far hello_talk = length (wire (near hello_talk))" "to_near hello_talk = length (wire (far hello_talk))"
  "running (far hello_talk)" "pool (far hello_talk) = []" "backlog (far hello_talk) = []"
  "\<not> stop (shared (far hello_talk))"
  by (code_simp; simp)+

section \<open>Agreement\<close>

text \<open>
  C1. Agreement.  Two endpoints, each with any server and users that do what they like, talk to each other,
  in any order of steps on either side, with jobs finishing in any order, connections that end, fail or
  are killed.  An answer that a call on one side has got is one that the server of the other side may
  give: some request with the call's id went out, and the answer is, as the wire carries it, an outcome
  permitted for that request's method and parameters.
\<close>

theorem answers_agree:
  assumes "server_contract accepts (the_server b)" and "honest accepts (the_server c) to_value' Q"
    and "networked accepts to_value (the_server b) to_value' (the_server c) (network_start b x c y) ls ms n"
    and "i < length (calls (shared (near n)))" and "slot (calls (shared (near n)) ! i) = Arrived r"
  shows "\<exists>req result. Request req \<in> set (wire (near n)) \<and>
    req_id req = String (call_id (calls (shared (near n)) ! i)) \<and>
    Q (req_method req) (norm_option (req_params req)) result \<and>
    r = norm_response \<lparr>resp_jsonrpc = Version, resp_result = result, resp_id = req_id req\<rparr>"
proof -
  have arrived: "Inr (Response r) \<in> set (brought n)" "resp_id r = String (call_id (calls (shared (near n)) ! i))"
    using network_books(2) [OF assms(1-3)] assms(4,5) by (simp_all add: callers_def)
  from brought_answers [OF assms(1-3) arrived(1)] obtain req a where
    req: "Request req \<in> set (wire (near n))" "r = norm_response a" "fits Q a (norm_request req)" by blast
  have "req_id req = String (call_id (calls (shared (near n)) ! i))"
    using req(2,3) arrived(2) by (simp add: fits_def norm_request_def norm_response_def)
  moreover have "a = \<lparr>resp_jsonrpc = Version, resp_result = resp_result a, resp_id = req_id req\<rparr>"
    "Q (req_method req) (norm_option (req_params req)) (resp_result a)"
    using fits_response [OF req(3)] by (simp_all add: norm_request_def)
  ultimately show ?thesis using req(1,2) by metis
qed

theorem answers_agree_witness:
  "\<exists>req. Request req \<in> set (wire (near hello_talk)) \<and> req_id req = String ''7''"
proof -
  obtain ls ms where net: "networked exact no_value (the_server asker) as_is (the_server hello)
    (network_start asker () hello ()) ls ms hello_talk" using hello_played by blast
  from answers_agree [OF asker_contract hello_is_honest net, of 0] show ?thesis
    by (auto simp: hello_talk_near)
qed

text \<open>
  C10. Exactly-once service.  Of all that the far side has ever answered, each response belongs to a
  request of its own among those that the near side sent: no request is answered twice, however often
  responses, polls and retries of the reactor are interleaved, and no response is made up.
\<close>

theorem no_request_answered_twice:
  assumes "server_contract accepts (the_server b)" and "honest accepts (the_server c) to_value' Q"
    and "networked accepts to_value (the_server b) to_value' (the_server c) (network_start b x c y) ls ms n"
  shows "\<exists>reqs. list_all2 (fits Q) (responses (wire (far n))) reqs \<and>
    mset reqs \<subseteq># mset (map norm_request (requests (wire (near n))))"
proof -
  note books = network_books [OF assms]
  from books(1) obtain as where "list_all2 (fits Q) (responses (wire (far n))) as"
    "mset as \<subseteq># mset (all_served ms)" unfolding ledger_def by blast
  with books(3) show ?thesis by (meson subset_mset.order_trans)
qed

theorem no_request_answered_twice_witness:
  "\<exists>reqs. list_all2 (fits hello_outcome) (responses (wire (far hello_talk))) reqs \<and>
     mset reqs \<subseteq># mset (map norm_request (requests (wire (near hello_talk))))"
proof -
  obtain ls ms where "networked exact no_value (the_server asker) as_is (the_server hello)
    (network_start asker () hello ()) ls ms hello_talk" using hello_played by blast
  from no_request_answered_twice [OF asker_contract hello_is_honest this] show ?thesis .
qed

section \<open>No call is lost\<close>

inductive_cases ignoredE: "event accepts to_value server (Ignored item) e e'"

lemma ignored_stopped: "event accepts to_value server (Ignored item) e e' \<Longrightarrow> stop (shared e)"
  by (erule ignoredE) (simp add: received_def split: if_splits)

lemma run_not_stopped:
  assumes contract: "server_contract accepts (the_server b)"
    and "run accepts to_value (the_server b) (start b x) ls e" and "\<not> stop (shared e)"
  shows "\<forall>l \<in> set ls. \<forall>item. l \<noteq> Ignored item"
  using assms(2,3)
proof (induction rule: run.induct)
  case (run_step ls e l e')
  have "endpoint_ok accepts e" by (rule reachable_ok [OF contract run_reachable [OF run_step.hyps(1)]])
  with stopped_step [OF _ _ event_step [OF run_step.hyps(2)]] run_step.prems have "\<not> stop (shared e)" by blast
  with run_step.IH run_step.hyps(2) show ?case by (auto dest: ignored_stopped)
qed simp

lemma event_ids:
  assumes "server_contract accepts server" and "endpoint_ok accepts e" and "ledger Q reqs e"
    and "event accepts to_value server l e e'" and "\<forall>item \<in> set (arrival l). lone_item item"
    and "distinct (ids (shared e'))"
  shows "distinct (ids (shared e))"
  using assms(1-5)
proof (cases rule: event_calls)
  case (answer r)
  have "ids_ok (shared e)" using assms(2) by (simp add: endpoint_ok_def conn_ok_def)
  with answer assms(6) show ?thesis by simp
next
  case other
  with assms(6) show ?thesis by (simp add: ids_prefix)
qed

lemma network_unanswered:
  assumes b: "server_contract accepts (the_server b)" and c: "server_contract accepts (the_server c)"
    and "networked accepts to_value (the_server b) to_value' (the_server c) (network_start b x c y) ls ms n"
    and "distinct (ids (shared (near n)))"
  shows "unanswered (arrivals ls) (near n)"
  using assms(3,4)
proof (induction rule: networked.induct)
  case networked_start
  show ?case by (simp add: unanswered_def)
next
  case (networked_near ls ms n l n')
  note step = move_near [OF networked_near.hyps(2)]
  note sides = network_sides [OF networked_near.hyps(1)]
  have lone: "list_all lone (wire (far n))" using network_lone [OF b c networked_near.hyps(1)] by simp
  then have items: "\<forall>item \<in> set (arrivals ls @ arrival l). lone_item item"
    using lone_brought [of n'] step(2,4) sides by simp
  have ok: "endpoint_ok accepts (near n)" using reachable_ok [OF b run_reachable] sides by blast
  have books: "ledger (\<lambda>_ _ _. True) (all_served ls) (near n)"
    by (rule ledger_run [OF honest_anything [OF b]]) (use sides items in auto)
  have one: "\<forall>item \<in> set (arrival l). lone_item item" using items by simp
  have asked: "resp_id r \<in> String ` set (ids (shared (near n)))" if r: "Inr (Response r) \<in> set (arrivals ls)" for r
  proof -
    from brought_answers [OF b honest_anything [OF c] networked_near.hyps(1), of r] r sides obtain req a
      where req: "Request req \<in> set (wire (near n))" "r = norm_response a"
        "fits (\<lambda>_ _ _. True) a (norm_request req)" by auto
    have "known (shared (near n)) (Request req)"
      using network_books(2) [OF b honest_anything [OF c] networked_near.hyps(1)] req(1)
      by (simp add: callers_def)
    with req(2,3) show ?thesis by (simp add: known_def fits_def norm_response_def norm_request_def)
  qed
  have "unanswered (arrivals ls) (near n)"
    using networked_near.IH event_ids [OF b ok books step(1) one networked_near.prems] by simp
  with unanswered_event [OF b ok books step(1) one networked_near.prems asked] show ?case by simp
next
  case (networked_far ls ms n m n')
  then show ?case using move_near(2) [OF networked_far.hyps(2)] by simp
qed

lemma call_at_rest:
  assumes "server_contract accepts (the_server b)" and "honest accepts (the_server c) to_value' Q"
    and "networked accepts to_value (the_server b) to_value' (the_server c) (network_start b x c y) ls ms n"
    and "to_far n = length (wire (near n))" and "to_near n = length (wire (far n))"
    and "running (far n)" and "pool (far n) = []" and "backlog (far n) = []" and "\<not> stop (shared (far n))"
    and "distinct (map call_id (calls (shared (near n))))" and "i < length (calls (shared (near n)))"
    and "Request req \<in> set (wire (near n))" and "req_id req = String (call_id (calls (shared (near n)) ! i))"
  shows "slot (calls (shared (near n)) ! i) = Cancelled \<or>
    (\<exists>r. slot (calls (shared (near n)) ! i) = Arrived r \<and> resp_id r = req_id req)"
proof -
  have c: "server_contract accepts (the_server c)" using assms(2) by (simp add: honest_def)
  note sides = network_sides [OF assms(3)]
  have "all_served ms = requested_by (arrivals ms)"
    using run_not_stopped [OF c] sides assms(9) by (intro all_requested) blast
  also have "\<dots> = map norm_request (requests (wire (near n)))"
    using sides assms(4) by (simp add: brought_def requested_by_norm)
  finally have "norm_request req \<in> set (all_served ms)" using assms(12) by (simp add: set_requests)
  moreover from network_books(1) [OF assms(1-3)] assms(6-8) obtain as where
    as: "list_all2 (fits Q) (responses (wire (far n))) as" "mset as = mset (all_served ms)"
    by (auto simp: ledger_def)
  ultimately have "norm_request req \<in> set as" by (metis set_mset_mset)
  then obtain a where "a \<in> set (responses (wire (far n)))" "fits Q a (norm_request req)"
    using list_all2_member' [OF as(1)] by blast
  then have a: "Response a \<in> set (wire (far n))"
    "resp_id (norm_response a) = String (call_id (calls (shared (near n)) ! i))"
    using assms(13) by (simp_all add: set_responses fits_def norm_request_def norm_response_def)
  have "arrivals ls = map (Inr \<circ> norm_message) (wire (far n))" using sides assms(5) by (simp add: brought_def)
  with a(1) have "Inr (Response (norm_response a)) \<in> set (arrivals ls)" by force
  moreover have "unanswered (arrivals ls) (near n)"
    using network_unanswered [OF assms(1) c assms(3)] assms(10) by (simp add: ids_def)
  ultimately have "slot (calls (shared (near n)) ! i) \<noteq> Waiting"
    using assms(11) a(2) by (auto simp: unanswered_def)
  moreover have "resp_id r = req_id req" if "slot (calls (shared (near n)) ! i) = Arrived r" for r
    using network_books(2) [OF assms(1-3)] assms(11,13) that by (simp add: callers_def)
  ultimately show ?thesis by (cases "slot (calls (shared (near n)) ! i)") auto
qed

text \<open>
  C6. No call is lost.  Take a network that has come to rest, that is, everything sent has arrived on
  both sides, and the far side is running, has no job left, and has not been stopped; and let the calls
  of the near side have drawn different ids.  Then every call of the near side whose request went out
  has the response to that request, unless the call was cancelled on the near side (by a timeout or
  the connection's end).  A far side that was stopped, or that has ended, need not answer.
\<close>

theorem no_call_lost:
  assumes "server_contract accepts (the_server b)" and "honest accepts (the_server c) to_value' Q"
    and "networked accepts to_value (the_server b) to_value' (the_server c) (network_start b x c y) ls ms n"
    and "to_far n = length (wire (near n))" and "to_near n = length (wire (far n))"
    and "running (far n)" and "pool (far n) = []" and "backlog (far n) = []" and "\<not> stop (shared (far n))"
    and "distinct (map call_id (calls (shared (near n))))" and "i < length (calls (shared (near n)))"
    and "Request req \<in> set (wire (near n))" and "req_id req = String (call_id (calls (shared (near n)) ! i))"
  shows "slot (calls (shared (near n)) ! i) = Cancelled \<or>
    (\<exists>r. slot (calls (shared (near n)) ! i) = Arrived r \<and> resp_id r = req_id req)"
  using assms by (rule call_at_rest)

theorem no_call_lost_witness: "\<exists>r. slot (calls (shared (near hello_talk)) ! 0) = Arrived r"
proof -
  obtain ls ms where net: "networked exact no_value (the_server asker) as_is (the_server hello)
    (network_start asker () hello ()) ls ms hello_talk" using hello_played by blast
  from no_call_lost [OF asker_contract hello_is_honest net hello_talk_far, of 0] show ?thesis
    by (auto simp: hello_talk_near message_request_def)
qed

end
