(* ===== verification/Greeter.thy ===== *)
theory Greeter
  imports Discipline Agreement
begin

text \<open>
  The server in the documentation of the crate (\<open>src/src/lib.rs\<close>): \<open>UselessServer\<close>, which answers two
  methods and terminates the connection when it is told \<open>bye\<close>, and the program around it, which greets
  every new connection with a notification and then leaves it to itself.
\<close>

section \<open>The server\<close>

definition useless_rpc ::
  "string \<Rightarrow> value option \<Rightarrow> 's conn \<Rightarrow> ('s, string) rpc_result option \<times> 's conn" where
  "useless_rpc method params s =
     (if method = ''hello'' then (Some (ready (Inr ''world'')), s)
      else if method = ''bye'' then (Some (ready (Inr ''bye'')), terminate s)
      else (None, s))"

definition useless_server :: "('s, string) server" where
  "useless_server = \<lparr>rpc = useless_rpc, notify = default_notification, initialized = default_initialized\<rparr>"

definition string_value :: "string \<Rightarrow> string + value" where
  "string_value text = Inr (String text)"

lemmas useless_defs = useless_server_def useless_rpc_def default_notification_def default_initialized_def

interpretation useless: server_contract accepts useless_server for accepts
  by unfold_locales (auto simp: useless_defs intro: api_terminate split: if_splits)

text \<open>What it answers.\<close>

definition useless_outcome :: outcomes where
  "useless_outcome m p r \<longleftrightarrow>
     r = (if m = ''hello'' then Inr (String ''world'')
          else if m = ''bye'' then Inr (String ''bye'')
          else Inl (method_not_found m))"

interpretation useless_honest: honest accepts useless_server string_value useless_outcome for accepts
  by unfold_locales
     (auto simp: useless_defs useless_outcome_def to_value_expect_def string_value_def split: if_splits)

section \<open>The last request\<close>

text \<open>Once it is stopped a connection stays stopped, and the server keeps to that.\<close>

interpretation silenced: upkeep stop useless_server
  by unfold_locales (auto simp: useless_defs idmap_clear_def split: if_splits)

text \<open>A message in which some request is for the method, at any depth of batches.\<close>

fun asks_for :: "string \<Rightarrow> message \<Rightarrow> bool" where
  "asks_for m (Request req) \<longleftrightarrow> req_method req = m"
| "asks_for m (Batch msgs) \<longleftrightarrow> (\<exists>sub \<in> set msgs. asks_for m sub)"
| "asks_for m _ \<longleftrightarrow> False"

lemma subs_bye:
  fixes s :: "'s conn"
  assumes "\<forall>sub \<in> set subs. \<forall>(s :: 's conn) js t. asks_for ''bye'' sub \<longrightarrow>
      do_msg to_value useless_server (Inr sub) s = (js, t) \<longrightarrow> stop t"
    and "\<exists>sub \<in> set subs. asks_for ''bye'' sub" and "do_subs to_value useless_server c subs s = (js, t)"
  shows "stop t"
  using assms
proof (induction subs arbitrary: s js)
  case Nil
  then show ?case by simp
next
  case (Cons sub subs)
  obtain js1 t1 where one: "do_msg to_value useless_server (Inr sub) s = (js1, t1)" by fastforce
  obtain js2 t2 where rest:
    "do_subs to_value useless_server c subs (sender_clones c (length js1) t1) = (js2, t2)" by fastforce
  have t: "t2 = t" using Cons.prems(3) one rest by simp
  show ?case
  proof (cases "asks_for ''bye'' sub")
    case True
    with Cons.prems(1) one have "stop t1" by (meson list.set_intros(1))
    then have "stop (sender_clones c (length js1) t1)" by simp
    with silenced.do_subs_keeps [OF _ rest] silenced.do_msg_keeps t show ?thesis by blast
  next
    case False
    with Cons.IH [OF _ _ rest [unfolded t]] Cons.prems(1,2) show ?thesis by auto
  qed
qed

lemma message_bye:
  "asks_for ''bye'' m \<Longrightarrow> do_msg to_value useless_server (Inr m) s = (js, t) \<Longrightarrow> stop t"
proof (induction m arbitrary: s js t)
  case (Request req)
  then show ?case
    by (cases "stop s")
      (auto simp: do_msg_stopped do_msg_running do_request_def useless_defs split: if_splits prod.splits)
next
  case (Batch ms)
  show ?case
  proof (cases "stop s")
    case True
    with Batch.prems(2) show ?thesis by (simp add: do_msg_stopped)
  next
    case False
    obtain c s0 where new: "new_channel (length ms) s = (c, s0)" by fastforce
    obtain js' t' where subs: "do_subs to_value useless_server c ms s0 = (js', t')" by fastforce
    have "stop t'" by (rule subs_bye [OF _ _ subs]) (use Batch.IH Batch.prems(1) in auto)
    with new subs Batch.prems(2) False show ?thesis by (auto simp: do_msg_running do_batch.simps)
  qed
qed auto

lemma run_stopped:
  assumes "server_contract accepts server" and "run accepts to_value server e0 ls e"
    and "endpoint_ok accepts e0"
  shows "endpoint_ok accepts e \<and> (stop (shared e0) \<longrightarrow> stop (shared e) \<and> (\<forall>item. Received item \<notin> set ls))"
  using assms(2)
proof (induction rule: run.induct)
  case run_start
  show ?case using assms(3) by simp
next
  case (run_step ls e l e')
  have ok: "endpoint_ok accepts e'"
    using endpoint_ok_step [OF assms(1) event_step [OF run_step.hyps(2)]] run_step.IH by blast
  have "stop (shared e') \<and> l \<noteq> Received item" if "stop (shared e)" for item
    using stopped_step [OF _ that event_step [OF run_step.hyps(2)]] run_step.IH run_step.hyps(2) that
    by (auto simp: received_def elim: event.cases)
  with ok run_step.IH show ?case by auto
qed

lemma run_split:
  assumes "run accepts to_value server e0 (ks @ l # ls) e"
  obtains e1 e2 where "run accepts to_value server e0 ks e1" and "event accepts to_value server l e1 e2"
    and "run accepts to_value server e2 ls e"
proof -
  have "\<exists>e1 e2. run accepts to_value server e0 ks e1 \<and> event accepts to_value server l e1 e2 \<and>
      run accepts to_value server e2 ls e"
    using assms
  proof (induction ls arbitrary: e rule: rev_induct)
    case Nil
    then show ?case by (auto elim!: run_snocE intro: run_start)
  next
    case (snoc l' ls)
    from snoc.prems obtain d where d: "run accepts to_value server e0 (ks @ l # ls) d"
      "event accepts to_value server l' d e"
      by (auto elim: run_snocE simp flip: append_Cons append_assoc)
    from snoc.IH [OF d(1)] d(2) show ?case by (blast intro: run_step)
  qed
  with that show ?thesis by blast
qed

text \<open>On a stopped connection an item makes no job, and only a response changes anything.\<close>

lemma stopped_do_msg:
  "stop s \<Longrightarrow> do_msg to_value server item s =
     ([], case item of Inr (Response r) \<Rightarrow> do_response r s | _ \<Rightarrow> s)"
  by (simp add: do_msg_stopped split: sum.split message.split)

lemma run_unfinished:
  assumes "server_contract accepts server" and "run accepts to_value server e0 ls e"
    and "endpoint_ok accepts e0" and "stop (shared e0)"
  shows "unfinished e \<le> unfinished e0"
  using assms(2)
proof (induction rule: run.induct)
  case run_start
  show ?case by simp
next
  case (run_step ls e l e')
  have "endpoint_ok accepts e" "stop (shared e)"
    using run_stopped [OF assms(1) run_step.hyps(1) assms(3)] assms(4) by blast+
  from stopped_step [OF this event_step [OF run_step.hyps(2)]] run_step.IH show ?case by simp
qed

text \<open>
  C26. The last request.  Whoever uses the server, and whatever else happens to the connection, a
  message that asks for \<open>bye\<close>, alone or anywhere in a batch, is the last one that is served.  In
  every state after it the connection is stopped; no item has been handed to the server since, no
  step has added a job, and whatever item comes next makes no job and leaves the connection and
  the server as they are, except that a response still reaches the call it belongs to.
\<close>

theorem bye_is_last:
  assumes "run accepts to_value useless_server (start (endpoint_new conn useless_server) x)
      (ks @ Received (Inr m) # ls) e"
    and "asks_for ''bye'' m"
  shows "stop (shared e) \<and> (\<forall>item. Received item \<notin> set ls) \<and>
    (\<forall>item. do_msg to_value useless_server item (shared e) =
       ([], case item of Inr (Response r) \<Rightarrow> do_response r (shared e) | _ \<Rightarrow> shared e)) \<and>
    (\<exists>e'. run accepts to_value useless_server (start (endpoint_new conn useless_server) x)
         (ks @ [Received (Inr m)]) e' \<and>
       run accepts to_value useless_server e' ls e \<and>
       length (pool e) + length (backlog e) \<le> length (pool e') + length (backlog e'))"
proof -
  from run_split [OF assms(1)] obtain e1 e2 where
    runs: "run accepts to_value useless_server (start (endpoint_new conn useless_server) x) ks e1"
      "event accepts to_value useless_server (Received (Inr m)) e1 e2"
      "run accepts to_value useless_server e2 ls e" by blast
  have "endpoint_ok accepts e1"
    using run_stopped [OF useless.server_contract_axioms runs(1)]
      endpoint_ok_start [of accepts "endpoint_new conn useless_server" x]
    by (simp add: endpoint_new_def useless.server_contract_axioms)
  then have ok: "endpoint_ok accepts e2"
    using endpoint_ok_step [OF useless.server_contract_axioms event_step [OF runs(2)]] by blast
  obtain js t where msg: "do_msg to_value useless_server (Inr m) (shared e1) = (js, t)" by fastforce
  have "e2 = receive to_value useless_server (Inr m) e1"
    using runs(2) by (auto simp: received_def elim!: event.cases split: if_splits)
  with message_bye [OF assms(2) msg] msg have stopped: "stop (shared e2)" by (simp add: receive_def)
  note after = run_stopped [OF useless.server_contract_axioms runs(3) ok]
  have "length (pool e) + length (backlog e) \<le> length (pool e2) + length (backlog e2)"
    using run_unfinished [OF useless.server_contract_axioms runs(3) ok stopped] by (simp add: unfinished_def)
  with run_step [OF runs(1,2)] runs(3) after stopped show ?thesis
    by (intro conjI allI stopped_do_msg exI [of _ e2]) auto
qed

text \<open>For the witness: a batch of both methods is served, and what comes next is ignored.\<close>

definition hello_and_bye :: message where
  "hello_and_bye = Batch [message_request ''1'' ''hello'' None, message_request ''2'' ''bye'' None]"

definition goodbye :: "label list \<times> unit endpoint" where
  "goodbye = the (perform_all exact string_value useless_server
     [Take_item (Inr hello_and_bye), Pull_job, Poll_job 0, Pull_job, Poll_job 0, Pull_job, Poll_job 0,
      Take_item (Inr (message_request ''3'' ''hello'' None))]
     (start (endpoint_new () useless_server) ()))"

lemma goodbye_run: "run exact string_value useless_server (start (endpoint_new () useless_server) ())
    (fst goodbye) (snd goodbye)"
  unfolding goodbye_def by (rule computed_run) code_simp

lemma goodbye_labels:
  "fst goodbye = [] @ Received (Inr hello_and_bye) # [Quiet, Quiet, Quiet, Quiet, Quiet, Quiet,
     Ignored (Inr (message_request ''3'' ''hello'' None))]"
  by code_simp

theorem bye_is_last_witness:
  "stop (shared (snd goodbye)) \<and>
   do_msg string_value useless_server (Inr (message_request ''3'' ''hello'' None)) (shared (snd goodbye)) =
     ([], shared (snd goodbye))"
proof -
  have "asks_for ''bye'' hello_and_bye" by (simp add: hello_and_bye_def message_request_def)
  note last = bye_is_last [OF goodbye_run [unfolded goodbye_labels] this]
  show ?thesis
    using last [THEN conjunct1]
      last [THEN conjunct2, THEN conjunct2, THEN conjunct1, rule_format,
        of "Inr (message_request ''3'' ''hello'' None)"]
    by (simp add: message_request_def)
qed

section \<open>The program\<close>

text \<open>
  The future that is spawned for every connection: the notification is sent (its client is held until
  then), and then it is over, well or not.
\<close>

datatype greeting =
    Greeting
  | Greeted "unit + unit"

definition greeting_message :: message where
  "greeting_message = client_notify ''hello'' None"

definition poll_greeting :: "room \<Rightarrow> 's conn \<Rightarrow> greeting \<times> 's conn" where
  "poll_greeting accepts s =
     (case notify_poll accepts greeting_message s of
        (NotReady, t) \<Rightarrow> (Greeting, t)
      | (Ready (Inl e), t) \<Rightarrow> (Greeted (Inl ()), t)
      | (Ready (Inr _), t) \<Rightarrow> (Greeted (Inr ()), client_drop t))"

text \<open>
  A connection of the program: its endpoint, which nobody has a handle of but the spawned future, and
  that future.
\<close>

record greeter =
  talk :: "unit endpoint"
  greeting :: greeting

definition greeter_start :: "'c \<Rightarrow> greeter" where
  "greeter_start stream = \<lparr>talk = start (endpoint_new stream useless_server) (), greeting = Greeting\<rparr>"

inductive greeter_run :: "room \<Rightarrow> 'c \<Rightarrow> label list \<Rightarrow> greeter \<Rightarrow> bool" for accepts stream where
  greeter_begins: "greeter_run accepts stream [] (greeter_start stream)"
| greeter_event:
    "greeter_run accepts stream ls g \<Longrightarrow> event accepts string_value useless_server l (talk g) e \<Longrightarrow> l \<noteq> Used \<Longrightarrow>
     greeter_run accepts stream (ls @ [l]) (g\<lparr>talk := e\<rparr>)"
| greeter_greets:
    "greeter_run accepts stream ls g \<Longrightarrow> \<not> crashed (talk g) \<Longrightarrow> greeting g = Greeting \<Longrightarrow>
     poll_greeting accepts (shared (talk g)) = (x, t) \<Longrightarrow>
     greeter_run accepts stream (ls @ [Used]) (g\<lparr>talk := (talk g)\<lparr>shared := t\<rparr>, greeting := x\<rparr>)"

section \<open>What the connection sends by itself\<close>

fun forwarded :: "label \<Rightarrow> message list" where
  "forwarded (Forwarded m) = [m]"
| "forwarded _ = []"

definition forwards :: "label list \<Rightarrow> message list" where
  "forwards ls = concat (map forwarded ls)"

lemma forwards_simps [simp]:
  "forwards [] = []" "forwards (ls @ ks) = forwards ls @ forwards ks" "forwards [l] = forwarded l"
  by (simp_all add: forwards_def)

text \<open>The server leaves the outgoing messages and the clients of a connection alone.\<close>

interpretation unsent: discipline "\<lambda>s. outbox s = ms" useless_server for ms
  by unfold_locales (auto simp: useless_defs do_response_def split: if_splits option.splits)

definition minded :: "nat \<Rightarrow> 's conn \<Rightarrow> bool" where
  "minded k s \<longleftrightarrow> clients s = k \<and> calls s = [] \<and> \<not> kill_fired s"

interpretation mind: upkeep "minded k" useless_server for k
  by unfold_locales
     (auto simp: useless_defs minded_def do_response_def arrive_def idmap_clear_def split: if_splits option.splits)

text \<open>Neither do its jobs.\<close>

definition modest :: "unit endpoint \<Rightarrow> bool" where
  "modest e \<longleftrightarrow> (\<forall>ms. unsent.tidy ms e) \<and> (\<forall>k. mind.tidy k e)"

lemma modest_step: "event accepts to_value useless_server l e e' \<Longrightarrow> modest e \<Longrightarrow> modest e'"
  using unsent.tidy_step mind.tidy_step unfolding modest_def by blast

lemma own_step_outbox:
  assumes "event accepts to_value useless_server l e e'" and "l \<noteq> Used" and "modest e"
  shows "(finish e' = None \<longrightarrow> outbox (shared e) = forwarded l @ outbox (shared e')) \<and>
    (finish e' \<noteq> None \<longrightarrow> forwarded l = [])"
  using assms(1)
proof (cases rule: event.cases)
  case (event_receive item)
  obtain js t where msg: "do_msg to_value useless_server item (shared e) = (js, t)" by fastforce
  with unsent.do_msg_keeps [OF msg] event_receive show ?thesis
    by (auto simp: receive_def hungry_def received_def running_def)
next
  case (event_poll i)
  obtain out t where poll: "poll_job accepts (pool e ! i) (shared e) = (out, t)" by fastforce
  have "keeping_job (\<lambda>s. outbox s = ms) (pool e ! i)" for ms
    using assms(3) event_poll by (simp add: modest_def unsent.tidy_def list_all_iff)
  from unsent.polled_job_keeps [OF this poll] have "outbox t = outbox (shared e)" by blast
  with event_poll poll show ?thesis
    by (auto simp: polled_def transmitted_def running_def Let_def
        split: outcome.split sum.split option.split)
qed (use assms(2) in \<open>auto simp: cleaner_def idmap_clear_def transmitted_def running_def hungry_def\<close>)

definition promised :: "greeting \<Rightarrow> message list" where
  "promised x = (if x = Greeted (Inr ()) then [greeting_message] else [])"

lemma promised_prefix: "xs @ ys = promised x \<Longrightarrow> xs = [] \<or> xs = promised x"
  by (auto simp: promised_def append_eq_Cons_conv split: if_splits)

definition greeter_ok :: "room \<Rightarrow> label list \<Rightarrow> greeter \<Rightarrow> bool" where
  "greeter_ok accepts ls g \<longleftrightarrow>
     endpoint_ok accepts (talk g) \<and> modest (talk g) \<and> minded (if greeting g = Greeting then 1 else 0) (shared (talk g)) \<and>
     (forwards ls = [] \<or> forwards ls = promised (greeting g)) \<and>
     (finish (talk g) = None \<longrightarrow> forwards ls @ outbox (shared (talk g)) = promised (greeting g)) \<and>
     (greeting g = Greeted (Inl ()) \<longrightarrow> finish (talk g) \<noteq> None) \<and>
     (finish (talk g) \<noteq> None \<longrightarrow> \<not> outbox_open (shared (talk g))) \<and>
     (finish (talk g) = Some (Inr ()) \<longrightarrow> greeting g \<noteq> Greeting)"

text \<open>One round of the greeting, while the channel is open and after.\<close>

lemma greeting_apis:
  assumes "poll_greeting accepts s = (x, t)" and "0 < clients s"
  shows "apis accepts s t"
proof -
  obtain r u where n: "notify_poll accepts greeting_message s = (r, u)" by fastforce
  have "api accepts s u"
    using api_notify [OF assms(2), of greeting_message "''hello''" None accepts] n
    by (simp add: greeting_message_def)
  moreover have "api accepts u (client_drop u)" if "r = Ready (Inr y)" for y
    using n that assms(2)
    by (intro api_drop) (auto simp: notify_poll_def send_poll_def split: if_splits)
  ultimately show ?thesis using assms(1) n
    by (auto simp: poll_greeting_def split: poll.splits sum.splits)
qed

lemma greeting_polled:
  assumes "poll_greeting accepts s = (x, t)" and "minded 1 s"
  shows "minded (if x = Greeting then 1 else 0) t" and "outbox t = outbox s @ promised x"
    and "outbox_open t = outbox_open s" and "x = Greeted (Inl ()) \<longleftrightarrow> \<not> outbox_open s"
  using assms
  by (auto simp: poll_greeting_def notify_poll_def send_poll_def minded_def promised_def Let_def
      split: if_splits)

lemma greeter_ok_start: "greeter_ok accepts [] (greeter_start stream)"
proof -
  have "endpoint_ok accepts (start (endpoint_new stream useless_server) ())"
    by (rule endpoint_ok_start) (simp add: endpoint_new_def useless.server_contract_axioms)
  then show ?thesis
    by (simp add: greeter_ok_def greeter_start_def modest_def unsent.tidy_def mind.tidy_def minded_def promised_def
        start_def endpoint_new_def useless_defs start_conn_def Let_def)
qed

lemma greeter_ok_event:
  assumes "greeter_ok accepts ls g" and "event accepts string_value useless_server l (talk g) e" and "l \<noteq> Used"
  shows "greeter_ok accepts (ls @ [l]) (g\<lparr>talk := e\<rparr>)"
proof -
  let ?k = "if greeting g = Greeting then 1 else 0"
  have ok: "endpoint_ok accepts (talk g)" "modest (talk g)" "minded ?k (shared (talk g))"
    using assms(1) by (simp_all add: greeter_ok_def)
  note own = own_step_finish [OF assms(2,3)] own_step_running [OF assms(2,3)]
    own_step_outbox [OF assms(2,3) ok(2)] modest_step [OF assms(2) ok(2)]
    endpoint_ok_step [OF useless.server_contract_axioms event_step [OF assms(2)] ok(1)]
  have "mind.orderly ?k (talk g)" using ok(2,3) by (simp add: mind.orderly_def modest_def)
  then have "minded ?k (shared e)" using mind.own_step_keeps [OF assms(2,3)] by (simp add: mind.orderly_def)
  moreover have "greeting g \<noteq> Greeting" if "senders (shared (talk g)) = 0 \<or> kill_fired (shared (talk g))"
    using ok that by (auto simp: endpoint_ok_def conn_ok_def refs_ok_def minded_def)
  moreover have "forwards ls @ forwarded l = [] \<or> forwards ls @ forwarded l = promised (greeting g)"
  proof (cases "finish e")
    case None
    then have "(forwards ls @ forwarded l) @ outbox (shared e) = promised (greeting g)"
      using own assms(1) by (simp add: greeter_ok_def running_def)
    then show ?thesis by (rule promised_prefix)
  next
    case (Some r)
    with own assms(1) show ?thesis by (simp add: greeter_ok_def)
  qed
  ultimately show ?thesis using assms(1) own
    by (auto simp: greeter_ok_def running_def)
qed

lemma greeter_ok_greets:
  assumes "greeter_ok accepts ls g" and "\<not> crashed (talk g)" and "greeting g = Greeting"
    and poll: "poll_greeting accepts (shared (talk g)) = (x, t)"
  shows "greeter_ok accepts (ls @ [Used]) (g\<lparr>talk := (talk g)\<lparr>shared := t\<rparr>, greeting := x\<rparr>)"
proof -
  have minded: "minded 1 (shared (talk g))" using assms(1,3) by (simp add: greeter_ok_def)
  note polled = greeting_polled [OF poll this]
  have ok: "endpoint_ok accepts ((talk g)\<lparr>shared := t\<rparr>)"
    using endpoint_ok_apis [OF greeting_apis [OF poll]] assms(1) minded
    by (simp add: greeter_ok_def minded_def)
  have "modest ((talk g)\<lparr>shared := t\<rparr>)"
    using assms(1) by (simp add: greeter_ok_def modest_def unsent.tidy_def mind.tidy_def)
  moreover have "outbox_open (shared (talk g))" if "finish (talk g) = None"
    using assms(1,2) that by (simp add: greeter_ok_def endpoint_ok_def running_def)
  ultimately show ?thesis using assms(1,3) ok polled
    by (auto simp: greeter_ok_def promised_def)
qed

lemma greeter_ok_run: "greeter_run accepts stream ls g \<Longrightarrow> greeter_ok accepts ls g"
  by (induction rule: greeter_run.induct) (simp_all add: greeter_ok_start greeter_ok_event greeter_ok_greets)

text \<open>
  C27. The greeting.  Left to itself, whatever comes and however its steps are ordered, a connection of
  the program sends on its own account nothing but one notification \<open>hello\<close>: it has been forwarded, or
  lies in the channel, exactly when the greeting has succeeded; the greeting fails only on a connection
  that has ended; until it is over it keeps the connection, so that the terminator fires exactly when
  the control has given its own handle up (it was told \<open>bye\<close>, or the input is over) and the greeting is
  over; and no connection ends without an error before.
\<close>

theorem greeted_once:
  assumes "greeter_run accepts stream ls g"
  shows "(forwards ls = [] \<or> forwards ls = [greeting_message]) \<and>
    (finish (talk g) = None \<longrightarrow> forwards ls @ outbox (shared (talk g)) =
       (if greeting g = Greeted (Inr ()) then [greeting_message] else [])) \<and>
    (greeting g = Greeted (Inl ()) \<longrightarrow> finish (talk g) \<noteq> None) \<and>
    (term_fired (shared (talk g)) \<longleftrightarrow> \<not> terminator (shared (talk g)) \<and> greeting g \<noteq> Greeting) \<and>
    (finish (talk g) = Some (Inr ()) \<longrightarrow> greeting g \<noteq> Greeting)"
proof -
  have ok: "greeter_ok accepts ls g" by (rule greeter_ok_run [OF assms])
  have "term_fired (shared (talk g)) \<longleftrightarrow> \<not> terminator (shared (talk g)) \<and> greeting g \<noteq> Greeting"
    using ok by (auto simp: greeter_ok_def endpoint_ok_def conn_ok_def refs_ok_def live_calls_def
        minded_def split: if_splits)
  with ok show ?thesis by (auto simp: greeter_ok_def promised_def split: if_splits)
qed

definition greeted :: greeter where
  "greeted = (greeter_start ())\<lparr>talk := (talk (greeter_start ()))\<lparr>shared :=
       snd (poll_greeting exact (shared (talk (greeter_start ()))))\<rparr>, greeting := Greeted (Inr ())\<rparr>"

lemma greeted_run: "greeter_run exact () [Used] greeted"
proof -
  have start: "greeting (greeter_start ()) = Greeting" "\<not> crashed (talk (greeter_start ()))"
    by (simp_all add: greeter_start_def start_def Let_def)
  have "fst (poll_greeting exact (shared (talk (greeter_start ())))) = Greeted (Inr ())" by code_simp
  then have "poll_greeting exact (shared (talk (greeter_start ()))) =
      (Greeted (Inr ()), snd (poll_greeting exact (shared (talk (greeter_start ())))))"
    by (metis prod.collapse)
  from greeter_greets [OF greeter_begins [of exact "()"] start(2,1) this] show ?thesis by (simp add: greeted_def)
qed

theorem greeted_once_witness: "outbox (shared (talk greeted)) = [greeting_message]"
  using greeted_once [OF greeted_run] by (simp add: forwards_def greeted_def greeter_start_def start_def Let_def)

end
