(* ===== verification/Doc_Client.thy ===== *)
theory Doc_Client
  imports Greeter
begin

text \<open>
  The client in the documentation of \<open>Endpoint\<close> (\<open>src/src/endpoint.rs\<close>), which is to call a method and
  print the answer.  The closure that makes the call is given to \<open>map\<close>, so the future it returns is the
  outcome of the program's own future: it is handed back by \<open>run\<close> and dropped before anything has
  polled it.
\<close>

section \<open>The client\<close>

text \<open>What \<open>Client::call\<close> returns before it is polled: an error at hand, or a message still to send.\<close>

datatype unpolled =
    Failed io_error
  | Unsent message nat

text \<open>The adaptors around the call run nothing when they are made.\<close>

definition example_call :: "string \<Rightarrow> io_error + unit \<Rightarrow> 's conn \<Rightarrow> unpolled \<times> 's conn" where
  "example_call uuid timer s =
     (case client_call uuid ''request'' (Some (Array [String ''param1'', String ''param2''])) (Some timer) s of
        (Inl e, t) \<Rightarrow> (Failed e, t)
      | (Inr (msg, i), t) \<Rightarrow> (Unsent msg i, t))"

text \<open>With the future go the client that is to send and the future that is to receive.\<close>

fun unpolled_drop :: "unpolled \<Rightarrow> 's conn \<Rightarrow> 's conn" where
  "unpolled_drop (Failed e) s = s"
| "unpolled_drop (Unsent msg i) s = client_drop (answer_drop i s)"

definition example_main :: "'c \<Rightarrow> string \<Rightarrow> io_error + unit \<Rightarrow> 's \<Rightarrow> 's endpoint" where
  "example_main stream uuid timer x =
     (let e = start (client_only stream) x;
          (request, t) = example_call uuid timer (shared e)
      in e\<lparr>shared := unpolled_drop request t\<rparr>)"

section \<open>What becomes of the call\<close>

text \<open>Nothing is sent, nothing waits to be sent, and nobody is left who could.\<close>

definition idle_client :: "'s endpoint \<Rightarrow> bool" where
  "idle_client e \<longleftrightarrow>
     pool e = [] \<and> backlog e = [] \<and> wire e = [] \<and> outbox (shared e) = [] \<and>
     stop (shared e) \<and> clients (shared e) = 0 \<and> term_fired (shared e)"

lemma idle_client_start: "idle_client (example_main stream uuid timer x)"
  by (cases timer)
     (simp_all add: example_main_def example_call_def client_call_def idle_client_def start_def client_only_def
       endpoint_new_def empty_server_def start_conn_def idmap_drop_def rc_clone_def drop_sender_def Let_def
       split: option.split)

lemma idle_client_event:
  assumes "event accepts to_value server l e e'" and "l \<noteq> Used" and "idle_client e"
  shows "idle_client e'"
  using assms(1)
proof (cases rule: event.cases)
  case (event_receive item)
  with assms(3) show ?thesis
    by (auto simp: idle_client_def receive_def do_msg_stopped do_response_def split: sum.split message.split option.split)
qed (use assms(2,3) in \<open>auto simp: idle_client_def cleaner_def transmitted_def idmap_clear_def\<close>)

text \<open>
  C28. The documented call is never sent.  Whatever arrives and in whatever order the reactor goes on, the
  endpoint of the documentation's client gives nothing to its transport, although its request was
  registered: it has no message to send, no client, and its terminator has fired at once.
\<close>

theorem documented_call_never_sent:
  assumes "run accepts to_value (the_server (client_only stream)) (example_main stream uuid timer x) ls e"
    and "\<forall>l \<in> set ls. l \<noteq> Used"
  shows "wire e = [] \<and> outbox (shared e) = [] \<and> clients (shared e) = 0 \<and> term_fired (shared e)"
proof -
  have "idle_client e"
    using assms
  proof (induction rule: run.induct)
    case run_start
    show ?case by (rule idle_client_start)
  next
    case (run_step ls e l e')
    then show ?case using idle_client_event [OF run_step.hyps(2)] by simp
  qed
  then show ?thesis by (simp add: idle_client_def)
qed

text \<open>For the witness: the greeting of the server arrives, and the connection ends.\<close>

definition unheard :: "label list \<times> unit endpoint" where
  "unheard = the (perform_all exact no_value (the_server (client_only ()))
     [Take_item (Inr greeting_message), Take_termination, Complete] (example_main () ''7'' (Inr ()) ()))"

lemma unheard_run: "run exact no_value (the_server (client_only ())) (example_main () ''7'' (Inr ()) ())
    (fst unheard) (snd unheard)"
  unfolding unheard_def by (rule computed_run) code_simp

lemma unheard_seen:
  "fst unheard = [Ignored (Inr greeting_message), Quiet, Quiet]" "finish (snd unheard) = Some (Inr ())"
  by code_simp+

theorem documented_call_never_sent_witness:
  "finish (snd unheard) = Some (Inr ()) \<and> wire (snd unheard) = []"
  using documented_call_never_sent [OF unheard_run] by (simp add: unheard_seen)

end
