(* ===== verification/Test_Servers.thy ===== *)
theory Test_Servers
  imports Agreement Server_Tests Time_Server
begin

text \<open>
  The servers of the integration tests (\<open>src/tests/endpoint.rs\<close>), and that they keep the contracts: one
  that stops the connection when it is asked anything, one that answers late and counts its
  requests, and one that uses the client of its own endpoint.
\<close>

section \<open>AnswerServer\<close>

definition u32_value :: "32 word \<Rightarrow> string + value" where
  "u32_value n = Inr (Number (PosInt (ucast n)))"

text \<open>An assertion that fails panics.\<close>

definition answer_rpc ::
  "string \<Rightarrow> value option \<Rightarrow> unit conn \<Rightarrow> (unit, 32 word) rpc_result option \<times> unit conn" where
  "answer_rpc m p s =
     (Some (if m = ''test'' \<and> Option.is_none p then ready (Inr 42) else panicking), terminate s)"

definition answer_notification ::
  "string \<Rightarrow> value option \<Rightarrow> unit conn \<Rightarrow> unit notification_result option \<times> unit conn" where
  "answer_notification m p s =
     (Some (if m = ''notif'' \<and> Option.is_none p then ready (Inr ()) else panicking), terminate s)"

definition answer_server :: "(unit, 32 word) server" where
  "answer_server = \<lparr>rpc = answer_rpc, notify = answer_notification, initialized = default_initialized\<rparr>"

section \<open>AnotherServer\<close>

text \<open>
  Its state: the \<open>Cell\<close>, and what the reactor shows of the timers made so far, which are numbered;
  \<open>None\<close> while a timer runs.  \<open>makes\<close> is whether a timer can be made.
\<close>

record timers =
  requests_left :: "64 word"
  makes :: "duration \<Rightarrow> bool"
  timers_made :: nat
  timer :: "nat \<Rightarrow> (string + unit) option"

text \<open>A \<open>Timeout\<close> resolves when its timer has fired.\<close>

primcorec timeout_future :: "nat \<Rightarrow> (timers conn, string + unit) future" where
  "poll (timeout_future i) =
     (\<lambda>s. map_prod (map_option (map_sum id timeout_future)) id
        (case timer (srv s) i of None \<Rightarrow> (Some (Inr i), s) | Some x \<Rightarrow> (Some (Inl x), s)))"

fun de_u64s :: "value list \<Rightarrow> de_error + 64 word list" where
  "de_u64s [] = Inr []"
| "de_u64s (v # vs) = and_then (de_u64 v) (\<lambda>n. map_ok ((#) n) (de_u64s vs))"

fun de_vec_u64 :: "value \<Rightarrow> de_error + 64 word list" where
  "de_vec_u64 (Array vs) = de_u64s vs"
| "de_vec_u64 _ = Inl (InvalidType ''a sequence'')"

text \<open>\<open>Duration::new(params[0], params[1] as u32)\<close> of the parsed parameters; \<open>None\<close> is a panic.\<close>

definition timeout_params :: "value option \<Rightarrow> duration option" where
  "timeout_params p =
     (case p of
        None \<Rightarrow> None
      | Some v \<Rightarrow>
          (case de_vec_u64 v of
             Inr (secs # nsecs # _) \<Rightarrow> duration_new secs (ucast nsecs)
           | _ \<Rightarrow> None))"

definition timeout_result :: "string + unit \<Rightarrow> (rpc_error + bool) option" where
  "timeout_result r =
     (case r of
        Inl e \<Rightarrow> map_option Inl (server_error (\<lambda>t. as_is (String t)) (Some e))
      | Inr _ \<Rightarrow> Some (Inr True))"

definition set_left :: "64 word \<Rightarrow> timers conn \<Rightarrow> timers conn" where
  "set_left n s = s\<lparr>srv := (srv s)\<lparr>requests_left := n\<rparr>\<rparr>"

definition make_timer :: "timers conn \<Rightarrow> timers conn" where
  "make_timer s = s\<lparr>srv := (srv s)\<lparr>timers_made := Suc (timers_made (srv s))\<rparr>\<rparr>"

text \<open>The counter must not fall below zero.\<close>

definition timing_rpc ::
  "string \<Rightarrow> value option \<Rightarrow> timers conn \<Rightarrow> (timers, bool) rpc_result option \<times> timers conn" where
  "timing_rpc m p s =
     (if requests_left (srv s) = 0 then (Some panicking, s)
      else
        let num = requests_left (srv s) - 1;
            t = set_left num s;
            u = (if num = 0 then terminate t else t)
        in if m = ''timeout'' then
             (case timeout_params p of
                None \<Rightarrow> (Some panicking, u)
              | Some d \<Rightarrow>
                  if makes (srv u) d then
                    (Some (future_then timeout_result (timeout_future (timers_made (srv u)))), make_timer u)
                  else (Some panicking, u))
           else if m = ''kill'' then (Some (ready (Inr True)), kill u)
           else (None, u))"

definition timing_server :: "(timers, bool) server" where
  "timing_server =
     \<lparr>rpc = timing_rpc, notify = default_notification, initialized = default_initialized\<rparr>"

section \<open>MutualServer\<close>

text \<open>
  The future owns the client it notifies through; a state without a client is one it cannot be in.
\<close>

primcorec notifying :: "room \<Rightarrow> message \<Rightarrow> (unit conn, io_error + unit) future" where
  "poll (notifying accepts m) =
     (\<lambda>s. map_prod (map_option (map_sum id (notifying accepts))) id
        (if clients s = 0 then (None, s)
         else
           case notify_poll accepts m s of
             (NotReady, t) \<Rightarrow> (Some (Inr m), t)
           | (Ready (Inl e), t) \<Rightarrow> (Some (Inl (Inl e)), t)
           | (Ready (Inr _), t) \<Rightarrow> (Some (Inl (Inr ())), client_drop t)))"

definition ask_result :: "(io_error \<Rightarrow> string) \<Rightarrow> io_error + unit \<Rightarrow> (rpc_error + value) option" where
  "ask_result display r =
     (case r of
        Inl e \<Rightarrow> map_option Inl (server_error (\<lambda>t. as_is (String t)) (Some (display e)))
      | Inr _ \<Rightarrow> Some (Inr Null))"

definition mutual_rpc ::
  "room \<Rightarrow> (io_error \<Rightarrow> string) \<Rightarrow> string \<Rightarrow> value option \<Rightarrow> unit conn
   \<Rightarrow> (unit, value) rpc_result option \<times> unit conn" where
  "mutual_rpc accepts display m p s =
     (if m = ''ask'' then
        (case client s of
           (Inl _, t) \<Rightarrow> (Some panicking, t)
         | (Inr _, t) \<Rightarrow>
             (Some (future_then (ask_result display) (notifying accepts (client_notify ''terminate'' None))), t))
      else (None, s))"

definition mutual_notification ::
  "string \<Rightarrow> value option \<Rightarrow> unit conn \<Rightarrow> unit notification_result option \<times> unit conn" where
  "mutual_notification m p s =
     (if m = ''terminate'' then (Some (ready (Inr ())), terminate s) else (None, s))"

definition mutual_server :: "room \<Rightarrow> (io_error \<Rightarrow> string) \<Rightarrow> (unit, value) server" where
  "mutual_server accepts display =
     \<lparr>rpc = mutual_rpc accepts display, notify = mutual_notification, initialized = default_initialized\<rparr>"

section \<open>The servers keep their contracts\<close>

lemma tame_timeout [simp]: "tame accepts (timeout_future i)"
proof (coinduction arbitrary: i)
  case tame
  show ?case by (rule exI [of _ "timeout_future i"]) (auto split: option.splits)
qed

lemma tame_notifying: "tame accepts (notifying accepts (client_notify m p))"
proof (coinduction)
  case tame
  have "apis accepts s t" if "poll (notifying accepts (client_notify m p)) s = (r, t)" for s r t
  proof (cases "clients s = 0")
    case True
    with that show ?thesis by simp
  next
    case False
    obtain q u where p: "notify_poll accepts (client_notify m p) s = (q, u)" by fastforce
    have "api accepts s u" using api_notify [of s "client_notify m p" m p accepts] False p by simp
    moreover have "q = Ready (Inr ()) \<Longrightarrow> api accepts u (client_drop u)"
      using False p send_poll_fields(1) [of accepts "client_notify m p" s]
      by (cases "send_poll accepts (client_notify m p) s")
         (auto intro!: api_drop simp: notify_poll_def split: poll.splits sum.splits)
    ultimately show ?thesis using that False p by (auto split: poll.splits sum.splits)
  qed
  then show ?case by (intro exI [of _ "notifying accepts (client_notify m p)"]) (auto split: if_splits poll.splits sum.splits prod.splits)
qed

interpretation answering_tests: server_contract accepts answer_server for accepts
  by unfold_locales
     (auto simp: answer_server_def answer_rpc_def answer_notification_def default_initialized_def
       intro: api_terminate)

lemma timing_rpc_apis:
  assumes "timing_rpc m p s = (r, t)"
  shows "apis accepts s t \<and> (\<forall>f. r = Some f \<longrightarrow> tame accepts f)"
proof -
  have srv: "api accepts u (set_left n u)" "api accepts u (make_timer u)" for n u
    unfolding set_left_def make_timer_def by (rule api_srv)+
  then have later: "apis accepts s (set_left n s)"
    "apis accepts s u \<Longrightarrow> apis accepts s (make_timer u)"
    "apis accepts s u \<Longrightarrow> apis accepts s (terminate u)" "apis accepts s u \<Longrightarrow> apis accepts s (kill u)" for n u
    by (auto intro: rtranclp.rtrancl_into_rtrancl api_terminate api_kill)
  with assms show ?thesis
    by (auto simp: timing_rpc_def Let_def tame_future_then split: if_splits option.splits)
qed

interpretation timing_tests: server_contract accepts timing_server for accepts
  by unfold_locales
     (auto simp: timing_server_def default_notification_def default_initialized_def dest: timing_rpc_apis)

lemma apis_client: "terminator s \<Longrightarrow> ctl_sender s \<Longrightarrow> apis accepts s (client_new s)"
  using api_client [of accepts s] by (auto simp: client_def)

interpretation mutual_tests: server_contract accepts "mutual_server accepts display" for accepts display
  by unfold_locales
     (auto simp: mutual_server_def mutual_rpc_def mutual_notification_def default_initialized_def client_def
       tame_notifying tame_future_then split: if_splits prod.splits sum.splits
       intro: api_terminate apis_client)

text \<open>What each answers, whenever it does.\<close>

definition answer_outcome :: outcomes where
  "answer_outcome m p r \<longleftrightarrow> m = ''test'' \<and> p = None \<and> r = Inr (Number (PosInt 42))"

definition server_failure :: "rpc_error + value \<Rightarrow> bool" where
  "server_failure r \<longleftrightarrow> (\<exists>e. r = Inl (rpc_error_new (- 32000) ''Server error'' (Some (String e))))"

definition timing_outcome :: outcomes where
  "timing_outcome m p r \<longleftrightarrow>
     (if m = ''timeout'' then r = Inr (Bool True) \<or> server_failure r
      else if m = ''kill'' then r = Inr (Bool True)
      else r = Inl (method_not_found m))"

definition mutual_outcome :: outcomes where
  "mutual_outcome m p r \<longleftrightarrow>
     (if m = ''ask'' then r = Inr Null \<or> server_failure r else r = Inl (method_not_found m))"

lemma results_panicking [simp]: "results P panicking"
  by (rule results.intros) (auto simp: panicking_def)

interpretation answer_honest: honest accepts answer_server u32_value answer_outcome for accepts
  by unfold_locales
     (auto simp: answer_server_def answer_rpc_def answer_outcome_def u32_value_def to_value_expect_def
       Option.is_none_def)

interpretation timing_honest: honest accepts timing_server bool_value timing_outcome for accepts
proof
  fix m p s t g
  assume *: "rpc timing_server m p s = (Some g, t)"
  have "results (\<lambda>x. \<forall>r. to_value_expect bool_value x = Some r \<longrightarrow> timing_outcome ''timeout'' p r)
      (future_then timeout_result (timeout_future i))" for i
    by (rule results_future_then [OF results_True])
       (auto simp: timeout_result_def timing_outcome_def server_failure_def to_value_expect_def bool_value_def
         server_error_def split: sum.splits)
  with * show "results (\<lambda>x. \<forall>r. to_value_expect bool_value x = Some r \<longrightarrow> timing_outcome m p r) g"
    by (auto simp: timing_server_def timing_rpc_def Let_def timing_outcome_def to_value_expect_def bool_value_def
        split: if_splits option.splits)
qed (auto simp: timing_server_def timing_rpc_def timing_outcome_def Let_def split: if_splits option.splits)

interpretation mutual_honest: honest accepts "mutual_server accepts display" as_is mutual_outcome
  for accepts display
proof
  fix m p s t g
  assume *: "rpc (mutual_server accepts display) m p s = (Some g, t)"
  have "results (\<lambda>x. \<forall>r. to_value_expect as_is x = Some r \<longrightarrow> mutual_outcome ''ask'' p r)
      (future_then (ask_result display) (notifying accepts n))" for n
    by (rule results_future_then [OF results_True])
       (auto simp: ask_result_def mutual_outcome_def server_failure_def to_value_expect_def server_error_def
         split: sum.splits)
  with * show "results (\<lambda>x. \<forall>r. to_value_expect as_is x = Some r \<longrightarrow> mutual_outcome m p r) g"
    by (auto simp: mutual_server_def mutual_rpc_def mutual_outcome_def split: if_splits sum.splits prod.splits)
qed (auto simp: mutual_server_def mutual_rpc_def mutual_outcome_def split: if_splits sum.splits prod.splits)

end
