(* ===== verification/Endpoint_Tests.thy ===== *)
theory Endpoint_Tests
  imports Test_Servers
begin

text \<open>
  The integration tests (\<open>src/tests/endpoint.rs\<close>), each as a computation on a network.  The uses of the
  handles are those of the test's body, in its order, the handles of its sub-block being dropped at
  its end; what the reactor does between them is one schedule.  What a test asserts of an answer is
  asked of what its future gives at that point; \<open>finished\<close> is that both connections have ended without
  an error, on which \<open>process_start\<close> would panic.  The sockets, the safety timeout and the reactor are
  the network's; the ids that are drawn are numbers.
\<close>

section \<open>The frame of a test\<close>

text \<open>Stretches of a schedule, each with what is asserted at its end.\<close>

fun goes_through :: "('t list \<Rightarrow> 'n \<Rightarrow> 'n option) \<Rightarrow> ('t list \<times> ('n \<Rightarrow> bool)) list \<Rightarrow> 'n \<Rightarrow> bool" where
  "goes_through moves [] n \<longleftrightarrow> True"
| "goes_through moves ((turns, check) # rest) n \<longleftrightarrow>
     (case moves turns n of None \<Rightarrow> False | Some n' \<Rightarrow> check n' \<and> goes_through moves rest n')"

definition prepare :: "('a, 'v) server \<Rightarrow> nat \<Rightarrow> 'a \<Rightarrow> (unit, 'a) network" where
  "prepare server n x = network_start asker () (parallel n (endpoint_new () server)) x"

abbreviation by_client :: "'a usage \<Rightarrow> ('a, 'b) turn" where
  "by_client u \<equiv> Near (Some (Use u))"

abbreviation by_server :: "'b usage \<Rightarrow> ('a, 'b) turn" where
  "by_server u \<equiv> Far (Some (Use u))"

text \<open>The server takes the next request and starts to work on it.\<close>

abbreviation taken :: "('a, 'b) turn list" where
  "taken \<equiv> [Far None, Far (Some Pull_job)]"

abbreviation ended_near :: "('a, 'b) turn list" where
  "ended_near \<equiv> [Near (Some Take_termination), Near (Some Complete)]"

abbreviation ended_far :: "('a, 'b) turn list" where
  "ended_far \<equiv> [Far (Some Take_termination), Far (Some Complete)]"

definition finished :: "('a, 'b) network \<Rightarrow> bool" where
  "finished n \<longleftrightarrow> finish (near n) = Some (Inr ()) \<and> finish (far n) = Some (Inr ())"

text \<open>What the future of a call gives, the call's timer having fired or not.\<close>

definition gives :: "nat \<Rightarrow> (io_error + unit) option \<Rightarrow> ('a, 'b) network \<Rightarrow> (io_error + response option) poll" where
  "gives i fired n = fst (answer_poll fired i (shared (near n)))"

fun succeeds :: "value \<Rightarrow> (io_error + response option) poll \<Rightarrow> bool" where
  "succeeds v (Ready (Inr (Some r))) \<longleftrightarrow> resp_result r = Inr v"
| "succeeds v _ \<longleftrightarrow> False"

fun is_refused :: "string \<Rightarrow> (io_error + response option) poll \<Rightarrow> bool" where
  "is_refused m (Ready (Inr (Some r))) \<longleftrightarrow>
     resp_result r =
       Inl \<lparr>err_code = - 32601, err_message = ''Method not found'', err_data = Some (String m)\<rparr>"
| "is_refused m _ \<longleftrightarrow> False"

fun fails :: "(io_error + response option) poll \<Rightarrow> bool" where
  "fails (Ready (Inl e)) \<longleftrightarrow> True"
| "fails _ \<longleftrightarrow> False"

section \<open>The tests\<close>

definition rpc_answer :: bool where
  "rpc_answer \<longleftrightarrow>
     goes_through (play exact no_value (the_server asker) u32_value answer_server)
       [([by_client (Make_call ''0'' ''test'' None None), by_server Drop_client,
          by_client (Send_call 0 ''test'' None), by_client Drop_client, Near (Some Forward_message)] @
         taken @ [Far (Some (Poll_job 0)), Near None],
         \<lambda>n. succeeds (Number (PosInt 42)) (gives 0 None n)),
        (by_client (Poll_answer 0 None) # ended_near @ ended_far, finished)]
       (prepare answer_server 1 ())"

definition notification_test :: bool where
  "notification_test \<longleftrightarrow>
     goes_through (play exact no_value (the_server asker) u32_value answer_server)
       [([by_server Drop_client, by_client (Send_notification ''notif'' None), by_client Drop_client,
          Near (Some Forward_message)] @ taken @ [Far (Some (Poll_job 0))] @ ended_near @ ended_far,
         finished)]
       (prepare answer_server 1 ())"

text \<open>No timer has been made; and all that have been made have fired.\<close>

definition counting :: "64 word \<Rightarrow> timers" where
  "counting n = \<lparr>requests_left = n, makes = \<lambda>_. True, timers_made = 0, timer = \<lambda>_. None\<rparr>"

definition fired :: "64 word \<Rightarrow> nat \<Rightarrow> timers" where
  "fired n k = \<lparr>requests_left = n, makes = \<lambda>_. True, timers_made = k, timer = \<lambda>_. Some (Inr ())\<rparr>"

definition seconds :: "64 word \<Rightarrow> 64 word \<Rightarrow> value" where
  "seconds s n = Array [Number (PosInt s), Number (PosInt n)]"

definition timing_play :: "(unit, timers) turn list \<Rightarrow> (unit, timers) network \<Rightarrow> (unit, timers) network option" where
  "timing_play = play exact no_value (the_server asker) bool_value timing_server"

definition wrong_method :: bool where
  "wrong_method \<longleftrightarrow>
     goes_through timing_play
       [([by_client (Make_call ''0'' ''wrong'' None None), by_server Drop_client,
          by_client (Send_call 0 ''wrong'' None), by_client Drop_client, Near (Some Forward_message)] @
         taken @ [Far (Some (Poll_job 0)), Near None],
         \<lambda>n. is_refused ''wrong'' (gives 0 None n)),
        (by_client (Poll_answer 0 None) # ended_near @ ended_far, finished)]
       (prepare timing_server 1 (counting 1))"

definition timeout_test :: bool where
  "timeout_test \<longleftrightarrow>
     (let p = Some (seconds 3 0)
      in goes_through timing_play
           [([by_client (Make_call ''0'' ''timeout'' p (Some (Inr ()))), by_server Drop_client,
              by_client (Send_call 0 ''timeout'' p), by_client Drop_client, Near (Some Forward_message)] @
             taken @ [Far (Some (Poll_job 0))],
             \<lambda>n. gives 0 (Some (Inr ())) n = Ready (Inr None)),
            ([by_client (Poll_answer 0 (Some (Inr ())))] @ ended_near @
             [by_server (Set_server (fired 0 1)), Far (Some (Poll_job 0))] @ ended_far, finished)]
           (prepare timing_server 1 (counting 1)))"

definition delayed :: bool where
  "delayed \<longleftrightarrow>
     (let p = Some (seconds 0 500000000)
      in goes_through timing_play
           [([by_client (Make_call ''0'' ''timeout'' p (Some (Inr ()))), by_server Drop_client,
              by_client (Send_call 0 ''timeout'' p), by_client Drop_client, Near (Some Forward_message)] @
             taken @ [Far (Some (Poll_job 0))],
             \<lambda>n. gives 0 None n = NotReady),
            ([by_server (Set_server (fired 0 1)), Far (Some (Poll_job 0)), Near None],
             \<lambda>n. succeeds (Bool True) (gives 0 None n)),
            (by_client (Poll_answer 0 None) # ended_near @ ended_far, finished)]
           (prepare timing_server 1 (counting 1)))"

text \<open>The server is left running.\<close>

definition client_only_test :: bool where
  "client_only_test \<longleftrightarrow>
     (let p = Some (seconds 0 500000000)
      in goes_through timing_play
           [([by_server Drop_client, by_client (Make_call ''0'' ''timeout'' p None),
              by_client (Send_call 0 ''timeout'' p), by_client Drop_client, Near (Some Forward_message)] @
             taken @ [Far (Some (Poll_job 0)), by_server (Set_server (fired 1 1)), Far (Some (Poll_job 0)), Near None],
             \<lambda>n. succeeds (Bool True) (gives 0 None n)),
            (by_client (Poll_answer 0 None) # ended_near,
             \<lambda>n. finish (near n) = Some (Inr ()) \<and> running (far n))]
           (prepare timing_server 1 (counting 2)))"

text \<open>Two calls by two clients, and the handles of the sub-block dropped.\<close>

definition two_calls :: "string \<Rightarrow> (unit, timers) turn list" where
  "two_calls m =
     (let p = Some (seconds 0 500000000)
      in [by_client Clone_client, by_client (Make_call ''0'' ''timeout'' p None),
          by_client (Make_call ''1'' m None None), by_server Drop_client,
          by_client (Send_call 0 ''timeout'' p), by_client Drop_client,
          by_client (Send_call 1 m None), by_client Drop_client,
          Near (Some Forward_message), Near (Some Forward_message)] @
         taken @ [Far (Some (Poll_job 0))] @ taken @ [Far (Some (Poll_job 1)), Near None])"

definition parallel_test :: bool where
  "parallel_test \<longleftrightarrow>
     goes_through timing_play
       [(two_calls ''wrong'', \<lambda>n. is_refused ''wrong'' (gives 1 None n) \<and> gives 0 None n = NotReady),
        ([by_client (Poll_answer 1 None), by_server (Set_server (fired 0 1)), Far (Some (Poll_job 0)), Near None],
         \<lambda>n. succeeds (Bool True) (gives 0 None n)),
        (by_client (Poll_answer 0 None) # ended_near @ ended_far, finished)]
       (prepare timing_server 2 (counting 2))"

text \<open>The second call is made when the first is on its way; the ends are not waited for.\<close>

definition seq :: bool where
  "seq \<longleftrightarrow>
     (let p = Some (seconds 0 500000000)
      in goes_through timing_play
           [([by_client (Make_call ''0'' ''timeout'' p None), by_server Drop_client,
              by_client (Send_call 0 ''timeout'' p), by_client (Make_call ''1'' ''wrong'' None None),
              by_client (Send_call 1 ''wrong'' None), by_client Drop_client,
              Near (Some Forward_message), Near (Some Forward_message)] @ taken @
             [Far (Some (Poll_job 0)), by_server (Set_server (fired 1 1)), Far (Some (Poll_job 0))] @
             taken @ [Far (Some (Poll_job 0)), Near None],
             \<lambda>n. succeeds (Bool True) (gives 0 None n) \<and> gives 1 None n = NotReady),
            ([by_client (Poll_answer 0 None), Near None], \<lambda>n. is_refused ''wrong'' (gives 1 None n))]
           (prepare timing_server 1 (counting 2)))"

text \<open>The end of a killed connection is an end of input for the other side.\<close>

definition kill_test :: bool where
  "kill_test \<longleftrightarrow>
     goes_through timing_play
       [(two_calls ''kill'', \<lambda>n. succeeds (Bool True) (gives 1 None n)),
        ([by_client (Poll_answer 1 None), Far (Some Take_kill), Near (Some Take_end)],
         \<lambda>n. fails (gives 0 None n)),
        ([by_client (Poll_answer 0 None), Near (Some Complete)], finished)]
       (prepare timing_server 2 (counting 2))"

definition kill_client :: bool where
  "kill_client \<longleftrightarrow>
     goes_through timing_play
       [(two_calls ''wrong'', \<lambda>n. is_refused ''wrong'' (gives 1 None n)),
        ([by_client (Poll_answer 1 None), by_client Kill, Near (Some Take_kill)], \<lambda>n. fails (gives 0 None n)),
        ([by_client (Poll_answer 0 None), Far (Some Take_end), by_server (Set_server (fired 0 1)),
          Far (Some (Poll_job 0)), Far (Some Complete)], finished)]
       (prepare timing_server 2 (counting 2))"

text \<open>Both sides ask, and are asked to stop.\<close>

definition no_display :: "io_error \<Rightarrow> string" where
  "no_display _ = []"

definition mutual_builder :: "(unit, unit, value) builder" where
  "mutual_builder = endpoint_new () (mutual_server exact no_display)"

definition mutual :: bool where
  "mutual \<longleftrightarrow>
     goes_through (play exact as_is (the_server mutual_builder) as_is (the_server mutual_builder))
       [([by_client (Make_call ''0'' ''ask'' None None), by_server (Make_call ''1'' ''ask'' None None),
          by_client (Send_call 0 ''ask'' None), by_client Drop_client,
          by_server (Send_call 0 ''ask'' None), by_server Drop_client,
          Near (Some Forward_message), Far (Some Forward_message)] @
         taken @ [Far (Some (Poll_job 0)), Far (Some Forward_message),
          Near None, Near (Some Pull_job), Near (Some (Poll_job 0)), Near (Some Forward_message), Near None] @
         [Far None, Far None, Far (Some Pull_job), Far (Some (Poll_job 0))],
         \<lambda>n. succeeds Null (gives 0 None n) \<and> succeeds Null (gives 0 None (flip n))),
        ([by_client (Poll_answer 0 None), by_server (Poll_answer 0 None), Near None, Near (Some Pull_job),
          Near (Some (Poll_job 0))] @ ended_near @ ended_far, finished)]
       (network_start mutual_builder () mutual_builder ())"

text \<open>The other end is dropped.\<close>

definition conn_terminate :: bool where
  "conn_terminate \<longleftrightarrow>
     map_option (finish \<circ> snd) (perform_all exact u32_value answer_server [Use Drop_client, Take_end, Complete]
       (start (endpoint_new () answer_server) ())) = Some (Some (Inr ()))"

text \<open>
  Each test holds of the model: its calls and notifications get through, what it asserts of the answers
  is so, and the connections that it waits for end without an error.
\<close>

lemma test_rpc_answer: rpc_answer by code_simp
lemma test_notification: notification_test by code_simp
lemma test_wrong_method: wrong_method by code_simp
lemma test_timeout: timeout_test by code_simp
lemma test_delayed: delayed by code_simp
lemma test_client_only: client_only_test by code_simp
lemma test_parallel: parallel_test by code_simp
lemma test_seq: seq by code_simp
lemma test_kill: kill_test by code_simp
lemma test_kill_client: kill_client by code_simp
lemma test_mutual: mutual by code_simp
lemma test_conn_terminate: conn_terminate by code_simp

end
