(* ===== verification/Settling.thy ===== *)
theory Settling
  imports Agreement
begin

text \<open>
  Calls complete.  With a server that answers at once and does not stop its connection, a network whose
  connections hold can come to rest from every state, and then every call that went out has its answer:
  no reachable state is one in which an answer has become impossible.
\<close>

section \<open>A server that answers at once\<close>

definition instant :: "('s conn, 'a) future \<Rightarrow> bool" where
  "instant f \<longleftrightarrow> (\<forall>s. \<exists>x t. poll f s = (Some (Inl x), t) \<and> stop t = stop s)"

lemma instant_poll: "instant f \<Longrightarrow> \<exists>x t. poll f s = (Some (Inl x), t) \<and> stop t = stop s"
  unfolding instant_def by blast

lemma instant_ready [simp]: "instant (ready x)"
  by (simp add: instant_def)

lemma instant_future_then:
  assumes "instant f" and "\<And>x. \<exists>y. g x = Some y"
  shows "instant (future_then g f)"
  unfolding instant_def
proof
  fix s
  obtain x t where p: "poll f s = (Some (Inl x), t)" "stop t = stop s" using instant_poll [OF assms(1)] by blast
  obtain y where "g x = Some y" using assms(2) by blast
  with p show "\<exists>x t. poll (future_then g f) s = (Some (Inl x), t) \<and> stop t = stop s"
    by (auto simp: poll_future_then)
qed

definition instant_job :: "'s job \<Rightarrow> bool" where
  "instant_job j \<longleftrightarrow> (\<exists>f. j = Work f \<and> instant f)"

definition instant_jobs :: "'s endpoint \<Rightarrow> bool" where
  "instant_jobs e \<longleftrightarrow> list_all instant_job (pool e @ backlog e)"

locale obliging = server_contract accepts server
  for accepts :: room and server :: "('s, 'v) server" +
  fixes to_value :: "'v \<Rightarrow> 'x + value"
  assumes to_value_total: "\<exists>j. to_value v = Inr j"
    and rpc_stop: "rpc server m p s = (q, t) \<Longrightarrow> stop t = stop s"
    and rpc_instant: "rpc server m p s = (Some g, t) \<Longrightarrow> instant g"
    and notify_stop: "notify server m p s = (r, t) \<Longrightarrow> stop t = stop s"
    and notify_instant: "notify server m p s = (Some h, t) \<Longrightarrow> instant h"
begin

lemma request_reply_total: "\<exists>y. request_reply to_value req x = Some y"
proof (cases x)
  case (Inr v)
  with to_value_total [of v] show ?thesis by (auto simp: request_reply_def ok_of_def)
qed (simp add: request_reply_def)

lemma do_request_instant:
  assumes "do_request to_value server req s = (j, t)"
  shows "instant_job j \<and> stop t = stop s"
proof -
  obtain q u where q: "rpc server (req_method req) (req_params req) s = (q, u)" by fastforce
  with rpc_stop [OF q] assms show ?thesis
    by (cases q)
       (auto simp: do_request_def instant_job_def intro!: instant_future_then request_reply_total dest: rpc_instant)
qed

lemma do_notification_instant:
  assumes "do_notification server notif s = (j, t)"
  shows "instant_job j \<and> stop t = stop s"
proof -
  obtain q u where q: "notify server (notif_method notif) (notif_params notif) s = (q, u)" by fastforce
  with notify_stop [OF q] assms show ?thesis
    by (cases q)
       (auto simp: do_notification_def instant_job_def intro!: instant_future_then dest: notify_instant)
qed

lemma receive_instant:
  assumes "instant_jobs e" and "lone_item item"
  shows "instant_jobs (receive to_value server item e)"
    and "stop (shared (receive to_value server item e)) = stop (shared e)"
proof -
  from assms(2) obtain m where m: "item = Inr m" "lone m" by (auto simp: lone_item_def)
  have "instant_jobs (receive to_value server item e) \<and>
      stop (shared (receive to_value server item e)) = stop (shared e)"
  proof (cases "stop (shared e)")
    case True
    with m assms(1) show ?thesis
      by (cases m) (auto simp: receive_def do_msg_stopped instant_jobs_def)
  next
    case False
    from m show ?thesis
    proof (cases m)
      case (Request req)
      obtain j t where j: "do_request to_value server req (shared e) = (j, t)" by fastforce
      with do_request_instant [OF j] Request m(1) False assms(1) show ?thesis
        by (simp add: receive_def do_msg_running instant_jobs_def)
    next
      case (Notification notif)
      obtain j t where j: "do_notification server notif (shared e) = (j, t)" by fastforce
      with do_notification_instant [OF j] Notification m(1) False assms(1) show ?thesis
        by (simp add: receive_def do_msg_running instant_jobs_def)
    next
      case (Response r)
      with m(1) False assms(1) show ?thesis by (simp add: receive_def do_msg_running instant_jobs_def)
    qed auto
  qed
  then show "instant_jobs (receive to_value server item e)"
    "stop (shared (receive to_value server item e)) = stop (shared e)" by blast+
qed

lemma polled_instant:
  assumes "instant_jobs e" and "i < length (pool e)"
  shows "\<exists>t ws. polled accepts i e =
    e\<lparr>shared := t, pool := take i (pool e) @ drop (Suc i) (pool e), wire := wire e @ ws\<rparr> \<and> stop t = stop (shared e)"
proof -
  have "instant_job (pool e ! i)" using assms by (simp add: instant_jobs_def list_all_iff)
  then obtain f where f: "pool e ! i = Work f" "instant f" by (auto simp: instant_job_def)
  then obtain x t where p: "poll f (shared e) = (Some (Inl x), t)" "stop t = stop (shared e)"
    using instant_poll by blast
  have same: "e\<lparr>shared := t, pool := js\<rparr> = e\<lparr>shared := t, pool := js, wire := wire e @ []\<rparr>" for js
    by (cases e) simp
  show ?thesis
  proof (cases x)
    case None
    with p f(1) same show ?thesis by (intro exI [of _ t] exI [of _ "[]"]) (simp add: polled_def)
  next
    case (Some m)
    with p f(1) show ?thesis by (intro exI [of _ t] exI [of _ "[m]"]) (simp add: polled_def)
  qed
qed

text \<open>The jobs at hand are worked off in turn.\<close>

lemma jobs_settle:
  assumes "instant_jobs e" and "running e" and "0 < width e"
  shows "\<exists>e'. (event accepts to_value server Quiet)\<^sup>*\<^sup>* e e' \<and> pool e' = [] \<and> backlog e' = [] \<and> running e' \<and>
    reading e' = reading e \<and> width e' = width e \<and> stop (shared e') = stop (shared e)"
  using assms
proof (induction "2 * length (backlog e) + length (pool e)" arbitrary: e rule: less_induct)
  case less
  have closing: ?case if st: "event accepts to_value server Quiet e e1" and "instant_jobs e1" and "running e1"
    and "reading e1 = reading e \<and> width e1 = width e \<and> stop (shared e1) = stop (shared e)"
    and "2 * length (backlog e1) + length (pool e1) < 2 * length (backlog e) + length (pool e)" for e1
  proof -
    have "0 < width e1" using that(4) less.prems(3) by simp
    from less.hyps [OF that(5,2,3) this] that(4) st show ?thesis
      by (metis converse_rtranclp_into_rtranclp)
  qed
  consider (rest) "pool e = []" "backlog e = []" | (pull) j js where "pool e = []" "backlog e = j # js"
    | (poll) "0 < length (pool e)" by (cases "pool e"; cases "backlog e") auto
  then show ?case
  proof cases
    case rest
    with less.prems show ?thesis by (intro exI [of _ e]) simp
  next
    case (pull j js)
    have "event accepts to_value server Quiet e (e\<lparr>backlog := js, pool := pool e @ [j]\<rparr>)"
      by (rule event_pull) (use pull less.prems in simp_all)
    then show ?thesis
      by (rule closing) (use pull less.prems in \<open>simp_all add: instant_jobs_def running_def\<close>)
  next
    case poll
    from polled_instant [OF less.prems(1) poll] obtain t ws where
      p: "polled accepts 0 e = e\<lparr>shared := t, pool := drop 1 (pool e), wire := wire e @ ws\<rparr>"
        "stop t = stop (shared e)" by auto
    have "list_all instant_job (drop 1 (pool e))"
      using less.prems(1) by (auto simp: instant_jobs_def list_all_iff dest: in_set_dropD)
    with less.prems(1) have "instant_jobs (polled accepts 0 e)" by (simp add: p instant_jobs_def)
    with event_poll [OF less.prems(2) poll] show ?thesis
      by (rule closing) (use p poll less.prems in \<open>simp_all add: running_def\<close>)
  qed
qed

lemma instant_event:
  assumes "event accepts to_value server l e e'" and "\<forall>item \<in> set (arrival l). lone_item item" and "instant_jobs e"
  shows "instant_jobs e'"
  using assms(1)
proof (cases rule: event.cases)
  case (event_receive item)
  with assms(2,3) receive_instant(1) show ?thesis by (simp add: received_def split: if_splits)
next
  case (event_poll i)
  from polled_instant [OF assms(3) event_poll(4)] obtain t ws where
    "e' = e\<lparr>shared := t, pool := take i (pool e) @ drop (Suc i) (pool e), wire := wire e @ ws\<rparr>"
    using event_poll(2) by blast
  with assms(3) show ?thesis
    by (auto simp: instant_jobs_def list_all_iff dest: in_set_takeD in_set_dropD)
qed (use assms(3) in \<open>auto simp: instant_jobs_def transmitted_def cleaner_def\<close>)

lemma instant_run:
  assumes "run accepts to_value server (start b x) ls e" and "\<forall>item \<in> set (arrivals ls). lone_item item"
  shows "instant_jobs e"
  using assms
proof (induction rule: run.induct)
  case run_start
  show ?case by (simp add: instant_jobs_def start_def Let_def)
next
  case (run_step ls e l e')
  then show ?case using instant_event by simp
qed

end

interpretation empty_obliging: obliging accepts empty_server "\<lambda>x. Inr Null" for accepts
  by unfold_locales (auto simp: server_defs)

interpretation hello_obliging: obliging exact hello_server as_is
  by unfold_locales (auto simp: hello_server_def default_notification_def split: if_splits)

section \<open>Going on\<close>

lemma networked_trans:
  assumes "networked accepts to_value server to_value' server' n0 ls ms n"
    and "networked accepts to_value server to_value' server' n ks hs n'"
  shows "networked accepts to_value server to_value' server' n0 (ls @ ks) (ms @ hs) n'"
  using assms(2)
proof (induction rule: networked.induct)
  case networked_start
  with assms(1) show ?case by simp
next
  case (networked_near ks hs n1 l n2)
  then show ?case by (metis append_assoc networked.networked_near)
next
  case (networked_far ks hs n1 m n2)
  then show ?case by (metis append_assoc networked.networked_far)
qed

text \<open>Steps in which no user has a hand, and no message of a client's goes out.\<close>

definition unused :: "label list \<Rightarrow> bool" where
  "unused ls \<longleftrightarrow> (\<forall>l \<in> set ls. l \<noteq> Used \<and> (\<forall>m. l \<noteq> Forwarded m))"

lemma unused_simps [simp]:
  "unused []" "unused (ls @ ks) \<longleftrightarrow> unused ls \<and> unused ks"
  "unused (Quiet # ls) \<longleftrightarrow> unused ls" "unused (received item e # ls) \<longleftrightarrow> unused ls"
  by (auto simp: unused_def received_def)

lemma quiet_far:
  assumes "(event accepts to_value' server' Quiet)\<^sup>*\<^sup>* (far n) e"
  shows "\<exists>ms. networked accepts to_value server to_value' server' n [] ms (n\<lparr>far := e\<rparr>) \<and> unused ms"
  using assms
proof (induction rule: rtranclp_induct)
  case base
  have "n\<lparr>far := far n\<rparr> = n" by simp
  then show ?case by (metis networked_start unused_simps(1))
next
  case (step e e')
  then obtain ms where ms: "networked accepts to_value server to_value' server' n [] ms (n\<lparr>far := e\<rparr>)"
    "unused ms" by blast
  have "move accepts to_value' server' Quiet (flip (n\<lparr>far := e\<rparr>)) ((flip (n\<lparr>far := e\<rparr>))\<lparr>near := e'\<rparr>)"
    by (rule move_alone) (use step.hyps in simp_all)
  moreover have "flip ((flip (n\<lparr>far := e\<rparr>))\<lparr>near := e'\<rparr>) = n\<lparr>far := e'\<rparr>" by (cases n) (simp add: flip_def)
  ultimately have "networked accepts to_value server to_value' server' n [] (ms @ [Quiet]) (n\<lparr>far := e'\<rparr>)"
    using networked_far [OF ms(1)] by metis
  then show ?case using ms(2) by (intro exI [of _ "ms @ [Quiet]"]) simp
qed

lemma arrival_received [simp]: "arrival (received item e) = [item]"
  by (simp add: received_def)

lemma deliver_far:
  assumes "hungry (far n)" and "in_flight (flip n) = item # items"
  shows "networked accepts to_value server to_value' server' n [] [received item (far n)]
    (n\<lparr>far := receive to_value' server' item (far n), to_far := Suc (to_far n)\<rparr>)"
proof -
  have "move accepts to_value' server' (received item (far n)) (flip n)
      ((flip n)\<lparr>near := receive to_value' server' item (far n), to_near := Suc (to_near (flip n))\<rparr>)"
    using event_receive [of "far n" accepts to_value' server' item] assms
    by (intro move_deliver [where items = items]) simp_all
  from networked_far [OF networked_start this] show ?thesis by (cases n) (simp add: flip_def)
qed

lemma deliver_near:
  assumes "hungry (near n)" and "in_flight n = item # items"
  shows "networked accepts to_value server to_value' server' n [received item (near n)] []
    (n\<lparr>near := receive to_value server item (near n), to_near := Suc (to_near n)\<rparr>)"
proof -
  have "move accepts to_value server (received item (near n)) n
      (n\<lparr>near := receive to_value server item (near n), to_near := Suc (to_near n)\<rparr>)"
    using event_receive [of "near n" accepts to_value server item] assms
    by (intro move_deliver [where items = items]) simp_all
  from networked_near [OF networked_start this] show ?thesis by simp
qed

section \<open>Coming to rest\<close>

lemma far_drains:
  assumes server: "obliging accepts server' to_value'" and lone: "list_all lone (wire (near n))"
    and "to_far n \<le> length (wire (near n))" and "running (far n)" and "reading (far n)"
    and "\<not> stop (shared (far n))" and "0 < width (far n)" and "instant_jobs (far n)"
  shows "\<exists>ms n'. networked accepts to_value server to_value' server' n [] ms n' \<and> unused ms \<and> near n' = near n \<and>
    to_near n' = to_near n \<and> to_far n' = length (wire (near n)) \<and> running (far n') \<and> pool (far n') = [] \<and>
    backlog (far n') = [] \<and> \<not> stop (shared (far n'))"
  using assms(2-)
proof (induction "length (wire (near n)) - to_far n" arbitrary: n rule: less_induct)
  case less
  obtain e where e: "(event accepts to_value' server' Quiet)\<^sup>*\<^sup>* (far n) e" "pool e = []" "backlog e = []"
    "running e" "reading e" "0 < width e" "\<not> stop (shared e)"
    using obliging.jobs_settle [OF server less.prems(7,3,6)] less.prems by auto
  obtain hs where hs: "networked accepts to_value server to_value' server' n [] hs (n\<lparr>far := e\<rparr>)" "unused hs"
    using quiet_far [OF e(1)] by blast
  show ?case
  proof (cases "to_far n = length (wire (near n))")
    case True
    with hs e show ?thesis by (intro exI [of _ hs] exI [of _ "n\<lparr>far := e\<rparr>"]) simp
  next
    case False
    with less.prems(2) have less': "to_far n < length (wire (near n))" by simp
    let ?m = "wire (near n) ! to_far n"
    let ?e = "receive to_value' server' (Inr (norm_message ?m)) e"
    let ?n = "n\<lparr>far := ?e, to_far := Suc (to_far n)\<rparr>"
    have "in_flight (flip (n\<lparr>far := e\<rparr>)) =
        Inr (norm_message ?m) # map (Inr \<circ> norm_message) (drop (Suc (to_far n)) (wire (near n)))"
      using less' by (simp add: in_flight_def Cons_nth_drop_Suc [symmetric])
    moreover have "hungry (far (n\<lparr>far := e\<rparr>))" using e by (simp add: hungry_def)
    ultimately have "networked accepts to_value server to_value' server' (n\<lparr>far := e\<rparr>) []
        [received (Inr (norm_message ?m)) e] ?n"
      using deliver_far [of "n\<lparr>far := e\<rparr>"] by fastforce
    from networked_trans [OF hs(1) this] have there: "networked accepts to_value server to_value' server' n []
        (hs @ [received (Inr (norm_message ?m)) e]) ?n" by simp
    have item: "lone_item (Inr (norm_message ?m))"
      using less.prems(1) less' by (simp add: lone_item_def list_all_length)
    have "instant_jobs e" using e by (simp add: instant_jobs_def)
    note step = obliging.receive_instant [OF server this item]
    have "running ?e" "reading ?e" "0 < width ?e"
      using e by (simp_all add: receive_def running_def split: prod.split)
    moreover have "length (wire (near n)) - Suc (to_far n) < length (wire (near n)) - to_far n"
      using less' by simp
    ultimately obtain ms n' where
      "networked accepts to_value server to_value' server' ?n [] ms n'" "unused ms" "near n' = near n"
      "to_near n' = to_near n" "to_far n' = length (wire (near n))" "running (far n')"
      "pool (far n') = []" "backlog (far n') = []" "\<not> stop (shared (far n'))"
      using less.hyps [of ?n] less.prems(1) less' step e(7) by auto
    with networked_trans [OF there] hs(2) show ?thesis
      by (intro exI [of _ "(hs @ [received (Inr (norm_message ?m)) e]) @ ms"] exI [of _ n']) fastforce
  qed
qed

text \<open>A stopped client takes the answers that are on their way.\<close>

definition only_answered :: "'s conn \<Rightarrow> 's conn \<Rightarrow> bool" where
  "only_answered s t \<longleftrightarrow>
     ids t = ids s \<and>
     (\<forall>i < length (calls s). slot (calls t ! i) = slot (calls s ! i) \<or> (\<exists>r. slot (calls t ! i) = Arrived r))"

lemma only_answered_trans: "only_answered s t \<Longrightarrow> only_answered t u \<Longrightarrow> only_answered s u"
proof -
  assume st: "only_answered s t" and tu: "only_answered t u"
  then have "length (calls t) = length (calls s)" by (metis ids_def length_map only_answered_def)
  with st tu show "only_answered s u" unfolding only_answered_def by metis
qed

lemma only_answered_do_response: "only_answered s (do_response r s)"
proof (cases "Option.bind (as_str (resp_id r)) (idmap s)")
  case None
  then show ?thesis by (simp add: do_response_def only_answered_def)
next
  case (Some i)
  then show ?thesis
    by (cases "i < length (calls s)")
       (auto simp: do_response_def only_answered_def arrive_def nth_list_update ids_def map_update
         list_update_same_conv)
qed

lemma receive_answered:
  assumes "stop (shared e)" and "backlog e = []"
  shows "\<exists>t. receive to_value server item e = e\<lparr>shared := t\<rparr> \<and> stop t \<and> only_answered (shared e) t"
proof -
  obtain t where t: "do_msg to_value server item (shared e) = ([], t)"
    "t = shared e \<or> (\<exists>r. t = do_response r (shared e))"
    using assms(1) by (cases item; cases "projr item") (auto simp: do_msg_stopped)
  have "e\<lparr>shared := t, backlog := []\<rparr> = e\<lparr>shared := t\<rparr>" using assms(2) by (cases e) simp
  with t assms(1) only_answered_do_response [of "shared e"] show ?thesis
    by (auto simp: receive_def only_answered_def [of "shared e" "shared e"] intro!: exI [of _ t])
qed

lemma near_drains:
  assumes "to_near n \<le> length (wire (far n))" and "hungry (near n)" and "stop (shared (near n))"
  shows "\<exists>ls n'. networked accepts to_value server to_value' server' n ls [] n' \<and> unused ls \<and> far n' = far n \<and>
    to_far n' = to_far n \<and> to_near n' = length (wire (far n)) \<and> wire (near n') = wire (near n) \<and>
    only_answered (shared (near n)) (shared (near n'))"
  using assms
proof (induction "length (wire (far n)) - to_near n" arbitrary: n rule: less_induct)
  case less
  show ?case
  proof (cases "to_near n = length (wire (far n))")
    case True
    then show ?thesis
      by (intro exI [of _ "[]"] exI [of _ n]) (simp add: networked_start only_answered_def)
  next
    case False
    with less.prems(1) have less': "to_near n < length (wire (far n))" by simp
    let ?item = "Inr (norm_message (wire (far n) ! to_near n))"
    have "in_flight n = ?item # map (Inr \<circ> norm_message) (drop (Suc (to_near n)) (wire (far n)))"
      using less' by (simp add: in_flight_def Cons_nth_drop_Suc [symmetric])
    note there = deliver_near [OF less.prems(2) this, of accepts to_value server to_value' server']
    obtain t where t: "receive to_value server ?item (near n) = (near n)\<lparr>shared := t\<rparr>" "stop t"
      "only_answered (shared (near n)) t"
      using receive_answered [OF less.prems(3)] less.prems(2) by (metis hungry_def)
    let ?n = "n\<lparr>near := (near n)\<lparr>shared := t\<rparr>, to_near := Suc (to_near n)\<rparr>"
    have "hungry (near ?n)" using less.prems(2) by (simp add: hungry_def running_def)
    moreover have "length (wire (far n)) - Suc (to_near n) < length (wire (far n)) - to_near n"
      using less' by simp
    ultimately obtain ls n' where
      "networked accepts to_value server to_value' server' ?n ls [] n'" "unused ls" "far n' = far n" "to_far n' = to_far n"
      "to_near n' = length (wire (far n))" "wire (near n') = wire (near n)"
      "only_answered t (shared (near n'))"
      using less.hyps [of ?n] less' t(2) by auto
    with networked_trans [OF there [unfolded t(1)]] only_answered_trans [OF t(3)] show ?thesis
      by (intro exI [of _ "[received ?item (near n)] @ ls"] exI [of _ n']) fastforce
  qed
qed

section \<open>Property\<close>


text \<open>The conversation of the small server, when the request has just gone out.\<close>

definition hello_asked :: "(unit, unit) network" where
  "hello_asked = the (play exact no_value (the_server asker) as_is (the_server hello) (take 3 hello_turns)
     (network_start asker () hello ()))"

lemma hello_asked_played: "\<exists>ls ms. networked exact no_value (the_server asker) as_is (the_server hello)
    (network_start asker () hello ()) ls ms hello_asked"
proof (rule play_networked)
  have "\<not> Option.is_none (play exact no_value (the_server asker) as_is (the_server hello) (take 3 hello_turns)
      (network_start asker () hello ()))" by code_simp
  then show "play exact no_value (the_server asker) as_is (the_server hello) (take 3 hello_turns)
      (network_start asker () hello ()) = Some hello_asked"
    by (simp add: hello_asked_def Option.is_none_def del: play.simps)
qed

lemma hello_asked_fields:
  "hungry (near hello_asked)" "stop (shared (near hello_asked))" "running (far hello_asked)"
  "reading (far hello_asked)" "\<not> stop (shared (far hello_asked))"
  "calls (shared (near hello_asked)) = [\<lparr>call_id = ''7'', slot = Waiting, live = True, timed = False\<rparr>]"
  "wire (near hello_asked) = [message_request ''7'' ''hello'' None]"
  by code_simp+


end
