(* ===== verification/Transport.thy ===== *)
theory Transport
  imports Agreement
begin

text \<open>
  A network over bytes (\<open>Framed\<close> over a socket, as in \<open>prepare\<close> of \<open>src/tests/endpoint.rs\<close>).  Each side's
  sink encodes what is given to it; the bytes come to the other side in pieces of any size, into its
  buffer; its \<open>LineCodec\<close> looks for the next line there when an item is asked for.  That this
  implements the network of \<open>Network\<close>, where messages arrive whole, is the refinement proved here.
\<close>

section \<open>The transition system\<close>

record ('a, 'b) link =
  near_end :: "'a endpoint"
  far_end :: "'b endpoint"
  near_codec :: nat
  far_codec :: nat
  near_buf :: "byte list"
  far_buf :: "byte list"
  near_read :: nat
  far_read :: nat

definition swap :: "('a, 'b) link \<Rightarrow> ('b, 'a) link" where
  "swap k = \<lparr>near_end = far_end k, far_end = near_end k, near_codec = far_codec k, far_codec = near_codec k,
     near_buf = far_buf k, far_buf = near_buf k, near_read = far_read k, far_read = near_read k\<rparr>"

lemma swap_fields [simp]:
  "near_end (swap k) = far_end k" "far_end (swap k) = near_end k" "near_codec (swap k) = far_codec k"
  "far_codec (swap k) = near_codec k" "near_buf (swap k) = far_buf k" "far_buf (swap k) = near_buf k"
  "near_read (swap k) = far_read k" "far_read (swap k) = near_read k"
  by (simp_all add: swap_def)

lemma swap_swap [simp]: "swap (swap k) = k"
  by (simp add: swap_def)

text \<open>What a side has written, and what of it has not been read by the other.\<close>

definition written :: "json_lib \<Rightarrow> 's endpoint \<Rightarrow> byte list" where
  "written lib e = encode_all lib (wire e) []"

definition unread :: "json_lib \<Rightarrow> ('a, 'b) link \<Rightarrow> byte list" where
  "unread lib k = drop (near_read k) (written lib (far_end k))"

inductive transfer ::
  "json_lib \<Rightarrow> room \<Rightarrow> ('v \<Rightarrow> 'x + value) \<Rightarrow> ('a, 'v) server \<Rightarrow> label list \<Rightarrow>
   ('a, 'b) link \<Rightarrow> ('a, 'b) link \<Rightarrow> bool"
  for lib accepts to_value server where
  transfer_alone:
    "event accepts to_value server l (near_end k) e \<Longrightarrow> arrival l = [] \<Longrightarrow>
     transfer lib accepts to_value server [l] k (k\<lparr>near_end := e\<rparr>)"
| transfer_read:
    "unread lib k = bs @ rest \<Longrightarrow>
     transfer lib accepts to_value server [] k
       (k\<lparr>near_buf := near_buf k @ bs, near_read := near_read k + length bs\<rparr>)"
| transfer_wait:
    "line_decode lib (near_codec k) (near_buf k) = Some (None, pos, buf) \<Longrightarrow>
     transfer lib accepts to_value server [] k (k\<lparr>near_codec := pos, near_buf := buf\<rparr>)"
| transfer_item:
    "line_decode lib (near_codec k) (near_buf k) = Some (Some item, pos, buf) \<Longrightarrow>
     event accepts to_value server l (near_end k) e \<Longrightarrow> arrival l = [item] \<Longrightarrow>
     transfer lib accepts to_value server [l] k (k\<lparr>near_end := e, near_codec := pos, near_buf := buf\<rparr>)"

definition link_start :: "('c, 'a, 'v) builder \<Rightarrow> 'a \<Rightarrow> ('d, 'b, 'u) builder \<Rightarrow> 'b \<Rightarrow> ('a, 'b) link" where
  "link_start b x c y =
     \<lparr>near_end = start b x, far_end = start c y, near_codec = line_new, far_codec = line_new,
      near_buf = [], far_buf = [], near_read = 0, far_read = 0\<rparr>"

inductive linked ::
  "json_lib \<Rightarrow> room \<Rightarrow> ('v \<Rightarrow> 'x + value) \<Rightarrow> ('a, 'v) server \<Rightarrow> ('u \<Rightarrow> 'y + value) \<Rightarrow> ('b, 'u) server \<Rightarrow>
   ('a, 'b) link \<Rightarrow> label list \<Rightarrow> label list \<Rightarrow> ('a, 'b) link \<Rightarrow> bool"
  for lib accepts to_value server to_value' server' k0 where
  linked_start: "linked lib accepts to_value server to_value' server' k0 [] [] k0"
| linked_near:
    "linked lib accepts to_value server to_value' server' k0 ls ms k \<Longrightarrow>
     transfer lib accepts to_value server new k k' \<Longrightarrow>
     linked lib accepts to_value server to_value' server' k0 (ls @ new) ms k'"
| linked_far:
    "linked lib accepts to_value server to_value' server' k0 ls ms k \<Longrightarrow>
     transfer lib accepts to_value' server' new (swap k) k' \<Longrightarrow>
     linked lib accepts to_value server to_value' server' k0 ls (ms @ new) (swap k')"

section \<open>The bytes of messages\<close>

lemma encode_codec_appends: "snd (encode_codec lib m buf) = buf @ snd (encode_codec lib m [])"
  by (simp add: encode_appends)

lemma encode_all_appends: "encode_all lib ms buf = buf @ encode_all lib ms []"
proof (induction ms arbitrary: buf)
  case (Cons m ms)
  have "encode_all lib (m # ms) buf = snd (encode_codec lib m buf) @ encode_all lib ms []"
    using Cons.IH [of "snd (encode_codec lib m buf)"] by simp
  also have "\<dots> = buf @ snd (encode_codec lib m []) @ encode_all lib ms []"
    by (subst encode_codec_appends) simp
  also have "snd (encode_codec lib m []) @ encode_all lib ms [] = encode_all lib (m # ms) []"
    using Cons.IH [of "snd (encode_codec lib m [])"] by simp
  finally show ?case .
qed simp

lemma encode_all_append: "encode_all lib (ms @ ns) buf = encode_all lib ms buf @ encode_all lib ns []"
proof (induction ms arbitrary: buf)
  case Nil
  show ?case by (simp add: encode_all_appends [of lib ns buf])
qed simp

lemma encode_all_one:
  assumes "line_safe lib m"
  obtains bs where "encode_all lib (m # ms) [] = bs @ newline # encode_all lib ms []"
    and "newline \<notin> set bs" and "from_slice lib bs = Inr (norm_message m)"
proof -
  obtain bs where bs: "encode_codec lib m [] = (Inr (), [] @ bs @ [newline])" "newline \<notin> set bs"
    "from_slice lib bs = Inr (norm_message m)"
    using line_safe_encode [OF assms, of "[]"] by metis
  then have "encode_all lib (m # ms) [] = bs @ newline # encode_all lib ms []"
    using encode_all_appends [of lib ms "bs @ [newline]"] by simp
  with bs(2,3) that show ?thesis by blast
qed

text \<open>The first line of what has been read is the first message that was written.\<close>

lemma first_line_encoded:
  assumes "buf @ rest = encode_all lib ms []" and "\<forall>m \<in> set ms. line_safe lib m"
    and "split_line buf = Some (l, r)"
  shows "\<exists>m ns. ms = m # ns \<and> from_slice lib l = Inr (norm_message m) \<and> r @ rest = encode_all lib ns []"
proof -
  have buf: "buf = l @ newline # r" "newline \<notin> set l" using assms(3) by (simp_all add: split_line_Some)
  then obtain m ns where ms: "ms = m # ns" using assms(1) by (cases ms) auto
  with assms(2) obtain bs where bs: "encode_all lib (m # ns) [] = bs @ newline # encode_all lib ns []"
    "newline \<notin> set bs" "from_slice lib bs = Inr (norm_message m)"
    using encode_all_one [of lib m ns] by auto
  have "split_line (buf @ rest) = Some (l, r @ rest)" using buf by (simp add: split_line_Some)
  moreover have "split_line (buf @ rest) = Some (bs, encode_all lib ns [])"
    using assms(1) ms bs(1,2) by (simp add: split_line_Some)
  ultimately have "l = bs" "r @ rest = encode_all lib ns []" by simp_all
  with ms bs(3) show ?thesis by blast
qed

section \<open>What is on its way\<close>

text \<open>
  The bytes read are those of the messages that have arrived, and then the buffer, of which the codec
  has looked at a part without a newline.
\<close>

definition carried :: "json_lib \<Rightarrow> ('a, 'b) link \<Rightarrow> ('a, 'b) network \<Rightarrow> bool" where
  "carried lib k n \<longleftrightarrow>
     to_near n \<le> length (wire (far_end k)) \<and>
     near_buf k @ unread lib k = encode_all lib (drop (to_near n) (wire (far_end k))) [] \<and>
     near_read k \<le> length (written lib (far_end k)) \<and> scanned (near_codec k) (near_buf k)"

definition represents :: "json_lib \<Rightarrow> ('a, 'b) link \<Rightarrow> ('a, 'b) network \<Rightarrow> bool" where
  "represents lib k n \<longleftrightarrow>
     near n = near_end k \<and> far n = far_end k \<and> carried lib k n \<and> carried lib (swap k) (flip n)"

lemma represents_swap: "represents lib (swap k) (flip n) = represents lib k n"
  by (auto simp: represents_def)

text \<open>The other side may write more.\<close>

lemma carried_later:
  assumes "carried lib k n" and "wire (far_end k') = wire (far_end k) @ ms"
    and "near_buf k' = near_buf k" and "near_codec k' = near_codec k" and "near_read k' = near_read k"
    and "to_near n' = to_near n"
  shows "carried lib k' n'"
  using assms encode_all_append [of lib "drop (to_near n) (wire (far_end k))" ms "[]"]
  by (auto simp: carried_def unread_def written_def encode_all_append)

lemma transfer_wire:
  "transfer lib accepts to_value server new k k' \<Longrightarrow>
   far_end k' = far_end k \<and> far_buf k' = far_buf k \<and> far_codec k' = far_codec k \<and> far_read k' = far_read k \<and>
   (\<exists>ms. wire (near_end k') = wire (near_end k) @ ms)"
  by (cases rule: transfer.cases, assumption) (auto dest: event_wire)

lemma transfer_simulated:
  assumes step: "transfer lib accepts to_value server new k k'"
    and kn: "represents lib k n" and safe: "\<forall>m \<in> set (wire (far_end k)). line_safe lib m"
  shows "\<exists>n'. (new = [] \<and> n' = n \<or> (\<exists>l. new = [l] \<and> move accepts to_value server l n n')) \<and> represents lib k' n'"
proof -
  have carried: "carried lib k n" and sides: "near n = near_end k" "far n = far_end k"
    using kn by (simp_all add: represents_def)
  have other: "carried lib (swap k') (flip n')" if "to_far n' = to_far n" for n'
  proof -
    from transfer_wire [OF step] obtain ms where "wire (near_end k') = wire (near_end k) @ ms" by blast
    with kn transfer_wire [OF step] that show ?thesis
      by (intro carried_later [of lib "swap k" "flip n" "swap k'" ms]) (simp_all add: represents_def)
  qed
  from step show ?thesis
  proof (cases rule: transfer.cases)
    case (transfer_alone l e)
    then have "move accepts to_value server l n (n\<lparr>near := e\<rparr>)"
      using sides by (intro move_alone) simp_all
    moreover have "carried lib k' (n\<lparr>near := e\<rparr>)"
      using carried transfer_alone by (simp add: carried_def unread_def)
    ultimately show ?thesis using transfer_alone sides other [of "n\<lparr>near := e\<rparr>"]
      by (auto simp: represents_def)
  next
    case (transfer_read bs rest)
    have "length (unread lib k) \<le> length (written lib (far_end k)) - near_read k" by (simp add: unread_def)
    then have "near_read k + length bs \<le> length (written lib (far_end k))"
      using carried transfer_read(3) by (auto simp: carried_def)
    moreover have "unread lib k' = rest"
      using transfer_read by (simp add: unread_def add.commute drop_drop [symmetric] del: drop_drop)
    ultimately have "carried lib k' n"
      using carried transfer_read by (simp add: carried_def)
    with transfer_read sides other [of n] show ?thesis by (auto simp: represents_def)
  next
    case (transfer_wait pos buf)
    then have "pos = length (near_buf k)" "buf = near_buf k" "split_line (near_buf k) = None"
      using carried by (auto simp: carried_def line.decode_scanned split: option.splits)
    then have "carried lib k' n"
      using carried transfer_wait by (simp add: carried_def unread_def split_line_None)
    with transfer_wait sides other [of n] show ?thesis by (auto simp: represents_def)
  next
    case (transfer_item item pos buf l e)
    then obtain line where line: "split_line (near_buf k) = Some (line, buf)" "item = from_slice lib line" "pos = 0"
      using carried by (auto simp: carried_def line.decode_scanned split: option.splits)
    have "\<forall>m \<in> set (drop (to_near n) (wire (far_end k))). line_safe lib m"
      using safe by (auto dest: in_set_dropD)
    moreover have "near_buf k @ unread lib k = encode_all lib (drop (to_near n) (wire (far_end k))) []"
      using carried by (simp add: carried_def)
    ultimately obtain m ns where
      m: "drop (to_near n) (wire (far_end k)) = m # ns" "from_slice lib line = Inr (norm_message m)"
        "buf @ unread lib k = encode_all lib ns []"
      using first_line_encoded [OF _ _ line(1)] by blast
    let ?n = "n\<lparr>near := e, to_near := Suc (to_near n)\<rparr>"
    have "in_flight n = item # map (Inr \<circ> norm_message) ns"
      using m(1,2) line(2) sides by (simp add: in_flight_def)
    then have "move accepts to_value server l n ?n"
      using transfer_item sides by (intro move_deliver) simp_all
    moreover have "drop (Suc (to_near n)) (wire (far_end k)) = ns" "to_near n < length (wire (far_end k))"
      using m(1) by (metis drop_Suc tl_drop list.sel(3)) (metis drop_eq_Nil2 leI list.distinct(1) m(1))
    then have "carried lib k' ?n"
      using carried transfer_item m(3) line(3) by (simp add: carried_def unread_def)
    ultimately show ?thesis using transfer_item sides other [of ?n] by (auto simp: represents_def)
  qed
qed

lemma linked_simulated:
  assumes "linked lib accepts to_value (the_server b) to_value' (the_server c) (link_start b x c y) ls ms k"
    and "\<forall>m \<in> set (wire (near_end k)) \<union> set (wire (far_end k)). line_safe lib m"
  shows "\<exists>n. networked accepts to_value (the_server b) to_value' (the_server c) (network_start b x c y) ls ms n \<and>
    represents lib k n"
  using assms
proof (induction rule: linked.induct)
  case linked_start
  have "wire (start b x) = []" for b :: "('p, 'q, 'r) builder" and x by (simp add: start_def Let_def)
  then have "represents lib (link_start b x c y) (network_start b x c y)"
    by (simp add: represents_def link_start_def network_start_def carried_def unread_def written_def line_new_def)
  then show ?case by (auto intro: networked_start)
next
  case (linked_near ls ms k new k')
  note frame = transfer_wire [OF linked_near.hyps(2)]
  then have "set (wire (near_end k)) \<subseteq> set (wire (near_end k'))" "far_end k' = far_end k" by auto
  with linked_near.prems have safe: "\<forall>m \<in> set (wire (near_end k)) \<union> set (wire (far_end k)). line_safe lib m"
    by auto
  from linked_near.IH [OF this] obtain n where
    n: "networked accepts to_value (the_server b) to_value' (the_server c) (network_start b x c y) ls ms n"
      "represents lib k n" by blast
  from transfer_simulated [OF linked_near.hyps(2) n(2)] safe obtain n' where
    "new = [] \<and> n' = n \<or> (\<exists>l. new = [l] \<and> move accepts to_value (the_server b) l n n')" "represents lib k' n'"
    by auto
  with n(1) show ?case by (auto intro: networked_near)
next
  case (linked_far ls ms k new k')
  note frame = transfer_wire [OF linked_far.hyps(2)]
  then have "set (wire (far_end k)) \<subseteq> set (wire (near_end k'))" "far_end k' = near_end k" by auto
  with linked_far.prems have safe: "\<forall>m \<in> set (wire (near_end k)) \<union> set (wire (far_end k)). line_safe lib m"
    by auto
  from linked_far.IH [OF this] obtain n where
    n: "networked accepts to_value (the_server b) to_value' (the_server c) (network_start b x c y) ls ms n"
      "represents lib (swap k) (flip n)" by (auto simp: represents_swap)
  from transfer_simulated [OF linked_far.hyps(2) n(2)] safe obtain n' where
    n': "new = [] \<and> n' = flip n \<or> (\<exists>l. new = [l] \<and> move accepts to_value' (the_server c) l (flip n) n')"
      "represents lib k' n'"
    by auto
  from n'(1) n(1) have "networked accepts to_value (the_server b) to_value' (the_server c)
      (network_start b x c y) ls (ms @ new) (flip n')"
    by (auto intro: networked_far)
  moreover have "represents lib (swap k') (flip n')" using n'(2) by (simp add: represents_swap)
  ultimately show ?case by blast
qed

section \<open>Property\<close>

text \<open>
  C3. The bytes implement the messages.  Two endpoints on a transport that brings bytes, in pieces of any
  size and with any delay, whose codec buffers them and is asked for items when the endpoints want
  them, do nothing that two endpoints that exchange whole messages would not: whatever is reached over
  bytes, and whatever is seen on the way, is reached over messages, as long as what is sent has a
  compact form without a newline that parses back.
\<close>

theorem bytes_implement_messages:
  assumes "linked lib accepts to_value (the_server b) to_value' (the_server c) (link_start b x c y) ls ms k"
    and "\<forall>m \<in> set (wire (near_end k)) \<union> set (wire (far_end k)). line_safe lib m"
  shows "\<exists>n. networked accepts to_value (the_server b) to_value' (the_server c) (network_start b x c y) ls ms n \<and>
    near n = near_end k \<and> far n = far_end k \<and>
    near_buf k @ unread lib k = encode_all lib (drop (to_near n) (wire (far n))) []"
  using linked_simulated [OF assms] by (auto simp: represents_def carried_def)

text \<open>The texts of one request and its response.\<close>

definition hello_request :: "byte list \<times> value" where
  \<open>hello_request = (as_bytes ''{"jsonrpc":"2.0","method":"hello","id":"7"}'',
     ser_request \<lparr>req_jsonrpc = Version, req_method = ''hello'', req_params = None, req_id = String ''7''\<rparr>)\<close>

definition hello_response :: "byte list \<times> value" where
  \<open>hello_response = (as_bytes ''{"jsonrpc":"2.0","result":"world","id":"7"}'',
     ser_response \<lparr>resp_jsonrpc = Version, resp_result = Inr (String ''world''), resp_id = String ''7''\<rparr>)\<close>

definition hello_lib :: json_lib where
  "hello_lib = table_lib [hello_request, hello_response]"

lemma hello_request_safe: "line_safe hello_lib (message_request ''7'' ''hello'' None)"
  by (simp add: line_safe_def hello_lib_def table_lib_def hello_request_def hello_response_def
      message_request_def ser_request_def ok_request_def as_bytes_def newline_def)

lemma linked_performs:
  assumes "linked lib accepts to_value server to_value' server' k0 ls ms k"
    and "perform_all accepts to_value server as (near_end k) = Some (new, e)" and "\<forall>l \<in> set new. arrival l = []"
  shows "linked lib accepts to_value server to_value' server' k0 (ls @ new) ms (k\<lparr>near_end := e\<rparr>)"
  using assms
proof (induction as arbitrary: ls k new)
  case (Cons a as)
  then obtain l e1 ks where l: "perform accepts to_value server a (near_end k) = Some (l, e1)"
    "perform_all accepts to_value server as e1 = Some (ks, e)" "new = l # ks"
    by (auto split: option.splits)
  have "linked lib accepts to_value server to_value' server' k0 (ls @ [l]) ms (k\<lparr>near_end := e1\<rparr>)"
    by (rule linked_near [OF Cons.prems(1) transfer_alone [OF perform_event [OF l(1)]]])
       (use l(3) Cons.prems(3) in simp)
  from Cons.IH [OF this, of ks] l Cons.prems(3) show ?case by simp
next
  case Nil
  have "k\<lparr>near_end := near_end k\<rparr> = k" by (cases k) simp
  with Nil show ?case by (simp only: perform_all.simps) auto
qed

text \<open>The client has sent its request, and the server has read half of it.\<close>

definition asking_steps :: "unit action list" where
  "asking_steps =
     [Use (Make_call ''7'' ''hello'' None None), Use (Send_call 0 ''hello'' None), Forward_message]"

definition asked_end :: "unit endpoint" where
  "asked_end = snd (the (perform_all exact no_value (the_server asker) asking_steps (start asker ())))"

lemma asked_end:
  "perform_all exact no_value (the_server asker) asking_steps (start asker ()) =
     Some ([Used, Used, Forwarded (message_request ''7'' ''hello'' None)], asked_end)"
  "wire asked_end = [message_request ''7'' ''hello'' None]"
proof -
  let ?run = "perform_all exact no_value (the_server asker) asking_steps (start asker ())"
  have "map_option fst ?run = Some [Used, Used, Forwarded (message_request ''7'' ''hello'' None)]" by code_simp
  then show "?run = Some ([Used, Used, Forwarded (message_request ''7'' ''hello'' None)], asked_end)"
    by (cases ?run) (auto simp: asked_end_def)
  show "wire asked_end = [message_request ''7'' ''hello'' None]" by code_simp
qed

definition half_read :: "(unit, unit) link" where
  "half_read = (link_start asker () hello ())\<lparr>near_end := asked_end,
     far_buf := take 20 (written hello_lib asked_end), far_read := 20\<rparr>"

lemma half_read_linked: "linked hello_lib exact no_value (the_server asker) as_is (the_server hello)
    (link_start asker () hello ()) [Used, Used, Forwarded (message_request ''7'' ''hello'' None)] [] half_read"
proof -
  let ?k = "(link_start asker () hello ())\<lparr>near_end := asked_end\<rparr>"
  let ?out = "written hello_lib asked_end"
  have near: "linked hello_lib exact no_value (the_server asker) as_is (the_server hello)
      (link_start asker () hello ()) ([] @ [Used, Used, Forwarded (message_request ''7'' ''hello'' None)]) [] ?k"
    by (rule linked_performs [OF linked_start]) (use asked_end(1) in \<open>simp_all add: link_start_def\<close>)
  have "20 \<le> length ?out"
    by (simp add: written_def asked_end(2) encode_codec_def to_vec_def hello_lib_def table_lib_def hello_request_def
        message_request_def as_bytes_def)
  then have "length (take 20 ?out) = 20" by simp
  moreover have "transfer hello_lib exact as_is (the_server hello) [] (swap ?k)
      ((swap ?k)\<lparr>near_buf := near_buf (swap ?k) @ take 20 ?out, near_read := near_read (swap ?k) + length (take 20 ?out)\<rparr>)"
    by (rule transfer_read [where rest = "drop 20 ?out"]) (simp add: unread_def link_start_def)
  from linked_far [OF near this] show ?thesis
    using \<open>length (take 20 ?out) = 20\<close> by (simp add: half_read_def swap_def link_start_def)
qed

theorem bytes_implement_messages_witness:
  "\<exists>n. networked exact no_value (the_server asker) as_is (the_server hello) (network_start asker () hello ())
     [Used, Used, Forwarded (message_request ''7'' ''hello'' None)] [] n \<and> near n = near_end half_read"
proof -
  have "\<forall>m \<in> set (wire (near_end half_read)) \<union> set (wire (far_end half_read)). line_safe hello_lib m"
    by (simp add: half_read_def link_start_def start_def asked_end(2) hello_request_safe Let_def)
  from bytes_implement_messages [OF half_read_linked this] show ?thesis by blast
qed

end
