(* ===== verification/Spec2Isabelle.thy ===== *)
theory Spec2Isabelle
  imports Limits Echo Time_Client Doc_Params Doc_Client Endpoint_Tests Settling Transport
begin

text \<open>
  A verification development for tokio-jsonrpc, a JSON-RPC 2.0 library over tokio.

  The program.  A connection carries JSON documents.  A codec (\<open>src/src/codec.rs\<close>) cuts the
  byte stream into documents and back; \<open>src/src/message.rs\<close> turns documents into messages
  (requests, responses, notifications, batches) or says in which way they are broken.  An
  \<open>Endpoint\<close> (\<open>src/src/endpoint.rs\<close>) is a server and a client on one connection: it hands
  requests and notifications to a user's \<open>Server\<close> and sends what its futures yield; it wakes
  the caller whose call a response answers; \<open>ServerCtl\<close> stops it.  \<open>src/src/server.rs\<close>
  holds the \<open>Server\<close> trait, wrappers for servers, and the macro that decodes parameters.

  The theories, and what they model.
  \<^item> \<open>Prelude\<close>: results as sums, folds that stop at an error, lemmas shared by all.
  \<^item> \<open>Json\<close>: documents (\<open>serde_json::Value\<close>), and objects as sorted maps, with the locale
    \<open>string_map\<close> for what a map promises.
  \<^item> \<open>Message\<close>: the types and constructors of \<open>message.rs\<close>; \<open>Serde\<close>: its derived and
    hand-written (de)serializers, over documents; \<open>Serde_Laws\<close>: the contract \<open>wire_format\<close> of
    a serializer and its deserializer, interpreted for every struct; \<open>Decode\<close>: \<open>from_slice\<close>,
    \<open>from_str\<close> and the conversions to text, and how a document is classified.
  \<^item> \<open>Utf8\<close>: \<open>String::from_utf8_lossy\<close>; \<open>Codec\<close>: \<open>Line\<close>, \<open>DirtyLine\<close>, \<open>Boundary\<close> and
    their encoder, with the locale \<open>line_decoder\<close> for a decoder that caches how far it has looked.
  \<^item> \<open>Ctl\<close>: the state of a connection behind \<open>Rc\<close> (the record \<open>conn\<close> for
    \<open>ServerCtlInternal\<close> and what hangs off it), \<open>terminate\<close>, \<open>kill\<close>, \<open>client\<close>, and the
    invariant \<open>conn_ok\<close>; \<open>Client\<close>: \<open>call\<close>, \<open>notify\<close>, the futures they give, and \<open>api\<close>,
    everything a holder of handles can do.
  \<^item> \<open>Server\<close>: the trait as a record of functions, futures as a codatatype, \<open>Empty\<close>,
    \<open>AbstractServer\<close>, \<open>ServerChain\<close>, and the locale \<open>server_contract\<close> (a server touches
    its connection through the public interface only); \<open>Params\<close>: \<open>jsonrpc_params!\<close>.
  \<^item> \<open>Dispatch\<close>: \<open>do_request\<close>, \<open>do_notification\<close>, \<open>do_batch\<close>, \<open>do_response\<close>,
    \<open>do_msg\<close> and the futures they build, called jobs; \<open>Jobs\<close>: the accounts of the channels in
    which batches collect their replies.
  \<^item> \<open>Endpoint\<close>: the builder, \<open>start\<close>, the pipeline as the relation \<open>event\<close>, whose label says what is
    seen of a step (\<open>step\<close> forgets it), and its invariant; \<open>Connection\<close>, \<open>Replies\<close>, \<open>Calls\<close> and
    this theory: properties of connections and calls.
  \<^item> \<open>Tickets\<close>, \<open>Schedules\<close>: what each job still owes, the accounts that every step keeps, and so the
    replies under every schedule; \<open>Wire\<close>: what kinds of messages go out; \<open>Limits\<close>: how much room a
    connection takes, and that polling ends.
  \<^item> \<open>Discipline\<close>: the locale \<open>discipline\<close> for a server that keeps a property of the shared state, its
    extension \<open>upkeep\<close>, and what then every step of the endpoint's own keeps.
  \<^item> \<open>Singles\<close>, \<open>Callers\<close>: a connection that receives no batches (no operation of this library sends
    one), the books of its requests and calls, and the locale \<open>honest\<close> for a server that gives only
    outcomes in a relation.
  \<^item> \<open>Scheduler\<close>: the steps of \<open>event\<close> as a function of actions, with the proof that it has the same
    runs; \<open>Network\<close>: two endpoints with each other as one transition system; \<open>Play\<close>: its runs
    as a function; \<open>Agreement\<close>: what the two sides know of each other; \<open>Settling\<close>: the locale \<open>obliging\<close>
    for a server that answers at once, and that calls then complete; \<open>Transport\<close>: the same network over
    bytes and codecs, which refines it.
  \<^item> \<open>Test_Servers\<close>, \<open>Endpoint_Tests\<close>: the servers of \<open>src/tests/endpoint.rs\<close> as interpretations of
    \<open>server_contract\<close> and \<open>honest\<close>, and its tests as runs of a network.
  \<^item> The examples (\<open>src/examples\<close>): \<open>Echo\<close> (\<open>echo_params.rs\<close>), \<open>Time_Server\<close> (\<open>time_server.rs\<close>) with
    \<open>Subscriptions\<close>, \<open>Time_Client\<close> (\<open>time_client.rs\<close>).
  \<^item> The documentation's examples: \<open>Greeter\<close> (the server and program in \<open>src/src/lib.rs\<close>), \<open>Doc_Client\<close> (the
    client of \<open>Endpoint\<close>), \<open>Doc_Params\<close> (those of \<open>jsonrpc_params!\<close>).
  \<^item> \<open>Server_Tests\<close>, \<open>Message_Tests\<close>: the unit tests of \<open>server.rs\<close>, \<open>message.rs\<close> and \<open>codec.rs\<close> as
    propositions, and the proofs that they hold of the model.

  What is shown.  Of the messages: which documents read as which message, and round trips.  Of the
  codecs: framing that does not depend on how the transport cuts the bytes, and no panics.  Of a
  connection, in every reachable state: the terminator fires exactly when nothing needs the
  connection any more; no send fails, and batches cannot block each other with a parallelism of one:
  the work at hand gets done but for futures of the server that are not ready (\<open>of_server\<close> says which
  futures are the server's); what a batch's channel holds is bounded by that batch, and what is sent by
  what was received and served;
  what goes out serializes; the end leaves no caller waiting; a stopped endpoint serves nothing.  Of
  the answers, twice: for every schedule and every server, fast or slow, what has been sent is part
  of what is due, and all of it when no job is left, up to the order in which jobs finish
  (\<open>replies_under_every_schedule\<close>); and worked off in turn with a server that answers at once, an
  item gives exactly the reply that a recursive function on messages gives, order included
  (\<open>item_gets_its_reply\<close>).  That function, \<open>expected\<close>, is the code's reading of JSON-RPC 2.0 and not in
  every case the specification's: the lemma \<open>empty_batch_unanswered\<close> records that an empty batch gets no
  reply, and nested batches are answered by batches.  Of the calls: whatever goes on elsewhere
  (\<open>elsewhere\<close>), each waits for the response with its id and gets it, or is forgotten.  Of two
  endpoints with each other, in every run: an answer that a caller gets is one the other side's server
  may give for that request (\<open>answers_agree\<close>); no request is answered twice; when all has come to rest
  no call is left waiting (\<open>no_call_lost\<close>), and a call of a client-only side whose request is on the
  wire can get its answer from an obliging server that is not stopped, by steps of the endpoints
  alone (\<open>calls_complete\<close>); and what holds of messages that arrive whole holds of bytes that arrive in
  pieces (\<open>bytes_implement_messages\<close>).  \<open>remote_call\<close> follows one call all the way.  Of the time
  server: a subscription holds its connection, and ends with it.  Of the documented server: \<open>bye\<close> is the
  last message it serves, what comes later being without effect, and a connection greets its peer once.
  Of the echo server: the documents it writes, line by line, and that its clients get their answers.  Some results record behaviour that
  the documentation does not promise: the theorems \<open>call_after_end_of_input\<close>, \<open>subscribe_outcome\<close>
  (a panic a peer can cause) and \<open>documented_call_never_sent\<close> (an example that drops its own future), and
  the lemmas \<open>boundary_syntax_error_repeats\<close>, \<open>array_read_as_request\<close>,
  \<open>stopped_item\<close> and \<open>single_variable\<close>.

  Parameters.  Other crates are arguments: \<open>json_lib\<close> and \<open>stream_lib\<close> (the text side of
  \<open>serde_json\<close>), \<open>to_value\<close> (serialization of a server's results), the decoders of the macro's
  types, the drawn uuid, the timer's outcome, and \<open>accepts\<close>, the rule by which a bounded channel
  takes a message (\<open>roomy\<close>: at least as many as its capacity; \<open>strict k\<close>: at most \<open>k\<close> more).  What is
  said of them are hypotheses with these names: \<open>line_safe\<close> (a compact form has no newline and parses
  back), \<open>docs_ok\<close>, \<open>roomy\<close>, \<open>strict\<close>; and of a user's server: \<open>server_contract\<close>, \<open>implements\<close> (it
  answers at once and keeps to itself), \<open>offers\<close> (whatever it answers, and whenever, is what the
  methods say), \<open>prompt_server\<close> (its futures resolve at their first poll), \<open>honest\<close> (each outcome is in
  a relation that may depend on the request only), \<open>obliging\<close> (it answers at once and does not stop its
  connection).  Of \<open>futures\<close> and
  \<open>tokio_core\<close> the documented meaning of the adaptors and of oneshots is written into \<open>poll_job\<close>,
  \<open>answer_poll\<close> and \<open>event\<close>: which job is polled, when an item, the end, an error or a use of a handle
  comes, is left open, so a safety property holds for every schedule, and a liveness property says
  that a schedule exists.  No fuel bounds these runs; the reading loop \<open>drain\<close> has as fuel the length
  of its buffer plus one, and each decoded item takes at least one byte.

  The repository's tests and the documentation's examples are modelled too.  That each of them holds is
  a lemma that evaluates it on its own inputs, a check of the definitions against what the authors
  expected; the general statements are the properties numbered C1 to C40.

  In the integration tests, timers that fire are shown by an action that sets the server's state
  (\<open>Set_server\<close>), and the reactor's choices are the schedule that is written down.

  Not modelled: logging, reactor handles, the sockets and timers themselves, the reactor loops of the
  example programs, the declarations and re-exports of the crate root \<open>src/src/lib.rs\<close> and the skeleton in
  its documentation, which does nothing, and \<open>src/tests/version.rs\<close>, which checks version numbers in the
  documentation.
\<close>

section \<open>Two endpoints\<close>

text \<open>What the caller of a method is to be told.\<close>

definition outcome :: "methods \<Rightarrow> string \<Rightarrow> value option \<Rightarrow> rpc_error + value" where
  "outcome f m p = (case f m p of None \<Rightarrow> Inl (method_not_found m) | Some r \<Rightarrow> r)"

definition answer_to :: "methods \<Rightarrow> string \<Rightarrow> string \<Rightarrow> value option \<Rightarrow> response" where
  "answer_to f uuid m p = \<lparr>resp_jsonrpc = Version, resp_result = outcome f m p, resp_id = String uuid\<rparr>"

lemma expected_answer: "expected f (message_request uuid m p) = Some (Response (answer_to f uuid m p))"
  by (simp add: message_request_def answer_to_def outcome_def reply_def reply_error_def
      split: option.split sum.split)

text \<open>
  C4. A remote call, end to end.  A client calls a method; its request is encoded, reaches the other
  side in any pieces, and is decoded; an idle endpoint with a server for the methods can take it and
  work it off, and then has sent one response; encoded, and again in any pieces, that comes back,
  and the future of the call then yields it: the outcome the server's method gives for the method's
  name and parameters, under the id of the call.  The one thing lost on the way is the difference
  between a member that is absent and one that is \<open>null\<close>.
\<close>

theorem remote_call:
  assumes "conn_ok k s" and "client_call uuid m params timeout s = (Inr (msg, i), t)"
    and "implements server f" and "server_contract accepts server" and "roomy accepts"
    and "hungry e" and "pool e = []" and "\<not> stop (shared e)"
    and "line_safe lib msg" and "concat outward = encode_all lib [msg] []"
    and "answer = answer_to f uuid m (norm_option params)"
    and "line_safe lib (Response answer)" and "concat homeward = encode_all lib [Response answer] []"
  shows "\<exists>item u pos pos' r.
    feed (line_decode lib) line_new [] outward = Some ([item], pos, []) \<and>
    (step accepts as_is server)\<^sup>*\<^sup>* (receive as_is server item e)
      (e\<lparr>shared := u, wire := wire e @ [Response answer]\<rparr>) \<and>
    feed (line_decode lib) line_new [] homeward = Some ([Inr (Response r)], pos', []) \<and>
    r = norm_response answer \<and>
    fst (answer_poll None i (snd (do_msg to_value own_server (Inr (Response r)) t))) = Ready (Inr (Some r))"
proof -
  note call = registered_call [OF assms(1,2)]
  let ?msg = "message_request uuid m (norm_option params)" and ?r = "norm_response answer"
  from feed_encoded [of "[msg]" lib outward] assms(9,10) call(1) obtain pos where
    there: "feed (line_decode lib) line_new [] outward = Some ([Inr ?msg], pos, [])"
    by (auto simp: norm_message_request)
  from feed_encoded [of "[Response answer]" lib homeward] assms(12,13) obtain pos' where
    homeward: "feed (line_decode lib) line_new [] homeward = Some ([Inr (Response ?r)], pos', [])" by auto
  from item_answered [OF assms(3-8), of "Inr ?msg"] assms(11) obtain u where
    served: "(step accepts as_is server)\<^sup>*\<^sup>* (receive as_is server (Inr ?msg) e)
      (e\<lparr>shared := u, wire := wire e @ [Response answer]\<rparr>)"
    by (auto simp: expected_answer)
  have "resp_id ?r = String uuid" using assms(11) by (simp add: norm_response_def answer_to_def)
  then have "fst (answer_poll None i (snd (do_msg to_value own_server (Inr (Response ?r)) t))) =
      Ready (Inr (Some ?r))"
    by (intro answer_arrives [of t uuid]) (simp_all add: call(3,4))
  with there served homeward show ?thesis by blast
qed

definition hello_call :: "unit conn" where
  "hello_call = snd (client_call ''7'' ''hello'' None None one_client)"

lemma hello_call: "client_call ''7'' ''hello'' None None one_client =
    (Inr (message_request ''7'' ''hello'' None, 0), hello_call)"
  by (simp add: hello_call_def client_call_def one_client_def idmap_drop_def rc_clone_def)

lemma hello_safe:
  "line_safe hello_lib (message_request ''7'' ''hello'' None)"
  "line_safe hello_lib (Response (answer_to hello_methods ''7'' ''hello'' None))"
  by (simp_all add: line_safe_def hello_lib_def table_lib_def hello_request_def hello_response_def
      message_request_def answer_to_def outcome_def hello_methods_def ser_request_def ser_response_def
      ok_request_def ok_response_def as_bytes_def newline_def)

theorem remote_call_witness:
  "\<exists>r. fst (answer_poll None 0 (snd (do_msg as_is hello_server (Inr (Response r)) hello_call))) =
     Ready (Inr (Some r)) \<and> resp_result r = Inr (String ''world'')"
  using remote_call [OF one_client_ok hello_call hello_implements hello.server_contract_axioms roomy_exact,
      of idle hello_lib "[encode_all hello_lib [message_request ''7'' ''hello'' None] []]" _
      "[encode_all hello_lib [Response (answer_to hello_methods ''7'' ''hello'' None)] []]" as_is hello_server]
    hello_safe
  by (auto simp: hungry_def running_def norm_response_def answer_to_def outcome_def hello_methods_def)

end
